(* ===== verification/FB_Prelude.thy ===== *)
theory FB_Prelude
  imports Main "HOL-Library.Word"
begin

text \<open>
  Shared vocabulary of the development: the types the C code uses everywhere (addresses,
  the 64-bit \<^verbatim>\<open>fbint_t\<close>, status codes of \<^verbatim>\<open>filebench.h\<close>), the collections of rewrite
  rules that the component theories fill, and the generic lemmas on functions, lists and
  options that several components use.
\<close>

section \<open>Types\<close>

text \<open>An address of the shared-memory segment or of a process heap; 0 is \<^verbatim>\<open>NULL\<close>.\<close>

type_synonym ptr = nat

abbreviation (input) NULL :: ptr where
  "NULL \<equiv> 0"

text \<open>\<^verbatim>\<open>fbint_t\<close> and the other \<^verbatim>\<open>uint64_t\<close> values; \<^verbatim>\<open>int64_t\<close> is read with \<^const>\<open>sint\<close>.\<close>

type_synonym fbint = "64 word"
type_synonym uint32 = "32 word"

section \<open>Rule collections\<close>

named_theorems heap_simps \<open>reads and writes of the node heap\<close>
named_theorems frame_simps \<open>what an update outside a structure leaves alone\<close>
named_theorems tree_simps \<open>equations of abstract trees and zippers\<close>

section \<open>Status codes\<close>

text \<open>The return codes of \<^verbatim>\<open>filebench.h\<close>.\<close>

definition FILEBENCH_DONE :: int where "FILEBENCH_DONE = 1"
definition FILEBENCH_OK :: int where "FILEBENCH_OK = 0"
definition FILEBENCH_ERROR :: int where "FILEBENCH_ERROR = -1"
definition FILEBENCH_NORSC :: int where "FILEBENCH_NORSC = -2"

lemmas status_defs = FILEBENCH_DONE_def FILEBENCH_OK_def FILEBENCH_ERROR_def FILEBENCH_NORSC_def

section \<open>Updates confined to a set of addresses\<close>

text \<open>Two stores agree on a set of addresses: the frame condition of every store lemma.\<close>

definition agree :: "'a set \<Rightarrow> ('a \<Rightarrow> 'b) \<Rightarrow> ('a \<Rightarrow> 'b) \<Rightarrow> bool" where
  "agree A f g \<longleftrightarrow> (\<forall>a\<in>A. f a = g a)"

lemma agree_refl [simp, intro]: "agree A f f"
  by (simp add: agree_def)

lemma agree_sym: "agree A f g \<Longrightarrow> agree A g f"
  by (simp add: agree_def)

lemma agree_trans: "agree A f g \<Longrightarrow> agree A g k \<Longrightarrow> agree A f k"
  by (simp add: agree_def)

lemma agree_mono: "agree B f g \<Longrightarrow> A \<subseteq> B \<Longrightarrow> agree A f g"
  by (auto simp: agree_def)

lemma agree_Un [simp]: "agree (A \<union> B) f g \<longleftrightarrow> agree A f g \<and> agree B f g"
  by (auto simp: agree_def)

lemma agree_insert [simp]: "agree (insert a A) f g \<longleftrightarrow> f a = g a \<and> agree A f g"
  by (auto simp: agree_def)

lemma agree_empty [simp]: "agree {} f g"
  by (simp add: agree_def)

lemma agree_upd_left [simp]: "a \<notin> A \<Longrightarrow> agree A (f(a := x)) g = agree A f g"
  by (auto simp: agree_def)

lemma agree_upd_right [simp]: "a \<notin> A \<Longrightarrow> agree A f (g(a := x)) = agree A f g"
  by (auto simp: agree_def)

end
