(* ===== verification/FB_Avl.thy ===== *)
theory FB_Avl
  imports FB_Prelude
begin

text \<open>
  The AVL tree of \<^verbatim>\<open>fb_avl.c\<close>, as the code has it: nodes live in a heap of records with
  child, parent, child-index and balance fields, and every operation is a function on the
  tree header and the heap. A child index (0 or 1 in C) is a \<^typ>\<open>bool\<close>, so \<^verbatim>\<open>1 - left\<close>
  is negation. Loops that follow pointers are \<^theory_text>\<open>partial_function (option)\<close>: \<open>None\<close> is a
  loop that never returns, which happens on a cyclic heap. The comparison function of the
  tree reads the client's data and is an argument. Log messages are not modelled; the early
  returns that go with them are.
\<close>

section \<open>Data\<close>

text \<open>\<^verbatim>\<open>struct avl_node\<close>.\<close>

record avl_node =
  avl_child :: "bool \<Rightarrow> ptr"
  avl_parent :: ptr
  avl_child_index :: bool
  avl_balance :: int

type_synonym avl_heap = "ptr \<Rightarrow> avl_node"

text \<open>\<^verbatim>\<open>struct avl_tree\<close>, without the comparison function.\<close>

record avl_tree =
  avl_root :: ptr
  avl_offset :: nat
  avl_numnodes_fld :: nat
  avl_size :: nat

text \<open>\<^verbatim>\<open>avl_index_t\<close>: a node address with the child bit.\<close>

type_synonym avl_index = "ptr \<times> bool"

section \<open>Field access macros\<close>

definition AVL_NODE2DATA :: "ptr \<Rightarrow> nat \<Rightarrow> ptr" where
  "AVL_NODE2DATA n off = n - off"

definition AVL_DATA2NODE :: "ptr \<Rightarrow> nat \<Rightarrow> ptr" where
  "AVL_DATA2NODE d off = d + off"

definition AVL_SETPARENT :: "avl_heap \<Rightarrow> ptr \<Rightarrow> ptr \<Rightarrow> avl_heap" where
  "AVL_SETPARENT h n p = h(n := (h n)\<lparr>avl_parent := p\<rparr>)"

definition AVL_SETCHILD :: "avl_heap \<Rightarrow> ptr \<Rightarrow> bool \<Rightarrow> avl_heap" where
  "AVL_SETCHILD h n c = h(n := (h n)\<lparr>avl_child_index := c\<rparr>)"

definition AVL_SETBALANCE :: "avl_heap \<Rightarrow> ptr \<Rightarrow> int \<Rightarrow> avl_heap" where
  "AVL_SETBALANCE h n b = h(n := (h n)\<lparr>avl_balance := b\<rparr>)"

text \<open>The assignment \<^verbatim>\<open>n->avl_child[c] = x\<close>.\<close>

definition set_avl_child :: "avl_heap \<Rightarrow> ptr \<Rightarrow> bool \<Rightarrow> ptr \<Rightarrow> avl_heap" where
  "set_avl_child h n c x = h(n := (h n)\<lparr>avl_child := (avl_child (h n))(c := x)\<rparr>)"

lemmas avl_macro_defs = AVL_SETPARENT_def AVL_SETCHILD_def AVL_SETBALANCE_def set_avl_child_def

definition avl_child2balance :: "bool \<Rightarrow> int" where
  "avl_child2balance c = (if c then 1 else -1)"

definition avl_balance2child :: "int \<Rightarrow> bool" where
  "avl_balance2child i = [False, False, True] ! nat i"

section \<open>Walking\<close>

text \<open>The two loops of \<^verbatim>\<open>avl_walk\<close>: as far as possible down one side, and up through the
  parents until the walk comes from the given side.\<close>

partial_function (option) avl_descend :: "avl_heap \<Rightarrow> bool \<Rightarrow> ptr \<Rightarrow> ptr option" where
  "avl_descend h c node =
     (if avl_child (h node) c \<noteq> NULL then avl_descend h c (avl_child (h node) c)
      else Some node)"

partial_function (option) avl_climb :: "avl_heap \<Rightarrow> bool \<Rightarrow> ptr \<Rightarrow> ptr option" where
  "avl_climb h right node =
     (let was_child = avl_child_index (h node); node = avl_parent (h node) in
      if node = NULL then Some NULL
      else if was_child = right then Some node
      else avl_climb h right node)"

definition avl_walk :: "avl_tree \<Rightarrow> avl_heap \<Rightarrow> ptr \<Rightarrow> bool \<Rightarrow> ptr option" where
  "avl_walk tree h oldnode left =
     (let off = avl_offset tree; node = AVL_DATA2NODE oldnode off; right = (\<not> left) in
      if node = NULL then Some NULL
      else if avl_child (h node) left \<noteq> NULL then
        map_option (\<lambda>n. AVL_NODE2DATA n off) (avl_descend h right (avl_child (h node) left))
      else map_option (\<lambda>n. if n = NULL then NULL else AVL_NODE2DATA n off)
             (avl_climb h right node))"

text \<open>The loop shared by \<^verbatim>\<open>avl_first\<close> and \<^verbatim>\<open>avl_last\<close>.\<close>

partial_function (option) avl_end_loop :: "avl_heap \<Rightarrow> bool \<Rightarrow> ptr \<Rightarrow> ptr \<Rightarrow> ptr option" where
  "avl_end_loop h c node prev =
     (if node \<noteq> NULL then avl_end_loop h c (avl_child (h node) c) node else Some prev)"

definition avl_first :: "avl_tree \<Rightarrow> avl_heap \<Rightarrow> ptr option" where
  "avl_first tree h =
     map_option (\<lambda>prev. if prev \<noteq> NULL then AVL_NODE2DATA prev (avl_offset tree) else NULL)
       (avl_end_loop h False (avl_root tree) NULL)"

definition avl_last :: "avl_tree \<Rightarrow> avl_heap \<Rightarrow> ptr option" where
  "avl_last tree h =
     map_option (\<lambda>prev. if prev \<noteq> NULL then AVL_NODE2DATA prev (avl_offset tree) else NULL)
       (avl_end_loop h True (avl_root tree) NULL)"

definition avl_nearest :: "avl_tree \<Rightarrow> avl_heap \<Rightarrow> avl_index \<Rightarrow> bool \<Rightarrow> ptr option" where
  "avl_nearest tree h where' direction =
     (let (node, child) = where' in
      if node = NULL then Some NULL
      else let data = AVL_NODE2DATA node (avl_offset tree) in
        if child \<noteq> direction then Some data
        else avl_walk tree h data direction)"

section \<open>Searching\<close>

text \<open>
  The loop of \<^verbatim>\<open>avl_find\<close>. The result is the data address and what \<^verbatim>\<open>*where\<close> is set to;
  a comparison outside -1..1 returns without writing \<^verbatim>\<open>*where\<close>.
\<close>

partial_function (option) avl_find_loop ::
  "('v \<Rightarrow> ptr \<Rightarrow> int) \<Rightarrow> nat \<Rightarrow> avl_heap \<Rightarrow> 'v \<Rightarrow> ptr \<Rightarrow> ptr \<Rightarrow> bool
     \<Rightarrow> (ptr \<times> avl_index option) option" where
  "avl_find_loop compar off h value node prev child =
     (if node = NULL then Some (NULL, Some (prev, child))
      else
        let diff = compar value (AVL_NODE2DATA node off) in
        if \<not> (-1 \<le> diff \<and> diff \<le> 1) then Some (NULL, None)
        else if diff = 0 then Some (AVL_NODE2DATA node off, Some (NULL, False))
        else
          avl_find_loop compar off h value
            (avl_child (h node) (avl_balance2child (1 + diff))) node
            (avl_balance2child (1 + diff)))"

definition avl_find ::
  "('v \<Rightarrow> ptr \<Rightarrow> int) \<Rightarrow> avl_tree \<Rightarrow> avl_heap \<Rightarrow> 'v \<Rightarrow> (ptr \<times> avl_index option) option" where
  "avl_find compar tree h value =
     avl_find_loop compar (avl_offset tree) h value (avl_root tree) NULL False"

section \<open>Rotation\<close>

text \<open>\<^verbatim>\<open>avl_rotation\<close>, both cases; the result is the header, the heap and whether the
  subtree became shorter. \<^verbatim>\<open>balance >> 1\<close> rounds down, like \<^verbatim>\<open>div 2\<close>.\<close>

definition avl_relink :: "avl_tree \<Rightarrow> avl_heap \<Rightarrow> ptr \<Rightarrow> bool \<Rightarrow> ptr \<Rightarrow> avl_tree \<times> avl_heap" where
  "avl_relink tree h parent which_child x =
     (if parent \<noteq> NULL then (tree, set_avl_child h parent which_child x)
      else (tree\<lparr>avl_root := x\<rparr>, h))"

text \<open>Case 1: \<open>child\<close> becomes the parent of \<open>node\<close>, \<open>cright\<close> moves to \<open>node\<close>.\<close>

definition avl_rotation_case1 ::
  "avl_heap \<Rightarrow> ptr \<Rightarrow> ptr \<Rightarrow> bool \<Rightarrow> ptr \<Rightarrow> bool \<Rightarrow> int \<Rightarrow> avl_heap" where
  "avl_rotation_case1 h node child left parent which_child child_bal =
     (let right = (\<not> left);
          cright = avl_child (h child) right;
          h = set_avl_child h node left cright;
          h = (if cright \<noteq> NULL
               then AVL_SETCHILD (AVL_SETPARENT h cright node) cright left else h);
          h = set_avl_child h child right node;
          h = AVL_SETBALANCE h node (- child_bal);
          h = AVL_SETCHILD h node right;
          h = AVL_SETPARENT h node child;
          h = AVL_SETBALANCE h child child_bal;
          h = AVL_SETCHILD h child which_child
      in AVL_SETPARENT h child parent)"

text \<open>Case 2: \<open>gchild\<close> becomes the parent of \<open>child\<close> and \<open>node\<close>.\<close>

definition avl_rotation_case2 ::
  "avl_heap \<Rightarrow> ptr \<Rightarrow> ptr \<Rightarrow> ptr \<Rightarrow> bool \<Rightarrow> ptr \<Rightarrow> bool \<Rightarrow> int \<Rightarrow> avl_heap" where
  "avl_rotation_case2 h node child gchild left parent which_child left_heavy =
     (let right = (\<not> left);
          right_heavy = - left_heavy;
          gleft = avl_child (h gchild) left;
          gright = avl_child (h gchild) right;
          h = set_avl_child h node left gright;
          h = (if gright \<noteq> NULL
               then AVL_SETCHILD (AVL_SETPARENT h gright node) gright left else h);
          h = set_avl_child h child right gleft;
          h = (if gleft \<noteq> NULL
               then AVL_SETCHILD (AVL_SETPARENT h gleft child) gleft right else h);
          balance = avl_balance (h gchild);
          h = set_avl_child h gchild left child;
          h = AVL_SETBALANCE h child (if balance = right_heavy then left_heavy else 0);
          h = AVL_SETPARENT h child gchild;
          h = AVL_SETCHILD h child left;
          h = set_avl_child h gchild right node;
          h = AVL_SETBALANCE h node (if balance = left_heavy then right_heavy else 0);
          h = AVL_SETPARENT h node gchild;
          h = AVL_SETCHILD h node right;
          h = AVL_SETBALANCE h gchild 0;
          h = AVL_SETPARENT h gchild parent
      in AVL_SETCHILD h gchild which_child)"

definition avl_rotation ::
  "avl_tree \<Rightarrow> avl_heap \<Rightarrow> ptr \<Rightarrow> int \<Rightarrow> (avl_tree \<times> avl_heap) \<times> bool" where
  "avl_rotation tree h node balance =
     (let left = (\<not> balance < 0);
          right = (\<not> left);
          left_heavy = balance div 2;
          right_heavy = - left_heavy;
          parent = avl_parent (h node);
          child = avl_child (h node) left;
          which_child = avl_child_index (h node);
          child_bal = avl_balance (h child)
      in if child_bal \<noteq> right_heavy then
           let child_bal = child_bal + right_heavy;
               h = avl_rotation_case1 h node child left parent which_child child_bal
           in (avl_relink tree h parent which_child child, child_bal = 0)
         else
           let gchild = avl_child (h child) right;
               h = avl_rotation_case2 h node child gchild left parent which_child left_heavy
           in (avl_relink tree h parent which_child gchild, True))"

section \<open>Insertion\<close>

text \<open>The loop of \<^verbatim>\<open>avl_insert\<close> that backs up the tree, with the final rotation.\<close>

partial_function (option) avl_insert_loop ::
  "avl_tree \<Rightarrow> avl_heap \<Rightarrow> ptr \<Rightarrow> bool \<Rightarrow> (avl_tree \<times> avl_heap) option" where
  "avl_insert_loop tree h parent which_child =
     (let node = parent in
      if node = NULL then Some (tree, h)
      else
        let old_balance = avl_balance (h node);
            new_balance = old_balance + avl_child2balance which_child in
        if new_balance = 0 then Some (tree, AVL_SETBALANCE h node 0)
        else if old_balance \<noteq> 0 then Some (fst (avl_rotation tree h node new_balance))
        else
          let h = AVL_SETBALANCE h node new_balance in
          avl_insert_loop tree h (avl_parent (h node)) (avl_child_index (h node)))"

definition avl_insert ::
  "avl_tree \<Rightarrow> avl_heap \<Rightarrow> ptr \<Rightarrow> avl_index \<Rightarrow> (avl_tree \<times> avl_heap) option" where
  "avl_insert tree h new_data where' =
     (let (parent, which_child) = where' in
      if new_data mod 8 \<noteq> 0 then Some (tree, h)
      else
        let node = AVL_DATA2NODE new_data (avl_offset tree);
            tree = tree\<lparr>avl_numnodes_fld := avl_numnodes_fld tree + 1\<rparr>;
            h = set_avl_child h node False NULL;
            h = set_avl_child h node True NULL;
            h = AVL_SETCHILD h node which_child;
            h = AVL_SETBALANCE h node 0;
            h = AVL_SETPARENT h node parent;
            (tree, h) = avl_relink tree h parent which_child node
        in avl_insert_loop tree h parent which_child)"

definition avl_insert_here ::
  "avl_tree \<Rightarrow> avl_heap \<Rightarrow> ptr \<Rightarrow> ptr \<Rightarrow> bool \<Rightarrow> (avl_tree \<times> avl_heap) option" where
  "avl_insert_here tree h new_data here direction =
     (if new_data = NULL \<or> here = NULL then Some (tree, h)
      else
        let node = AVL_DATA2NODE here (avl_offset tree); child = direction in
        if avl_child (h node) child \<noteq> NULL then
          Option.bind (avl_descend h (\<not> child) (avl_child (h node) child))
            (\<lambda>node. avl_insert tree h new_data (node, \<not> child))
        else avl_insert tree h new_data (node, child))"

text \<open>\<^verbatim>\<open>avl_add\<close> gives up when the node is already there. After a comparison error
  \<^verbatim>\<open>where\<close> is uninitialised; the model has no such run (\<open>None\<close>).\<close>

definition avl_add ::
  "(ptr \<Rightarrow> ptr \<Rightarrow> int) \<Rightarrow> avl_tree \<Rightarrow> avl_heap \<Rightarrow> ptr \<Rightarrow> (avl_tree \<times> avl_heap) option" where
  "avl_add compar tree h new_node =
     Option.bind (avl_find compar tree h new_node)
       (\<lambda>(found, where').
          if found \<noteq> NULL then Some (tree, h)
          else Option.bind where' (avl_insert tree h new_node))"

section \<open>Removal\<close>

text \<open>The loop of \<^verbatim>\<open>avl_remove\<close> that adjusts balances upwards; \<^verbatim>\<open>parent\<close> is not NULL.\<close>

partial_function (option) avl_remove_loop ::
  "avl_tree \<Rightarrow> avl_heap \<Rightarrow> ptr \<Rightarrow> bool \<Rightarrow> (avl_tree \<times> avl_heap) option" where
  "avl_remove_loop tree h parent which_child =
     (let node = parent;
          old_balance = avl_balance (h node);
          new_balance = old_balance - avl_child2balance which_child;
          parent = avl_parent (h node);
          which_child = avl_child_index (h node) in
      if old_balance = 0 then Some (tree, AVL_SETBALANCE h node new_balance)
      else if new_balance = 0 then
        (let h = AVL_SETBALANCE h node new_balance in
         if parent \<noteq> NULL then avl_remove_loop tree h parent which_child else Some (tree, h))
      else
        (case avl_rotation tree h node new_balance of
           ((tree, h), shorter) \<Rightarrow>
             if \<not> shorter then Some (tree, h)
             else if parent \<noteq> NULL then avl_remove_loop tree h parent which_child
             else Some (tree, h)))"

text \<open>
  The exchange at the start of \<^verbatim>\<open>avl_remove\<close>: a node with two children changes places with
  its neighbour \<open>node\<close> on the taller side. \<open>tmp\<close> is the address of the local variable
  \<^verbatim>\<open>avl_node_t tmp\<close>; the result is the header, the heap and the node to unlink.
\<close>

definition avl_remove_exchange ::
  "ptr \<Rightarrow> avl_tree \<Rightarrow> avl_heap \<Rightarrow> ptr \<Rightarrow> ptr \<Rightarrow> bool \<Rightarrow> avl_tree \<times> avl_heap" where
  "avl_remove_exchange tmp tree h delete node left =
     (let h = h(tmp := h node);
          h = h(node := h delete);
          h = (if avl_child (h node) left = node then set_avl_child h node left tmp else h);
          s = avl_relink tree h (avl_parent (h node)) (avl_child_index (h node)) node;
          tree = fst s;
          h = snd s;
          h = AVL_SETPARENT h (avl_child (h node) left) node;
          h = AVL_SETPARENT h (avl_child (h node) (\<not> left)) node;
          h = set_avl_child h (avl_parent (h tmp)) (avl_child_index (h tmp)) tmp;
          c = avl_child (h tmp) (avl_child (h tmp) True \<noteq> NULL);
          h = (if c \<noteq> NULL then AVL_SETPARENT h c tmp else h)
      in (tree, h))"

definition avl_remove_swap ::
  "ptr \<Rightarrow> avl_tree \<Rightarrow> avl_heap \<Rightarrow> ptr \<Rightarrow> (avl_tree \<times> avl_heap \<times> ptr) option" where
  "avl_remove_swap tmp tree h delete =
     (if avl_child (h delete) False \<noteq> NULL \<and> avl_child (h delete) True \<noteq> NULL then
        let left = avl_balance2child (avl_balance (h delete) + 1); right = (\<not> left) in
        map_option
          (\<lambda>node. let (tree, h) = avl_remove_exchange tmp tree h delete node left
                  in (tree, h, tmp))
          (avl_descend h right (avl_child (h delete) left))
      else Some (tree, h, delete))"

text \<open>The rest of \<^verbatim>\<open>avl_remove\<close>: \<open>delete\<close> has at most one child, which takes its place.\<close>

definition avl_unlink :: "avl_tree \<Rightarrow> avl_heap \<Rightarrow> ptr \<Rightarrow> (avl_tree \<times> avl_heap) option" where
  "avl_unlink tree h delete =
     (if avl_numnodes_fld tree = 0 then Some (tree, h)
      else
        let tree = tree\<lparr>avl_numnodes_fld := avl_numnodes_fld tree - 1\<rparr>;
            parent = avl_parent (h delete);
            which_child = avl_child_index (h delete);
            node = (if avl_child (h delete) False \<noteq> NULL then avl_child (h delete) False
                    else avl_child (h delete) True);
            h = (if node \<noteq> NULL
                 then AVL_SETCHILD (AVL_SETPARENT h node parent) node which_child else h)
        in if parent = NULL then Some (tree\<lparr>avl_root := node\<rparr>, h)
           else avl_remove_loop tree (set_avl_child h parent which_child node)
                  parent which_child)"

definition avl_remove ::
  "ptr \<Rightarrow> avl_tree \<Rightarrow> avl_heap \<Rightarrow> ptr \<Rightarrow> (avl_tree \<times> avl_heap) option" where
  "avl_remove tmp tree h data =
     Option.bind (avl_remove_swap tmp tree h (AVL_DATA2NODE data (avl_offset tree)))
       (\<lambda>(tree, h, delete). avl_unlink tree h delete)"

section \<open>Reinsertion, creation, queries\<close>

definition AVL_REINSERT ::
  "(ptr \<Rightarrow> ptr \<Rightarrow> int) \<Rightarrow> ptr \<Rightarrow> avl_tree \<Rightarrow> avl_heap \<Rightarrow> ptr \<Rightarrow> (avl_tree \<times> avl_heap) option" where
  "AVL_REINSERT compar tmp tree h obj =
     Option.bind (avl_remove tmp tree h obj) (\<lambda>(tree, h). avl_add compar tree h obj)"

definition avl_update_lt ::
  "(ptr \<Rightarrow> ptr \<Rightarrow> int) \<Rightarrow> ptr \<Rightarrow> avl_tree \<Rightarrow> avl_heap \<Rightarrow> ptr
     \<Rightarrow> ((avl_tree \<times> avl_heap) \<times> bool) option" where
  "avl_update_lt compar tmp t h obj =
     Option.bind (avl_walk t h obj True) (\<lambda>neighbor.
       if \<not> (neighbor = NULL \<or> compar obj neighbor \<le> 0) then Some ((t, h), False)
       else Option.bind (avl_walk t h obj False) (\<lambda>neighbor.
         if neighbor \<noteq> NULL \<and> compar obj neighbor < 0
         then map_option (\<lambda>s. (s, True)) (AVL_REINSERT compar tmp t h obj)
         else Some ((t, h), False)))"

definition avl_update_gt ::
  "(ptr \<Rightarrow> ptr \<Rightarrow> int) \<Rightarrow> ptr \<Rightarrow> avl_tree \<Rightarrow> avl_heap \<Rightarrow> ptr
     \<Rightarrow> ((avl_tree \<times> avl_heap) \<times> bool) option" where
  "avl_update_gt compar tmp t h obj =
     Option.bind (avl_walk t h obj False) (\<lambda>neighbor.
       if \<not> (neighbor = NULL \<or> compar obj neighbor \<ge> 0) then Some ((t, h), False)
       else Option.bind (avl_walk t h obj True) (\<lambda>neighbor.
         if neighbor \<noteq> NULL \<and> compar obj neighbor > 0
         then map_option (\<lambda>s. (s, True)) (AVL_REINSERT compar tmp t h obj)
         else Some ((t, h), False)))"

definition avl_update ::
  "(ptr \<Rightarrow> ptr \<Rightarrow> int) \<Rightarrow> ptr \<Rightarrow> avl_tree \<Rightarrow> avl_heap \<Rightarrow> ptr
     \<Rightarrow> ((avl_tree \<times> avl_heap) \<times> bool) option" where
  "avl_update compar tmp t h obj =
     Option.bind (avl_walk t h obj False) (\<lambda>neighbor.
       if neighbor \<noteq> NULL \<and> compar obj neighbor < 0
       then map_option (\<lambda>s. (s, True)) (AVL_REINSERT compar tmp t h obj)
       else Option.bind (avl_walk t h obj True) (\<lambda>neighbor.
         if neighbor \<noteq> NULL \<and> compar obj neighbor > 0
         then map_option (\<lambda>s. (s, True)) (AVL_REINSERT compar tmp t h obj)
         else Some ((t, h), False)))"

text \<open>\<^verbatim>\<open>avl_create\<close>; 24 is \<^verbatim>\<open>sizeof (avl_node_t)\<close> on a 64-bit machine.\<close>

definition avl_create :: "avl_tree \<Rightarrow> nat \<Rightarrow> nat \<Rightarrow> avl_tree" where
  "avl_create tree sz offset =
     (if sz = 0 \<or> sz < offset + 24 then tree
      else if offset mod 8 \<noteq> 0 then tree
      else tree\<lparr>avl_root := NULL, avl_numnodes_fld := 0, avl_size := sz, avl_offset := offset\<rparr>)"

definition avl_numnodes :: "avl_tree \<Rightarrow> nat" where
  "avl_numnodes tree = avl_numnodes_fld tree"

definition avl_is_empty :: "avl_tree \<Rightarrow> bool" where
  "avl_is_empty tree \<longleftrightarrow> avl_numnodes_fld tree = 0"

section \<open>Destroying a tree node by node\<close>

text \<open>
  \<^verbatim>\<open>avl_destroy_nodes\<close>: \<open>None\<close> as the cookie is the NULL cookie of the first call, \<open>Some (NULL,
  True)\<close> is \<^verbatim>\<open>CHILDBIT\<close>, and any other \<open>Some (parent, child)\<close> is the parent address with the
  child bit.
\<close>

type_synonym avl_cookie = "avl_index option"

partial_function (option) avl_destroy_leftmost :: "avl_heap \<Rightarrow> ptr \<Rightarrow> ptr \<Rightarrow> (ptr \<times> ptr) option" where
  "avl_destroy_leftmost h node parent =
     (if avl_child (h node) False \<noteq> NULL
      then avl_destroy_leftmost h (avl_child (h node) False) node
      else Some (node, parent))"

definition avl_destroy_done ::
  "avl_tree \<Rightarrow> avl_heap \<Rightarrow> ptr \<Rightarrow> ptr \<Rightarrow> (avl_tree \<times> avl_heap) \<times> avl_cookie \<times> ptr" where
  "avl_destroy_done tree h node parent =
     ((tree, h),
      (if parent = NULL then Some (NULL, True) else Some (parent, avl_child_index (h node))),
      AVL_NODE2DATA node (avl_offset tree))"

definition avl_destroy_check_right ::
  "avl_tree \<Rightarrow> avl_heap \<Rightarrow> ptr \<Rightarrow> ptr \<Rightarrow> (avl_tree \<times> avl_heap) \<times> avl_cookie \<times> ptr" where
  "avl_destroy_check_right tree h node parent =
     (if avl_child (h node) True \<noteq> NULL
      then avl_destroy_done tree h (avl_child (h node) True) node
      else avl_destroy_done tree h node parent)"

definition avl_destroy_nodes ::
  "avl_tree \<Rightarrow> avl_heap \<Rightarrow> avl_cookie
     \<Rightarrow> ((avl_tree \<times> avl_heap) \<times> avl_cookie \<times> ptr) option" where
  "avl_destroy_nodes tree h cookie =
     (case cookie of
        None \<Rightarrow>
          Option.bind (avl_first tree h) (\<lambda>first.
            if first = NULL then Some ((tree, h), Some (NULL, True), NULL)
            else
              let node = AVL_DATA2NODE first (avl_offset tree) in
              Some (avl_destroy_check_right tree h node (avl_parent (h node))))
      | Some (parent, child) \<Rightarrow>
          if parent = NULL then
            (if avl_root tree \<noteq> NULL
             then Some ((tree\<lparr>avl_root := NULL, avl_numnodes_fld := 0\<rparr>, h), cookie, NULL)
             else Some ((tree, h), cookie, NULL))
          else
            let h = set_avl_child h parent child NULL;
                tree = tree\<lparr>avl_numnodes_fld := avl_numnodes_fld tree - 1\<rparr> in
            if child \<or> avl_child (h parent) True = NULL
            then Some (avl_destroy_done tree h parent (avl_parent (h parent)))
            else Option.bind
                   (avl_destroy_leftmost h (avl_child (h parent) True) parent)
                   (\<lambda>(node, parent). Some (avl_destroy_check_right tree h node parent)))"

end
