(* ===== verification/FB_Avl_Tree.thy ===== *)
theory FB_Avl_Tree
  imports FB_Avl
begin

text \<open>
  Abstract AVL trees: binary trees of node addresses with the stored balance, the AVL
  invariant over them, and the zippers that the upward loops of insertion and removal
  walk. Nothing here mentions the heap.
\<close>

section \<open>Trees\<close>

datatype tree = Leaf | Node tree ptr int tree

fun rootp :: "tree \<Rightarrow> ptr" where
  "rootp Leaf = NULL"
| "rootp (Node l a b r) = a"

fun inorder :: "tree \<Rightarrow> ptr list" where
  "inorder Leaf = []"
| "inorder (Node l a b r) = inorder l @ a # inorder r"

fun height :: "tree \<Rightarrow> nat" where
  "height Leaf = 0"
| "height (Node l a b r) = Suc (max (height l) (height r))"

abbreviation nodes :: "tree \<Rightarrow> ptr set" where
  "nodes t \<equiv> set (inorder t)"

text \<open>The AVL invariant: the stored balance is the difference of the heights, and small.\<close>

fun avl :: "tree \<Rightarrow> bool" where
  "avl Leaf \<longleftrightarrow> True"
| "avl (Node l a b r) \<longleftrightarrow>
     b = int (height r) - int (height l) \<and> \<bar>b\<bar> \<le> 1 \<and> avl l \<and> avl r"

text \<open>Side-generic construction and selection, as the code swaps left and right.\<close>

definition mk :: "bool \<Rightarrow> ptr \<Rightarrow> int \<Rightarrow> tree \<Rightarrow> tree \<Rightarrow> tree" where
  "mk d a b s t = (if d then Node t a b s else Node s a b t)"

fun tkey :: "tree \<Rightarrow> ptr" where
  "tkey Leaf = NULL"
| "tkey (Node l a b r) = a"

fun tbal :: "tree \<Rightarrow> int" where
  "tbal Leaf = 0"
| "tbal (Node l a b r) = b"

fun tsub :: "bool \<Rightarrow> tree \<Rightarrow> tree" where
  "tsub d Leaf = Leaf"
| "tsub d (Node l a b r) = (if d then r else l)"

lemma mk_cases:
  assumes "t \<noteq> Leaf"
  obtains a b s u where "t = mk d a b s u"
  using assms by (cases t; cases d) (auto simp: mk_def)

lemma mk_simps [simp]:
  "mk d a b s t \<noteq> Leaf"
  "rootp (mk d a b s t) = a"
  "tkey (mk d a b s t) = a"
  "tbal (mk d a b s t) = b"
  "tsub d (mk d a b s t) = s"
  "tsub (\<not> d) (mk d a b s t) = t"
  "height (mk d a b s t) = Suc (max (height s) (height t))"
  "nodes (mk d a b s t) = insert a (nodes s \<union> nodes t)"
  by (auto simp: mk_def)

text \<open>Sign of the heavy side: \<^verbatim>\<open>left_heavy\<close> of the code for \<open>left = d\<close>.\<close>

definition heavy :: "bool \<Rightarrow> int" where
  "heavy d = (if d then 1 else -1)"

lemma avl_mk [simp]:
  "avl (mk d a b s t) \<longleftrightarrow>
     b = heavy d * (int (height s) - int (height t)) \<and> \<bar>b\<bar> \<le> 1 \<and> avl s \<and> avl t"
  by (auto simp: mk_def heavy_def)

lemma distinct_mk [simp]:
  "distinct (inorder (mk d a b s t)) \<longleftrightarrow>
     distinct (inorder s) \<and> distinct (inorder t) \<and> a \<notin> nodes s \<and> a \<notin> nodes t \<and>
     nodes s \<inter> nodes t = {}"
  by (auto simp: mk_def)

lemma length_inorder_mk [simp]:
  "length (inorder (mk d a b s t)) = Suc (length (inorder s) + length (inorder t))"
  by (auto simp: mk_def)

lemma heavy_simps [simp]: "heavy (\<not> d) = - heavy d" "\<bar>heavy d\<bar> = 1" "heavy d * heavy d = 1"
  "heavy d \<noteq> 0"
  by (auto simp: heavy_def)

section \<open>Rotation on trees\<close>

text \<open>Rebalancing the node \<open>a\<close> whose child \<open>C\<close> on side \<open>d\<close> is two levels taller than \<open>S\<close>.\<close>

definition rot :: "bool \<Rightarrow> ptr \<Rightarrow> tree \<Rightarrow> tree \<Rightarrow> tree \<times> bool" where
  "rot d a C S =
     (if tbal C \<noteq> - heavy d then
        let b = tbal C - heavy d in
        (mk d (tkey C) b (tsub d C) (mk d a (- b) (tsub (\<not> d) C) S), b = 0)
      else
        let G = tsub (\<not> d) C in
        (mk d (tkey G) 0
           (mk d (tkey C) (if tbal G = - heavy d then heavy d else 0) (tsub d C) (tsub d G))
           (mk d a (if tbal G = heavy d then - heavy d else 0) (tsub (\<not> d) G) S), True))"

lemma avl_height_cases:
  assumes "avl (mk d a b s t)"
  shows "b = heavy d \<and> height s = height t + 1 \<or> b = 0 \<and> height s = height t \<or>
         b = - heavy d \<and> height t = height s + 1"
  using assms by (auto simp: heavy_def split: if_splits)

lemma rot_single:
  assumes "avl C" "avl S" "height C = height S + 2" "tbal C \<noteq> - heavy d"
  shows "avl (fst (rot d a C S))"
    and "height (fst (rot d a C S)) = (if snd (rot d a C S) then height C else height C + 1)"
    and "snd (rot d a C S) \<longleftrightarrow> tbal C \<noteq> 0"
proof -
  obtain c b s u where C: "C = mk d c b s u"
    using assms(3) mk_cases[of C d] by fastforce
  have H: "b = heavy d \<and> height s = height u + 1 \<or> b = 0 \<and> height s = height u"
    using avl_height_cases[of d c b s u] assms(1,4) C by auto
  show "avl (fst (rot d a C S))"
    using assms H C by (auto simp: rot_def Let_def heavy_def split: if_splits)
  show "height (fst (rot d a C S)) = (if snd (rot d a C S) then height C else height C + 1)"
    using assms H C by (auto simp: rot_def Let_def)
  show "snd (rot d a C S) \<longleftrightarrow> tbal C \<noteq> 0"
    using H C by (auto simp: rot_def Let_def)
qed

lemma rot_double:
  assumes "avl C" "avl S" "height C = height S + 2" "tbal C = - heavy d"
  shows "avl (fst (rot d a C S))"
    and "height (fst (rot d a C S)) = height C"
    and "snd (rot d a C S)"
proof -
  obtain c b s G where C: "C = mk d c b s G"
    using assms(3) mk_cases[of C d] by fastforce
  have "b = - heavy d" "height G = height s + 1"
    using avl_height_cases[of d c b s G] assms(1,4) C by auto
  moreover obtain g gb u v where G: "G = mk d g gb u v"
    using \<open>height G = height s + 1\<close> mk_cases[of G d] by fastforce
  moreover have "gb = heavy d \<and> height u = height v + 1 \<or> gb = 0 \<and> height u = height v \<or>
      gb = - heavy d \<and> height v = height u + 1"
    using avl_height_cases[of d g gb u v] assms(1) C G by auto
  ultimately show "avl (fst (rot d a C S))" "height (fst (rot d a C S)) = height C"
      "snd (rot d a C S)"
    using assms(1-3) C by (auto simp: rot_def Let_def heavy_def split: if_splits)
qed

lemma avl_rot:
  assumes "avl C" "avl S" "height C = height S + 2"
  shows "avl (fst (rot d a C S))"
    and "height (fst (rot d a C S)) = (if snd (rot d a C S) then height C else height C + 1)"
  using rot_single[OF assms] rot_double[OF assms] by (cases "tbal C = - heavy d"; force)+

lemma rot_shorter:
  assumes "avl C" "avl S" "height C = height S + 2" "tbal C \<noteq> 0"
  shows "snd (rot d a C S)"
  using rot_single(3)[OF assms(1-3)] rot_double(3)[OF assms(1-3)] assms(4) by blast

text \<open>Rotation keeps the order of the nodes; only the grandchild of the double rotation
  must exist.\<close>

lemma inorder_rot:
  assumes "C \<noteq> Leaf" "tbal C = - heavy d \<Longrightarrow> tsub (\<not> d) C \<noteq> Leaf"
  shows "inorder (fst (rot d a C S)) = inorder (mk d a b C S)"
proof (cases "tbal C = - heavy d")
  case True
  then have "tsub (\<not> d) C \<noteq> Leaf" by (rule assms(2))
  with True assms(1) show ?thesis
    by (cases C; cases d; cases "tsub (\<not> d) C") (auto simp: rot_def mk_def Let_def)
next
  case False
  with assms(1) show ?thesis
    by (cases C; cases d) (auto simp: rot_def mk_def Let_def)
qed

lemma avl_grandchild:
  assumes "avl C" "tbal C = - heavy d" shows "tsub (\<not> d) C \<noteq> Leaf"
  using assms by (cases C; cases d) (auto simp: heavy_def)

section \<open>Zippers\<close>

text \<open>
  A path from a subtree up to the root: for each ancestor, which side the path came from,
  the ancestor, its stored balance, and its other subtree.
\<close>

type_synonym path = "(bool \<times> ptr \<times> int \<times> tree) list"

fun plug :: "path \<Rightarrow> tree \<Rightarrow> tree" where
  "plug [] t = t"
| "plug ((d, a, b, s) # p) t = plug p (mk d a b t s)"

fun before :: "path \<Rightarrow> ptr list" where
  "before [] = []"
| "before ((d, a, b, s) # p) = (if d then before p @ inorder s @ [a] else before p)"

fun after :: "path \<Rightarrow> ptr list" where
  "after [] = []"
| "after ((d, a, b, s) # p) = (if d then after p else a # inorder s @ after p)"

fun pnodes :: "path \<Rightarrow> ptr set" where
  "pnodes [] = {}"
| "pnodes ((d, a, b, s) # p) = insert a (nodes s \<union> pnodes p)"

lemma inorder_plug: "inorder (plug p t) = before p @ inorder t @ after p"
  by (induction p t rule: plug.induct) (auto simp: mk_def)

lemma before_append: "before (p @ q) = before q @ before p"
  by (induction p rule: before.induct) auto

lemma after_append: "after (p @ q) = after p @ after q"
  by (induction p rule: after.induct) auto

lemma plug_append [simp]: "plug (p @ q) t = plug q (plug p t)"
  by (induction p t rule: plug.induct) auto

lemma pnodes_eq: "pnodes p = set (before p) \<union> set (after p)"
  by (induction p rule: pnodes.induct) auto

lemma pnodes_append [simp]: "pnodes (p @ q) = pnodes p \<union> pnodes q"
  by (induction p rule: pnodes.induct) auto

lemma nodes_plug: "nodes (plug p t) = pnodes p \<union> nodes t"
  by (auto simp: inorder_plug pnodes_eq)

text \<open>The path is well balanced around a subtree of height \<open>n\<close>.\<close>

fun path_avl :: "path \<Rightarrow> nat \<Rightarrow> bool" where
  "path_avl [] n \<longleftrightarrow> True"
| "path_avl ((d, a, b, s) # p) n \<longleftrightarrow>
     b = heavy d * (int n - int (height s)) \<and> \<bar>b\<bar> \<le> 1 \<and> avl s \<and>
     path_avl p (Suc (max n (height s)))"

lemma avl_plug: "avl (plug p t) \<longleftrightarrow> avl t \<and> path_avl p (height t)"
  by (induction p t rule: plug.induct) auto

section \<open>Rebalancing after an insertion and after a removal\<close>

text \<open>The subtree at the focus grew by one level.\<close>

fun ins_up :: "path \<Rightarrow> tree \<Rightarrow> tree" where
  "ins_up [] t = t"
| "ins_up ((d, a, b, s) # p) t =
     (let nb = b + heavy d in
      if nb = 0 then plug p (mk d a 0 t s)
      else if b \<noteq> 0 then plug p (fst (rot d a t s))
      else ins_up p (mk d a nb t s))"

text \<open>The subtree at the focus lost one level.\<close>

fun del_up :: "path \<Rightarrow> tree \<Rightarrow> tree" where
  "del_up [] t = t"
| "del_up ((d, a, b, s) # p) t =
     (let nb = b - heavy d in
      if b = 0 then plug p (mk d a nb t s)
      else if nb = 0 then del_up p (mk d a 0 t s)
      else if snd (rot (\<not> d) a s t) then del_up p (fst (rot (\<not> d) a s t))
      else plug p (fst (rot (\<not> d) a s t)))"

lemma ins_up_avl:
  assumes "avl t" "path_avl p (height t - 1)" "height t > 0"
    and "tbal t \<noteq> 0 \<or> height t = 1"
  shows "avl (ins_up p t)"
  using assms
proof (induction p t rule: ins_up.induct)
  case (1 t)
  then show ?case by simp
next
  case (2 d a b s p t)
  let ?n = "height t - 1"
  from "2.prems" have b: "b = heavy d * (int ?n - int (height s))" "\<bar>b\<bar> \<le> 1" "avl s"
    and p: "path_avl p (Suc (max ?n (height s)))" by auto
  consider "b = - heavy d" "height s = height t" | "b = 0" "height s = ?n"
    | "b = heavy d" "?n = height s + 1"
    using b "2.prems"(3) by (auto simp: heavy_def split: if_splits) linarith+
  then show ?case
  proof cases
    case 1
    with "2.prems" b p show ?thesis by (simp add: avl_plug max_def)
  next
    case 2
    moreover have "max (height t) (height s) = height t" "Suc ?n = height t"
      using 2 "2.prems"(3) by auto
    ultimately show ?thesis
      using "2.IH"[of "heavy d"] "2.prems" b p by simp
  next
    case 3
    then have h: "height t = height s + 2" using "2.prems"(3) by simp
    then have tb: "tbal t \<noteq> 0" using "2.prems"(4) by simp
    have "avl (fst (rot d a t s))" "height (fst (rot d a t s)) = height t"
      using avl_rot[OF "2.prems"(1) b(3) h] rot_shorter[OF "2.prems"(1) b(3) h tb] by auto
    with 3 p h show ?thesis by (simp add: avl_plug max_def)
  qed
qed

lemma del_up_avl:
  assumes "avl t" "path_avl p (Suc (height t))"
  shows "avl (del_up p t)"
  using assms
proof (induction p t rule: del_up.induct)
  case (1 t)
  then show ?case by simp
next
  case (2 d a b s p t)
  from "2.prems" have b: "b = heavy d * (1 + int (height t) - int (height s))" "\<bar>b\<bar> \<le> 1" "avl s"
    and p: "path_avl p (Suc (max (Suc (height t)) (height s)))" by auto
  consider "b = 0" "height s = Suc (height t)" | "b = heavy d" "height s = height t"
    | "b = - heavy d" "height s = height t + 2"
    using b by (cases d) (simp_all add: heavy_def, linarith+)
  then show ?case
  proof cases
    case 1
    with "2.prems" b p show ?thesis by (simp add: avl_plug max_def heavy_def)
  next
    case 2
    with "2.IH"(1)[of 0] "2.prems" b p show ?thesis by (simp add: max_def)
  next
    case 3
    let ?r = "rot (\<not> d) a s t"
    have r: "avl (fst ?r)" "height (fst ?r) = (if snd ?r then height s else height s + 1)"
      using avl_rot[OF b(3) "2.prems"(1) 3(2)] by auto
    show ?thesis
    proof (cases "snd ?r")
      case True
      with "2.IH"(2)[of "b - heavy d"] 3 r p show ?thesis by (auto simp: max_def)
    next
      case False
      with 3 r p show ?thesis by (auto simp: avl_plug max_def)
    qed
  qed
qed

text \<open>Rotation needs the grandchild it lifts; this much is kept on the way up.\<close>

definition rot_ok :: "tree \<Rightarrow> bool" where
  "rot_ok t \<longleftrightarrow> t \<noteq> Leaf \<and> (\<forall>d. tbal t = - heavy d \<longrightarrow> tsub (\<not> d) t \<noteq> Leaf)"

lemma rot_ok_avl: "avl t \<Longrightarrow> t \<noteq> Leaf \<Longrightarrow> rot_ok t"
  using avl_grandchild by (auto simp: rot_ok_def)

lemma rot_ok_mk: "t \<noteq> Leaf \<Longrightarrow> rot_ok (mk d a (heavy d) t s)"
  by (auto simp: rot_ok_def mk_def heavy_def)

lemma inorder_rot_ok: "rot_ok t \<Longrightarrow> inorder (fst (rot d a t s)) = inorder (mk d a b t s)"
  by (rule inorder_rot) (auto simp: rot_ok_def)

lemma inorder_ins_up: "rot_ok t \<Longrightarrow> inorder (ins_up p t) = inorder (plug p t)"
proof (induction p t rule: ins_up.induct)
  case (1 t)
  then show ?case by simp
next
  case (2 d a b s p t)
  moreover have "rot_ok (mk d a (heavy d) t s)"
    using "2.prems" by (intro rot_ok_mk) (simp add: rot_ok_def)
  ultimately show ?case
    by (auto simp: Let_def inorder_plug inorder_rot_ok[where b = b] mk_def)
qed

text \<open>Every sibling on the path that a removal may rotate has the grandchild.\<close>

fun path_rot_ok :: "path \<Rightarrow> bool" where
  "path_rot_ok [] \<longleftrightarrow> True"
| "path_rot_ok ((d, a, b, s) # p) \<longleftrightarrow> (b \<noteq> 0 \<and> b \<noteq> heavy d \<longrightarrow> rot_ok s) \<and> path_rot_ok p"

lemma path_rot_ok_avl: "path_avl p n \<Longrightarrow> n > 0 \<Longrightarrow> path_rot_ok p"
proof (induction p n rule: path_avl.induct)
  case (2 d a b s p n)
  have "s \<noteq> Leaf" if "b \<noteq> 0" "b \<noteq> heavy d"
    using 2 that by (cases s) (auto simp: heavy_def split: if_splits)
  with 2 show ?case by (auto intro: rot_ok_avl)
qed simp

lemma inorder_del_up: "path_rot_ok p \<Longrightarrow> inorder (del_up p t) = inorder (plug p t)"
proof (induction p t rule: del_up.induct)
  case (1 t)
  then show ?case by simp
next
  case (2 d a b s p t)
  have m: "mk (\<not> d) a b s t = mk d a b t s" for b by (simp add: mk_def)
  have "inorder (fst (rot (\<not> d) a s t)) = inorder (mk d a b t s)" if "b \<noteq> 0" "b - heavy d \<noteq> 0"
    using 2 that inorder_rot_ok[of s "\<not> d" a t b] by (simp add: m)
  with 2 show ?case
    by (auto simp: Let_def inorder_plug mk_def)
qed

end
