(* ===== verification/FB_Avl_Heap.thy ===== *)
theory FB_Avl_Heap
  imports FB_Avl_Tree
begin

text \<open>
  The heap of the AVL code represents an abstract tree: the representation predicates, their
  frame lemmas, and the lemma for every pointer step of the code (relinking a subtree,
  rotating, the upward loops of insertion and removal).
\<close>

section \<open>Single-field writes\<close>

text \<open>Every write of the code changes one node. \<open>upd\<close> mentions the heap once, so a chain of
  writes stays linear under simplification.\<close>

definition upd :: "('p \<Rightarrow> 'n) \<Rightarrow> 'p \<Rightarrow> ('n \<Rightarrow> 'n) \<Rightarrow> 'p \<Rightarrow> 'n" where
  "upd h a f = h(a := f (h a))"

lemma upd_same [simp]: "upd h a f a = f (h a)"
  by (simp add: upd_def)

lemma upd_other [simp]: "a \<noteq> b \<Longrightarrow> upd h a f b = h b" "b \<noteq> a \<Longrightarrow> upd h a f b = h b"
  by (simp_all add: upd_def)

lemma upd_if:
  "(if b then upd (upd h a f) a g else h) = upd h a (\<lambda>n. if b then g (f n) else n)"
  by (auto simp: upd_def)

lemma upd_id [simp]: "upd h a (\<lambda>n. n) = h"
  by (simp add: upd_def)

lemma upd_commute: "a \<noteq> b \<Longrightarrow> upd (upd h a f) b g = upd (upd h b g) a f"
  by (auto simp: upd_def fun_upd_twist)

lemma upd_if1: "(if b then upd h a f else h) = upd h a (\<lambda>n. if b then f n else n)"
  by (auto simp: upd_def)

lemma agree_upd [simp]: "a \<notin> A \<Longrightarrow> agree A h (upd h' a f) \<longleftrightarrow> agree A h h'"
  by (auto simp: agree_def upd_def)

lemma avl_upd_defs:
  "AVL_SETPARENT h n p = upd h n (avl_parent_update (\<lambda>_. p))"
  "AVL_SETCHILD h n c = upd h n (avl_child_index_update (\<lambda>_. c))"
  "AVL_SETBALANCE h n b = upd h n (avl_balance_update (\<lambda>_. b))"
  "set_avl_child h n c x = upd h n (avl_child_update (\<lambda>f. f(c := x)))"
  by (simp_all add: avl_macro_defs upd_def, cases "h n", simp)

section \<open>Representation\<close>

fun trep :: "avl_heap \<Rightarrow> ptr \<Rightarrow> bool \<Rightarrow> tree \<Rightarrow> bool" where
  "trep h par c Leaf \<longleftrightarrow> True"
| "trep h par c (Node l a b r) \<longleftrightarrow>
     a \<noteq> NULL \<and> avl_child (h a) False = rootp l \<and> avl_child (h a) True = rootp r \<and>
     avl_parent (h a) = par \<and> avl_child_index (h a) = c \<and> avl_balance (h a) = b \<and>
     trep h a False l \<and> trep h a True r"

fun ppar :: "path \<Rightarrow> ptr" where
  "ppar [] = NULL"
| "ppar ((d, a, b, s) # p) = a"

fun pidx :: "bool \<Rightarrow> path \<Rightarrow> bool" where
  "pidx c0 [] = c0"
| "pidx c0 ((d, a, b, s) # p) = d"

fun crep :: "avl_heap \<Rightarrow> bool \<Rightarrow> ptr \<Rightarrow> path \<Rightarrow> bool" where
  "crep h c0 x [] \<longleftrightarrow> True"
| "crep h c0 x ((d, a, b, s) # p) \<longleftrightarrow>
     a \<noteq> NULL \<and> avl_child (h a) d = x \<and> avl_child (h a) (\<not> d) = rootp s \<and>
     avl_parent (h a) = ppar p \<and> avl_child_index (h a) = pidx c0 p \<and> avl_balance (h a) = b \<and>
     trep h a (\<not> d) s \<and> crep h c0 a p"

text \<open>The tree \<open>t\<close> sits at the end of the path \<open>p\<close> in the heap; \<open>c0\<close> is the child index
  stored in the root, which nothing reads.\<close>

definition focus :: "avl_tree \<Rightarrow> avl_heap \<Rightarrow> bool \<Rightarrow> path \<Rightarrow> tree \<Rightarrow> bool" where
  "focus tr h c0 p t \<longleftrightarrow>
     trep h (ppar p) (pidx c0 p) t \<and> crep h c0 (rootp t) p \<and>
     avl_root tr = rootp (plug p t) \<and> distinct (inorder (plug p t))"

section \<open>Basic facts\<close>

lemma trep_mk [simp]:
  "trep h par c (mk d a b s t) \<longleftrightarrow>
     a \<noteq> NULL \<and> avl_child (h a) d = rootp s \<and> avl_child (h a) (\<not> d) = rootp t \<and>
     avl_parent (h a) = par \<and> avl_child_index (h a) = c \<and> avl_balance (h a) = b \<and>
     trep h a d s \<and> trep h a (\<not> d) t"
  by (cases d) (auto simp: mk_def)

lemma rootp_in: "t \<noteq> Leaf \<Longrightarrow> rootp t \<in> nodes t"
  by (cases t) auto

lemma rootp_in_iff: "rootp t \<in> nodes t \<longleftrightarrow> t \<noteq> Leaf"
  if "0 \<notin> nodes t" using that by (cases t) auto

lemma rootp_notin: "0 \<notin> A \<Longrightarrow> A \<inter> nodes t = {} \<Longrightarrow> rootp t \<notin> A"
  by (cases t) auto

lemma trep_nonnull: "trep h par c t \<Longrightarrow> 0 \<notin> nodes t"
  by (induction h par c t rule: trep.induct) auto

lemma trep_rootp: "trep h par c t \<Longrightarrow> rootp t = NULL \<longleftrightarrow> t = Leaf"
  by (cases t) auto

lemma crep_nonnull: "crep h c0 x p \<Longrightarrow> 0 \<notin> pnodes p"
  by (induction h c0 x p rule: crep.induct) (auto dest: trep_nonnull)

lemma crep_ppar: "crep h c0 x p \<Longrightarrow> ppar p = NULL \<longleftrightarrow> p = []"
  by (induction h c0 x p rule: crep.induct) auto

lemma ppar_in: "p \<noteq> [] \<Longrightarrow> ppar p \<in> pnodes p"
  by (induction p rule: ppar.induct) auto

lemma trep_cong: "agree (nodes t) h h' \<Longrightarrow> trep h par c t \<longleftrightarrow> trep h' par c t"
  by (induction h par c t rule: trep.induct) auto

lemma crep_cong: "agree (pnodes p) h h' \<Longrightarrow> crep h c0 x p \<longleftrightarrow> crep h' c0 x p"
proof (induction h c0 x p rule: crep.induct)
  case (2 h c0 x d a b s p)
  then show ?case using trep_cong[of s h h'] by auto
qed simp

lemma trep_upd [simp]: "a \<notin> nodes t \<Longrightarrow> trep (upd h a f) par c t \<longleftrightarrow> trep h par c t"
  by (rule trep_cong[THEN sym]) simp

lemma crep_upd [simp]: "a \<notin> pnodes p \<Longrightarrow> crep (upd h a f) c0 x p \<longleftrightarrow> crep h c0 x p"
  by (rule crep_cong[THEN sym]) simp

lemma trep_reparent:
  assumes "trep h par c t" "distinct (inorder t)" "agree (nodes t - {rootp t}) h h'"
    and "t \<noteq> Leaf \<Longrightarrow> h' (rootp t) = (h (rootp t))\<lparr>avl_parent := par', avl_child_index := c'\<rparr>"
  shows "trep h' par' c' t"
proof (cases t)
  case (Node l a b r)
  then have "agree (nodes l) h h'" "agree (nodes r) h h'"
    using assms(2,3) by (auto simp: agree_def)
  with Node assms show ?thesis using trep_cong[of l h h'] trep_cong[of r h h'] by auto
qed simp

section \<open>Moving the focus\<close>

lemma focus_up: "focus tr h c0 ((d, a, b, s) # p) t \<longleftrightarrow> focus tr h c0 p (mk d a b t s)"
  by (auto simp: focus_def)

lemma focus_append: "focus tr h c0 (p @ q) t \<longleftrightarrow> focus tr h c0 q (plug p t)"
  by (induction p t rule: plug.induct) (auto simp: focus_up)

lemma focus_root: "focus tr h c0 p t \<longleftrightarrow> focus tr h c0 [] (plug p t)"
  using focus_append[of tr h c0 p "[]" t] by simp

lemma distinct_plug:
  "distinct (inorder (plug p t)) \<longleftrightarrow>
     distinct (inorder t) \<and> distinct (before p @ after p) \<and> pnodes p \<inter> nodes t = {}"
  by (auto simp: inorder_plug pnodes_eq)

lemma focusD:
  assumes "focus tr h c0 p t"
  shows "trep h (ppar p) (pidx c0 p) t" "crep h c0 (rootp t) p" "distinct (inorder t)"
    "pnodes p \<inter> nodes t = {}" "avl_root tr = rootp (plug p t)" "0 \<notin> nodes t" "0 \<notin> pnodes p"
  using assms by (auto simp: focus_def distinct_plug dest: trep_nonnull crep_nonnull)

lemma rootp_plug: "p \<noteq> [] \<Longrightarrow> rootp (plug p t) = rootp (plug p t')"
  by (induction p arbitrary: t t' rule: pnodes.induct) (auto, metis mk_simps(2) neq_Nil_conv plug.simps(1))

lemma crep_set_child:
  assumes "crep h c0 x p" "p \<noteq> []" "distinct (before p @ after p)"
  shows "crep (set_avl_child h (ppar p) (pidx c0 p) x') c0 x' p"
proof -
  obtain d a b s q where p: "p = (d, a, b, s) # q" using assms(2) by (cases p) auto
  have "a \<notin> nodes s" "a \<notin> pnodes q" using assms(3) by (auto simp: p pnodes_eq split: if_splits)
  then show ?thesis
    using assms(1) by (auto simp: p avl_upd_defs)
qed

text \<open>Linking a new subtree into the hole at the end of the path.\<close>

lemma focus_relink:
  assumes "focus tr h c0 p t" "agree (pnodes p) h h1"
    and "trep h1 (ppar p) (pidx c0 p) t'" "distinct (inorder (plug p t'))"
    and "avl_root tr' = avl_root tr"
    and "avl_relink tr' h1 (ppar p) (pidx c0 p) (rootp t') = (tr2, h2)"
  shows "focus tr2 h2 c0 p t'"
    and "tr2 = tr'\<lparr>avl_root := rootp (plug p t')\<rparr>"
    and "agree (- pnodes p) h1 h2"
proof -
  note F = focusD[OF assms(1)]
  have c1: "crep h1 c0 (rootp t) p" using F(2) crep_cong[OF assms(2)] by blast
  have d: "distinct (before p @ after p)" "pnodes p \<inter> nodes t' = {}"
    using assms(4) distinct_plug by blast+
  show "focus tr2 h2 c0 p t'" and "tr2 = tr'\<lparr>avl_root := rootp (plug p t')\<rparr>"
    and "agree (- pnodes p) h1 h2"
  proof (atomize (full), cases "p = []")
    case True
    with assms show "focus tr2 h2 c0 p t' \<and> tr2 = tr'\<lparr>avl_root := rootp (plug p t')\<rparr> \<and>
        agree (- pnodes p) h1 h2"
      by (auto simp: avl_relink_def focus_def)
  next
    case False
    then have pp: "ppar p \<noteq> NULL" "ppar p \<in> pnodes p" using crep_ppar[OF c1] ppar_in by auto
    then have h2: "h2 = set_avl_child h1 (ppar p) (pidx c0 p) (rootp t')" "tr2 = tr'"
      using assms(6) by (auto simp: avl_relink_def)
    have "ppar p \<notin> nodes t'" using pp d by auto
    then have "trep h2 (ppar p) (pidx c0 p) t'"
      using assms(3) by (simp add: h2 avl_upd_defs)
    moreover have "crep h2 c0 (rootp t') p"
      unfolding h2 using c1 False d(1) by (rule crep_set_child)
    ultimately show "focus tr2 h2 c0 p t' \<and> tr2 = tr'\<lparr>avl_root := rootp (plug p t')\<rparr> \<and>
        agree (- pnodes p) h1 h2"
      using assms(4,5) F(5) rootp_plug[OF False, of t t'] pp
      by (auto simp: focus_def h2 avl_upd_defs)
  qed
qed

section \<open>Rotation\<close>

lemma rotation_single_heap:
  assumes "a \<noteq> x" "avl_child (h x) (\<not> d) = r" "r \<notin> {a, x}"
    and h1: "h1 = avl_rotation_case1 h a x d par c nb"
  shows "h1 a = \<lparr>avl_child = (avl_child (h a))(d := r), avl_parent = x,
                 avl_child_index = (\<not> d), avl_balance = - nb, \<dots> = avl_node.more (h a)\<rparr>"
    and "h1 x = \<lparr>avl_child = (avl_child (h x))((\<not> d) := a), avl_parent = par,
                 avl_child_index = c, avl_balance = nb, \<dots> = avl_node.more (h x)\<rparr>"
    and "r \<noteq> NULL \<Longrightarrow> h1 r = (h r)\<lparr>avl_parent := a, avl_child_index := d\<rparr>"
    and "\<And>y. y \<notin> {a, x} \<Longrightarrow> y \<noteq> r \<or> r = NULL \<Longrightarrow> h1 y = h y"
  using assms(1,3) by (auto simp: h1 avl_rotation_case1_def Let_def avl_upd_defs upd_if assms(2))

lemma rotation_single_trep:
  assumes t: "trep h par c (mk d a b (mk d x xb CL CR) S)"
    and dist: "distinct (inorder (mk d a b (mk d x xb CL CR) S))"
    and h1: "h1 a = \<lparr>avl_child = (avl_child (h a))(d := rootp CR), avl_parent = x,
                 avl_child_index = (\<not> d), avl_balance = - nb, \<dots> = avl_node.more (h a)\<rparr>"
      "h1 x = \<lparr>avl_child = (avl_child (h x))((\<not> d) := a), avl_parent = par,
                 avl_child_index = c, avl_balance = nb, \<dots> = avl_node.more (h x)\<rparr>"
      "rootp CR \<noteq> NULL \<Longrightarrow>
         h1 (rootp CR) = (h (rootp CR))\<lparr>avl_parent := a, avl_child_index := d\<rparr>"
    and rest: "\<And>y. y \<notin> {a, x} \<Longrightarrow> y \<noteq> rootp CR \<or> rootp CR = NULL \<Longrightarrow> h1 y = h y"
  shows "trep h1 par c (mk d x nb CL (mk d a (- nb) CR S))"
    and "agree (- nodes (mk d a b (mk d x xb CL CR) S)) h h1"
proof -
  have tr: "trep h x (\<not> d) CR" and dr: "distinct (inorder CR)" using t dist by simp_all
  have frame: "agree A h h1" if "A \<inter> {a, x} = {}" "rootp CR \<notin> A \<or> rootp CR = NULL" for A
    using that rest unfolding agree_def by (metis disjoint_iff)
  have z: "0 \<notin> nodes CL" "0 \<notin> nodes CR" "0 \<notin> nodes S"
    using trep_nonnull[OF t] by auto
  have disj: "nodes CL \<inter> nodes CR = {}" "nodes S \<inter> nodes CR = {}" using dist by auto
  have out: "rootp CR \<notin> nodes CL" "rootp CR \<notin> nodes S"
    using z disj by (simp_all add: rootp_notin)
  have "trep h1 a d CR"
  proof (rule trep_reparent[OF tr dr])
    show "agree (nodes CR - {rootp CR}) h h1"
      using dist by (intro frame) simp_all
  qed (use h1(3) trep_rootp[OF tr] in simp)
  moreover have "agree (nodes CL) h h1" "agree (nodes S) h h1"
    using dist out by (auto intro!: frame)
  then have "trep h1 x d CL" "trep h1 a (\<not> d) S"
    using t trep_cong[of CL h h1 x d] trep_cong[of S h h1 a "\<not> d"] by simp_all
  ultimately show "trep h1 par c (mk d x nb CL (mk d a (- nb) CR S))"
    using t dist by (simp add: h1)
  show "agree (- nodes (mk d a b (mk d x xb CL CR) S)) h h1"
    using rootp_in[of CR] by (intro frame; cases "CR = Leaf") simp_all
qed

lemma rotation_double_heap:
  assumes "a \<noteq> x" "a \<noteq> g" "x \<noteq> g" "l \<notin> {a, x, g}" "r \<notin> {a, x, g}" "l \<noteq> r \<or> l = NULL"
    and fields: "avl_child (h g) d = l" "avl_child (h g) (\<not> d) = r" "avl_balance (h g) = gb"
    and b: "b1 = (if gb = - lh then lh else 0)" "b2 = (if gb = lh then - lh else 0)"
    and h1: "h1 = avl_rotation_case2 h a x g d par c lh"
  shows "h1 a = \<lparr>avl_child = (avl_child (h a))(d := r), avl_parent = g,
                 avl_child_index = (\<not> d), avl_balance = b2, \<dots> = avl_node.more (h a)\<rparr>"
    and "h1 x = \<lparr>avl_child = (avl_child (h x))((\<not> d) := l), avl_parent = g,
                 avl_child_index = d, avl_balance = b1, \<dots> = avl_node.more (h x)\<rparr>"
    and "h1 g = \<lparr>avl_child = (avl_child (h g))(d := x, (\<not> d) := a), avl_parent = par,
                 avl_child_index = c, avl_balance = 0, \<dots> = avl_node.more (h g)\<rparr>"
    and "l \<noteq> NULL \<Longrightarrow> h1 l = (h l)\<lparr>avl_parent := x, avl_child_index := (\<not> d)\<rparr>"
    and "r \<noteq> NULL \<Longrightarrow> h1 r = (h r)\<lparr>avl_parent := a, avl_child_index := d\<rparr>"
    and "\<And>y. y \<notin> {a, x, g} \<Longrightarrow> y \<noteq> l \<or> l = NULL \<Longrightarrow> y \<noteq> r \<or> r = NULL \<Longrightarrow> h1 y = h y"
proof -
  have ne: "a \<noteq> x" "a \<noteq> g" "x \<noteq> a" "x \<noteq> g" "g \<noteq> a" "g \<noteq> x" "l \<noteq> a" "l \<noteq> x" "l \<noteq> g"
    "a \<noteq> l" "x \<noteq> l" "g \<noteq> l" "r \<noteq> a" "r \<noteq> x" "r \<noteq> g" "a \<noteq> r" "x \<noteq> r" "g \<noteq> r"
    using assms(1-5) by auto
  note step = h1 avl_rotation_case2_def Let_def avl_upd_defs fields upd_if b[symmetric]
  show "h1 a = \<lparr>avl_child = (avl_child (h a))(d := r), avl_parent = g,
                 avl_child_index = (\<not> d), avl_balance = b2, \<dots> = avl_node.more (h a)\<rparr>"
    by (simp add: step ne)
  show "h1 x = \<lparr>avl_child = (avl_child (h x))((\<not> d) := l), avl_parent = g,
                 avl_child_index = d, avl_balance = b1, \<dots> = avl_node.more (h x)\<rparr>"
    by (simp add: step ne)
  show "h1 g = \<lparr>avl_child = (avl_child (h g))(d := x, (\<not> d) := a), avl_parent = par,
                 avl_child_index = c, avl_balance = 0, \<dots> = avl_node.more (h g)\<rparr>"
    by (simp add: step ne)
  show "h1 l = (h l)\<lparr>avl_parent := x, avl_child_index := (\<not> d)\<rparr>" if "l \<noteq> NULL"
    using that assms(6) by (auto simp: step ne)
  show "h1 r = (h r)\<lparr>avl_parent := a, avl_child_index := d\<rparr>" if "r \<noteq> NULL"
    using that assms(6) by (auto simp: step ne)
  show "h1 y = h y" if "y \<notin> {a, x, g}" "y \<noteq> l \<or> l = NULL" "y \<noteq> r \<or> r = NULL" for y
  proof -
    have "y \<noteq> a" "y \<noteq> x" "y \<noteq> g" "a \<noteq> y" "x \<noteq> y" "g \<noteq> y" using that(1) by auto
    then show ?thesis using that(2,3) by (auto simp: step ne)
  qed
qed

lemma rotation_double_trep:
  assumes t: "trep h par c (mk d a b (mk d x xb CL (mk d g gb GL GR)) S)"
    and dist: "distinct (inorder (mk d a b (mk d x xb CL (mk d g gb GL GR)) S))"
    and h1: "h1 a = \<lparr>avl_child = (avl_child (h a))(d := rootp GR), avl_parent = g,
                 avl_child_index = (\<not> d), avl_balance = b2, \<dots> = avl_node.more (h a)\<rparr>"
      "h1 x = \<lparr>avl_child = (avl_child (h x))((\<not> d) := rootp GL), avl_parent = g,
                 avl_child_index = d, avl_balance = b1, \<dots> = avl_node.more (h x)\<rparr>"
      "h1 g = \<lparr>avl_child = (avl_child (h g))(d := x, (\<not> d) := a), avl_parent = par,
                 avl_child_index = c, avl_balance = 0, \<dots> = avl_node.more (h g)\<rparr>"
      "rootp GL \<noteq> NULL \<Longrightarrow>
         h1 (rootp GL) = (h (rootp GL))\<lparr>avl_parent := x, avl_child_index := (\<not> d)\<rparr>"
      "rootp GR \<noteq> NULL \<Longrightarrow>
         h1 (rootp GR) = (h (rootp GR))\<lparr>avl_parent := a, avl_child_index := d\<rparr>"
    and rest: "\<And>y. y \<notin> {a, x, g} \<Longrightarrow> y \<noteq> rootp GL \<or> rootp GL = NULL \<Longrightarrow>
      y \<noteq> rootp GR \<or> rootp GR = NULL \<Longrightarrow> h1 y = h y"
  shows "trep h1 par c (mk d g 0 (mk d x b1 CL GL) (mk d a b2 GR S))"
    and "agree (- nodes (mk d a b (mk d x xb CL (mk d g gb GL GR)) S)) h h1"
proof -
  have tl: "trep h g d GL" and tr: "trep h g (\<not> d) GR" and dl: "distinct (inorder GL)"
    and dr: "distinct (inorder GR)" using t dist by simp_all
  have frame: "agree A h h1" if "A \<inter> {a, x, g} = {}" "rootp GL \<notin> A \<or> rootp GL = NULL"
    "rootp GR \<notin> A \<or> rootp GR = NULL" for A
    using that rest unfolding agree_def by (metis disjoint_iff)
  have z: "0 \<notin> nodes CL" "0 \<notin> nodes GL" "0 \<notin> nodes GR" "0 \<notin> nodes S"
    using trep_nonnull[OF t] by auto
  have disj: "nodes CL \<inter> nodes GL = {}" "nodes CL \<inter> nodes GR = {}" "nodes S \<inter> nodes GL = {}"
    "nodes S \<inter> nodes GR = {}" "nodes GL \<inter> nodes GR = {}" "nodes GR \<inter> nodes GL = {}"
    using dist by auto
  have out: "rootp GL \<notin> nodes CL" "rootp GL \<notin> nodes GR" "rootp GL \<notin> nodes S"
    "rootp GR \<notin> nodes CL" "rootp GR \<notin> nodes GL" "rootp GR \<notin> nodes S"
    using z disj by (simp_all add: rootp_notin)
  have "trep h1 x (\<not> d) GL"
  proof (rule trep_reparent[OF tl dl])
    show "agree (nodes GL - {rootp GL}) h h1"
      using dist out by (intro frame) simp_all
  qed (use h1(4) trep_rootp[OF tl] in simp)
  moreover have "trep h1 a d GR"
  proof (rule trep_reparent[OF tr dr])
    show "agree (nodes GR - {rootp GR}) h h1"
      using dist out by (intro frame) simp_all
  qed (use h1(5) trep_rootp[OF tr] in simp)
  moreover have "agree (nodes CL) h h1" "agree (nodes S) h h1"
    using dist out by (auto intro!: frame)
  then have "trep h1 x d CL" "trep h1 a (\<not> d) S"
    using t trep_cong[of CL h h1 x d] trep_cong[of S h h1 a "\<not> d"] by simp_all
  ultimately show "trep h1 par c (mk d g 0 (mk d x b1 CL GL) (mk d a b2 GR S))"
    using t dist by (simp add: h1)
  show "agree (- nodes (mk d a b (mk d x xb CL (mk d g gb GL GR)) S)) h h1"
    using rootp_in[of GL] rootp_in[of GR]
    by (intro frame; cases "GL = Leaf"; cases "GR = Leaf") simp_all
qed

lemma heavy_sides [simp]:
  "heavy d < 0 \<longleftrightarrow> \<not> d" "2 * heavy d div 2 = heavy d" "avl_child2balance d = heavy d"
  by (simp_all add: heavy_def avl_child2balance_def)

text \<open>A change of the heap that replaces the tree \<open>t\<close> at the end of the path by \<open>t'\<close>, touches
  no other node, and changes no field of the header but the root.\<close>

definition rebalanced ::
  "avl_tree \<Rightarrow> avl_heap \<Rightarrow> bool \<Rightarrow> path \<Rightarrow> tree \<Rightarrow> tree \<Rightarrow> avl_tree \<Rightarrow> avl_heap \<Rightarrow> bool" where
  "rebalanced tr h c0 p t t' tr' h' \<longleftrightarrow>
     focus tr' h' c0 p t' \<and> tr' = tr\<lparr>avl_root := rootp (plug p t')\<rparr> \<and>
     agree (- nodes (plug p t)) h h'"

lemma rebalancedD: "rebalanced tr h c0 p t t' tr' h' \<Longrightarrow> focus tr' h' c0 p t'"
  unfolding rebalanced_def by blast

lemma rebalanced_relink:
  assumes "focus tr h c0 p t" "inorder t' = inorder t" "agree (- nodes t) h h1"
    and "trep h1 (ppar p) (pidx c0 p) t'"
    and "avl_relink tr h1 (ppar p) (pidx c0 p) (rootp t') = (tr', h')"
  shows "rebalanced tr h c0 p t t' tr' h'"
proof -
  have "distinct (inorder (plug p t'))"
    using assms(1,2) by (simp add: focus_def inorder_plug)
  moreover have "agree (pnodes p) h h1"
    using assms(3) focusD(4)[OF assms(1)] by (auto elim: agree_mono)
  ultimately have "focus tr' h' c0 p t'" "tr' = tr\<lparr>avl_root := rootp (plug p t')\<rparr>"
    "agree (- pnodes p) h1 h'"
    using focus_relink[OF assms(1) _ assms(4) _ _ assms(5)] by auto
  then show ?thesis
    using assms(3) unfolding rebalanced_def
    by (auto simp: nodes_plug agree_def)
qed

lemma avl_rotation_single:
  assumes F: "focus tr h c0 p (mk d a b (mk d x xb CL CR) S)" and xb: "xb \<noteq> - heavy d"
    and C: "rot_ok (mk d x xb CL CR)"
    and R: "avl_rotation tr h a (2 * heavy d) = ((tr', h'), sh)"
  shows "rebalanced tr h c0 p (mk d a b (mk d x xb CL CR) S)
           (fst (rot d a (mk d x xb CL CR) S)) tr' h'"
    and "sh = snd (rot d a (mk d x xb CL CR) S)"
proof -
  note T = focusD(1)[OF F] and I = focusD(3)[OF F] and io = inorder_rot_ok[OF C]
  have h: "avl_parent (h a) = ppar p" "avl_child (h a) d = x" "avl_child_index (h a) = pidx c0 p"
    "avl_balance (h x) = xb" "avl_child (h x) (\<not> d) = rootp CR" and n: "a \<noteq> x"
    using T I by simp_all
  have out: "rootp CR \<notin> {a, x}"
    by (rule rootp_notin; use T I in simp)
  have r: "rot d a (mk d x xb CL CR) S =
      (mk d x (xb - heavy d) CL (mk d a (- (xb - heavy d)) CR S), xb - heavy d = 0)"
    using xb by (simp add: rot_def Let_def)
  note H = rotation_single_heap[where h = h and d = d and nb = "xb - heavy d"
      and c = "pidx c0 p" and par = "ppar p", OF n h(5) out refl]
  have S: "trep (avl_rotation_case1 h a x d (ppar p) (pidx c0 p) (xb - heavy d)) (ppar p)
        (pidx c0 p) (fst (rot d a (mk d x xb CL CR) S))"
      "agree (- nodes (mk d a b (mk d x xb CL CR) S)) h
         (avl_rotation_case1 h a x d (ppar p) (pidx c0 p) (xb - heavy d))"
    unfolding r fst_conv by (rule rotation_single_trep[OF T I H]; assumption)+
  show "rebalanced tr h c0 p (mk d a b (mk d x xb CL CR) S)
           (fst (rot d a (mk d x xb CL CR) S)) tr' h'"
    and "sh = snd (rot d a (mk d x xb CL CR) S)"
    using R xb rebalanced_relink[OF F io S(2,1)] by (simp_all add: avl_rotation_def Let_def h r)
qed

lemma avl_rotation_double:
  assumes F: "focus tr h c0 p (mk d a b (mk d x (- heavy d) CL (mk d g gb GL GR)) S)"
    and C: "rot_ok (mk d x (- heavy d) CL (mk d g gb GL GR))"
    and R: "avl_rotation tr h a (2 * heavy d) = ((tr', h'), sh)"
  shows "rebalanced tr h c0 p (mk d a b (mk d x (- heavy d) CL (mk d g gb GL GR)) S)
           (fst (rot d a (mk d x (- heavy d) CL (mk d g gb GL GR)) S)) tr' h'"
    and "sh = snd (rot d a (mk d x (- heavy d) CL (mk d g gb GL GR)) S)"
proof -
  let ?C = "mk d x (- heavy d) CL (mk d g gb GL GR)"
  let ?b1 = "if gb = - heavy d then heavy d else 0"
  let ?b2 = "if gb = heavy d then - heavy d else 0"
  note T = focusD(1)[OF F] and I = focusD(3)[OF F] and io = inorder_rot_ok[OF C]
  have h: "avl_parent (h a) = ppar p" "avl_child (h a) d = x" "avl_child_index (h a) = pidx c0 p"
    "avl_balance (h x) = - heavy d" "avl_child (h x) (\<not> d) = g" "avl_child (h g) d = rootp GL"
    "avl_child (h g) (\<not> d) = rootp GR" "avl_balance (h g) = gb"
    and n: "a \<noteq> x" "a \<noteq> g" "x \<noteq> g"
    using T I by simp_all
  have out: "rootp GL \<notin> {a, x, g}" "rootp GR \<notin> {a, x, g}"
    by (rule rootp_notin; use T I in simp)+
  have "rootp GL \<notin> nodes GR"
    by (rule rootp_notin; use T I trep_nonnull[of h g "\<not> d" GR] in \<open>simp add: Int_commute\<close>)
  then have lr: "rootp GL \<noteq> rootp GR \<or> rootp GL = NULL"
    by (cases GR) auto
  have r: "rot d a ?C S = (mk d g 0 (mk d x ?b1 CL GL) (mk d a ?b2 GR S), True)"
    by (simp add: rot_def Let_def)
  note H = rotation_double_heap[where h = h and d = d and lh = "heavy d" and c = "pidx c0 p"
      and par = "ppar p", OF n out lr h(6-8) refl refl refl]
  have S: "trep (avl_rotation_case2 h a x g d (ppar p) (pidx c0 p) (heavy d)) (ppar p)
        (pidx c0 p) (fst (rot d a ?C S))"
      "agree (- nodes (mk d a b ?C S)) h
         (avl_rotation_case2 h a x g d (ppar p) (pidx c0 p) (heavy d))"
    unfolding r fst_conv by (rule rotation_double_trep[OF T I H]; assumption)+
  show "rebalanced tr h c0 p (mk d a b ?C S) (fst (rot d a ?C S)) tr' h'"
    and "sh = snd (rot d a ?C S)"
    using R rebalanced_relink[OF F io S(2,1)] by (simp_all add: avl_rotation_def Let_def h r)
qed

lemma avl_rotation_refines:
  assumes F: "focus tr h c0 p (mk d a b C S)" and C: "rot_ok C"
    and R: "avl_rotation tr h a (2 * heavy d) = ((tr', h'), sh)"
  shows "rebalanced tr h c0 p (mk d a b C S) (fst (rot d a C S)) tr' h' \<and> sh = snd (rot d a C S)"
proof -
  obtain x xb CL CR where Ceq: "C = mk d x xb CL CR"
    using C mk_cases[of C d] unfolding rot_ok_def by metis
  show ?thesis
  proof (cases "xb = - heavy d")
    case True
    then obtain g gb GL GR where "CR = mk d g gb GL GR"
      using C mk_cases[of CR d] unfolding rot_ok_def Ceq by (metis mk_simps(4,6))
    with True avl_rotation_double[of tr h c0 p d a b x CL] F C R show ?thesis
      unfolding Ceq by blast
  qed (use avl_rotation_single[of tr h c0 p d a b x xb CL CR] F C R Ceq in blast)
qed

section \<open>The upward loops\<close>

lemma rebalanced_root:
  "rebalanced tr h c0 p t t' tr' h' \<longleftrightarrow> rebalanced tr h c0 [] (plug p t) (plug p t') tr' h'"
  using focus_root[of tr' h' c0 p t'] by (simp add: rebalanced_def)

lemma rebalanced_refl: "focus tr h c0 p t \<Longrightarrow> rebalanced tr h c0 p t t tr h"
  by (simp add: rebalanced_def focus_def)

lemma rebalanced_trans:
  assumes "rebalanced tr h c0 [] t t' tr' h'" "rebalanced tr' h' c0 [] t' t'' tr'' h''"
    and "nodes t' = nodes t"
  shows "rebalanced tr h c0 [] t t'' tr'' h''"
  using assms by (auto simp: rebalanced_def intro: agree_trans)

lemma rebalanced_setbalance:
  assumes "focus tr h c0 p (mk d a b t s)"
  shows "rebalanced tr h c0 p (mk d a b t s) (mk d a nb t s) tr (AVL_SETBALANCE h a nb)"
proof -
  have "rootp (plug p (mk d a b t s)) = rootp (plug p (mk d a nb t s))"
    by (cases "p = []") (auto intro: rootp_plug)
  with assms show ?thesis
    by (auto simp: rebalanced_def focus_def distinct_plug nodes_plug avl_upd_defs)
qed

definition path_bal :: "path \<Rightarrow> bool" where
  "path_bal p \<longleftrightarrow> (\<forall>(d, a, b, s) \<in> set p. \<bar>b\<bar> \<le> 1)"

lemma path_bal_simps [simp]:
  "path_bal []" "path_bal ((d, a, b, s) # p) \<longleftrightarrow> \<bar>b\<bar> \<le> 1 \<and> path_bal p"
  by (simp_all add: path_bal_def)

lemma path_bal_avl: "path_avl p n \<Longrightarrow> path_bal p"
  by (induction p n rule: path_avl.induct) auto

lemma bal_cases:
  assumes "\<bar>b\<bar> \<le> 1" obtains "b = 0" | "b = heavy d" | "b = - heavy d"
  using assms by (cases d) (force simp: heavy_def)+

lemma avl_insert_loop_refines:
  assumes "focus tr h c0 p t" "rot_ok t" "path_bal p"
  shows "\<exists>tr' h'. avl_insert_loop tr h (ppar p) (pidx c0 p) = Some (tr', h') \<and>
           rebalanced tr h c0 [] (plug p t) (ins_up p t) tr' h'"
  using assms
proof (induction p t arbitrary: tr h rule: ins_up.induct)
  case (1 t)
  then show ?case using rebalanced_refl by (simp add: avl_insert_loop.simps)
next
  case (2 d a b s p t)
  note F = "2.prems"(1)[unfolded focus_up] and D = focusD(1)[OF F]
  let ?h = "\<lambda>nb. AVL_SETBALANCE h a nb"
  note B = rebalanced_setbalance[OF F]
  have a: "a \<noteq> NULL" "avl_balance (h a) = b" using D by simp_all
  have "\<bar>b\<bar> \<le> 1" using "2.prems"(3) by simp
  then consider (even) "b = 0" | (heavy) "b = heavy d" | (light) "b = - heavy d"
    by (rule bal_cases)
  then show ?case
  proof cases
    case even
    have F': "focus tr (?h (heavy d)) c0 p (mk d a (heavy d) t s)"
      using B by (simp add: rebalanced_def)
    have ok: "rot_ok (mk d a (heavy d) t s)"
      using "2.prems"(2) by (intro rot_ok_mk) (simp add: rot_ok_def)
    obtain tr' h' where L: "avl_insert_loop tr (?h (heavy d)) (ppar p) (pidx c0 p) = Some (tr', h')"
      and R: "rebalanced tr (?h (heavy d)) c0 [] (plug p (mk d a (heavy d) t s))
                (ins_up p (mk d a (heavy d) t s)) tr' h'"
      using "2.IH"[OF refl _ _, of tr "?h (heavy d)"] F' ok "2.prems"(3) even by auto
    show ?thesis
      using L rebalanced_trans[OF B[unfolded rebalanced_root[of _ _ _ p]] R] D a even
      by (simp add: avl_insert_loop.simps[of tr h] avl_upd_defs nodes_plug)
  next
    case heavy
    obtain tr' h' sh where R: "avl_rotation tr h a (2 * heavy d) = ((tr', h'), sh)"
      by (metis prod.exhaust)
    show ?thesis
      using avl_rotation_refines[OF F "2.prems"(2) R] a heavy R rebalanced_root[of tr h c0 p]
      by (simp add: avl_insert_loop.simps[of tr h])
  next
    case light
    then show ?thesis
      using B[of 0, unfolded rebalanced_root[of _ _ _ p]] a
      by (simp add: avl_insert_loop.simps[of tr h])
  qed
qed

end
