(* ===== verification/FB_Avl_Ops.thy ===== *)
theory FB_Avl_Ops
  imports FB_Avl_Heap
begin

text \<open>
  The AVL operations on a heap that represents a balanced tree: insertion and removal keep the
  representation and the balance and change the in-order sequence as they should, searching
  finds the element or the place for it, and walking is the successor or the predecessor.
\<close>

section \<open>Removal: the upward loop\<close>

lemma avl_remove_loop_light:
  assumes F: "focus tr h c0 p (mk d a (- heavy d) t s)" and ok: "rot_ok s"
  obtains tr1 h1 where
    "rebalanced tr h c0 p (mk d a (- heavy d) t s) (fst (rot (\<not> d) a s t)) tr1 h1"
    "avl_remove_loop tr h a d =
       (if \<not> snd (rot (\<not> d) a s t) \<or> p = [] then Some (tr1, h1)
        else avl_remove_loop tr1 h1 (ppar p) (pidx c0 p))"
proof -
  have swap: "mk d a b t s = mk (\<not> d) a b s t" for b by (simp add: mk_def)
  obtain tr1 h1 sh where R: "avl_rotation tr h a (2 * heavy (\<not> d)) = ((tr1, h1), sh)"
    by (metis prod.exhaust)
  have "avl_remove_loop tr h a d =
      (if \<not> sh \<or> p = [] then Some (tr1, h1) else avl_remove_loop tr1 h1 (ppar p) (pidx c0 p))"
    using R focusD(1)[OF F] focusD(2)[OF F, THEN crep_ppar]
    by (auto simp: avl_remove_loop.simps[of tr h] Let_def)
  then show thesis
    using avl_rotation_refines[OF F[unfolded swap] ok R] that[of tr1 h1] by (simp add: swap)
qed

lemma avl_remove_loop_refines:
  assumes "focus tr h c0 p t" "path_bal p" "path_rot_ok p" "p \<noteq> []"
  shows "\<exists>tr' h'. avl_remove_loop tr h (ppar p) (pidx c0 p) = Some (tr', h') \<and>
           rebalanced tr h c0 [] (plug p t) (del_up p t) tr' h'"
  using assms
proof (induction p t arbitrary: tr h rule: del_up.induct)
  case (1 t)
  then show ?case by simp
next
  case (2 d a b s p t)
  note F = "2.prems"(1)[unfolded focus_up]
  note D = focusD(1)[OF F] focusD(2)[OF F, THEN crep_ppar] and B = rebalanced_setbalance[OF F]
  have "\<bar>b\<bar> \<le> 1" using "2.prems"(2) by simp
  then consider (even) "b = 0" | (heavy) "b = heavy d" | (light) "b = - heavy d"
    by (rule bal_cases)
  then show ?case
  proof cases
    case even
    then show ?thesis
      using B[of "- heavy d", unfolded rebalanced_root[of _ _ _ p]] D
      by (simp add: avl_remove_loop.simps[of tr h])
  next
    case heavy
    let ?h = "AVL_SETBALANCE h a 0" and ?t = "mk d a 0 t s"
    have "\<exists>tr' h'. (if p = [] then Some (tr, ?h) else avl_remove_loop tr ?h (ppar p) (pidx c0 p)) =
        Some (tr', h') \<and> rebalanced tr ?h c0 [] (plug p ?t) (del_up p ?t) tr' h'"
      using "2.IH"(1)[OF refl _ _ rebalancedD[OF B]] "2.prems" heavy
        rebalanced_refl[OF rebalancedD[OF B]] by (cases "p = []") auto
    then show ?thesis
      using rebalanced_trans[OF B[unfolded rebalanced_root[of _ _ _ p]]] D heavy
      by (auto simp: avl_remove_loop.simps[of tr h] nodes_plug)
  next
    case light
    let ?t = "fst (rot (\<not> d) a s t)"
    have ok: "rot_ok s" using "2.prems"(3) light by simp
    obtain tr1 h1 where R: "rebalanced tr h c0 p (mk d a b t s) ?t tr1 h1"
      and step: "avl_remove_loop tr h a d = (if \<not> snd (rot (\<not> d) a s t) \<or> p = [] then Some (tr1, h1)
        else avl_remove_loop tr1 h1 (ppar p) (pidx c0 p))"
      using F ok unfolding light by (rule avl_remove_loop_light)
    have "nodes (plug p ?t) = nodes (plug p (mk d a b t s))"
      using inorder_rot_ok[OF ok, of "\<not> d" a t b] by (auto simp: nodes_plug)
    note trans = rebalanced_trans[OF R[unfolded rebalanced_root[of _ _ _ p]] _ this]
    show ?thesis
      using "2.IH"(2)[OF refl _ _ _ rebalancedD[OF R]] "2.prems" light step trans
        R[unfolded rebalanced_root[of _ _ _ p]]
      by (cases "snd (rot (\<not> d) a s t)"; cases "p = []") auto
  qed
qed

section \<open>The invariant\<close>

text \<open>The header and the heap represent the balanced tree \<open>T\<close>.\<close>

definition avl_rep :: "avl_tree \<Rightarrow> avl_heap \<Rightarrow> tree \<Rightarrow> bool" where
  "avl_rep tr h T \<longleftrightarrow>
     (\<exists>c0. focus tr h c0 [] T) \<and> avl T \<and> avl_numnodes_fld tr = length (inorder T)"

lemma avl_rep_empty: "avl_root tr = NULL \<Longrightarrow> avl_numnodes_fld tr = 0 \<Longrightarrow> avl_rep tr h Leaf"
  by (auto simp: avl_rep_def focus_def)

lemma avl_repD:
  assumes "avl_rep tr h T"
  shows "avl T" "distinct (inorder T)" "0 \<notin> nodes T" "avl_numnodes_fld tr = length (inorder T)"
    "avl_root tr = rootp T"
  using assms focusD[of tr h _ "[]" T] by (auto simp: avl_rep_def)

lemma avl_rep_cong: "agree (nodes T) h h' \<Longrightarrow> avl_rep tr h T \<longleftrightarrow> avl_rep tr h' T"
  using trep_cong[of T h h'] by (auto simp: avl_rep_def focus_def)

section \<open>Insertion\<close>

lemma pidx_eq: "p \<noteq> [] \<Longrightarrow> pidx c p = pidx c' p"
  by (cases p) auto

lemma focus_hole:
  assumes "avl_rep tr h (plug p Leaf)" obtains c0 where "focus tr h c0 p Leaf" "pidx c0 p = pidx c p"
proof -
  obtain c0 where "focus tr h c0 p Leaf" using assms focus_root by (auto simp: avl_rep_def)
  then have "focus tr h c p Leaf" if "p = []" using that by (simp add: focus_def)
  with \<open>focus tr h c0 p Leaf\<close> that pidx_eq show thesis by (cases "p = []") blast+
qed

text \<open>Linking a new node at the end of a path that ends in a hole.\<close>

lemma focus_new_node:
  assumes F: "focus tr h c0 p Leaf" and a: "a \<noteq> NULL" "a \<notin> pnodes p"
    and tr: "avl_root tr' = avl_root tr"
    and R: "avl_relink tr' (AVL_SETPARENT (AVL_SETBALANCE (AVL_SETCHILD (set_avl_child
              (set_avl_child h a False NULL) a True NULL) a (pidx c0 p)) a 0) a (ppar p))
              (ppar p) (pidx c0 p) a = (tr2, h2)"
  shows "focus tr2 h2 c0 p (Node Leaf a 0 Leaf)"
    and "tr2 = tr'\<lparr>avl_root := rootp (plug p (Node Leaf a 0 Leaf))\<rparr>"
    and "agree (- insert a (pnodes p)) h h2"
proof -
  let ?h1 = "AVL_SETPARENT (AVL_SETBALANCE (AVL_SETCHILD (set_avl_child
              (set_avl_child h a False NULL) a True NULL) a (pidx c0 p)) a 0) a (ppar p)"
  have T: "trep ?h1 (ppar p) (pidx c0 p) (Node Leaf a 0 Leaf)"
    using a by (simp add: avl_upd_defs)
  have A: "agree (pnodes p) h ?h1" using a by (simp add: avl_upd_defs)
  have I: "distinct (inorder (plug p (Node Leaf a 0 Leaf)))"
    using F a by (simp add: focus_def distinct_plug)
  show "focus tr2 h2 c0 p (Node Leaf a 0 Leaf)"
    and "tr2 = tr'\<lparr>avl_root := rootp (plug p (Node Leaf a 0 Leaf))\<rparr>"
    using focus_relink(1,2)[OF F A T I tr] R by simp_all
  have "agree (- pnodes p) ?h1 h2" using focus_relink(3)[OF F A T I tr] R by simp
  moreover have "agree (- insert a (pnodes p)) h ?h1" by (simp add: avl_upd_defs)
  ultimately show "agree (- insert a (pnodes p)) h h2"
    by (auto simp: agree_def)
qed

lemma avl_insert_refines:
  assumes rep: "avl_rep tr h (plug p Leaf)" and al: "new_data mod 8 = 0"
    and a: "AVL_DATA2NODE new_data (avl_offset tr) = a" "a \<noteq> NULL" "a \<notin> pnodes p"
  obtains tr' h' where "avl_insert tr h new_data (ppar p, pidx c p) = Some (tr', h')"
    "avl_rep tr' h' (ins_up p (Node Leaf a 0 Leaf))"
    "inorder (ins_up p (Node Leaf a 0 Leaf)) = before p @ a # after p"
    "agree (- insert a (pnodes p)) h h'" "avl_offset tr' = avl_offset tr"
proof -
  let ?t = "Node Leaf a 0 Leaf" and ?tr = "tr\<lparr>avl_numnodes_fld := avl_numnodes_fld tr + 1\<rparr>"
  obtain c0 where F: "focus tr h c0 p Leaf" and c: "pidx c0 p = pidx c p"
    using focus_hole[OF rep] by blast
  obtain tr2 h2 where R: "avl_relink ?tr (AVL_SETPARENT (AVL_SETBALANCE (AVL_SETCHILD (set_avl_child
      (set_avl_child h a False NULL) a True NULL) a (pidx c0 p)) a 0) a (ppar p))
      (ppar p) (pidx c0 p) a = (tr2, h2)"
    by (metis prod.exhaust)
  note N = focus_new_node[OF F a(2,3) _ R, simplified]
  have P: "path_avl p 0" using avl_repD(1)[OF rep] by (simp add: avl_plug)
  have ok: "rot_ok ?t" by (simp add: rot_ok_def)
  obtain tr' h' where L: "avl_insert_loop tr2 h2 (ppar p) (pidx c0 p) = Some (tr', h')"
    and B: "rebalanced tr2 h2 c0 [] (plug p ?t) (ins_up p ?t) tr' h'"
    using avl_insert_loop_refines[OF N(1) ok path_bal_avl[OF P]] by blast
  have io: "inorder (ins_up p ?t) = before p @ a # after p"
    using inorder_ins_up[OF ok, of p] by (simp add: inorder_plug)
  have "avl_numnodes_fld tr = length (before p @ after p)"
    using avl_repD(4)[OF rep] by (simp add: inorder_plug)
  then have "avl_rep tr' h' (ins_up p ?t)"
    using B ins_up_avl[of ?t p] P by (auto simp: avl_rep_def rebalanced_def N(2) io)
  moreover have "avl_insert tr h new_data (ppar p, pidx c p) = Some (tr', h')"
    using al a R L by (simp add: avl_insert_def c Let_def)
  moreover have "agree (- insert a (pnodes p)) h2 h'" "avl_offset tr' = avl_offset tr"
    using B by (simp_all add: rebalanced_def nodes_plug N(2) Un_commute)
  ultimately show thesis using that io N(3) agree_trans by blast
qed

section \<open>Searching\<close>

text \<open>
  The contract of a comparison function: -1, 0 or 1 as the key of the first argument is less
  than, equal to or greater than the key of the second. \<open>sorted_keys\<close> says that the data of
  the tree is strictly sorted by key.
\<close>

definition compar_ok :: "('v \<Rightarrow> ptr \<Rightarrow> int) \<Rightarrow> ('v \<Rightarrow> int) \<Rightarrow> (ptr \<Rightarrow> int) \<Rightarrow> bool" where
  "compar_ok compar vkey key \<longleftrightarrow>
     (\<forall>v d. compar v d = (if vkey v < key d then -1 else if vkey v > key d then 1 else 0))"

definition tdata :: "nat \<Rightarrow> tree \<Rightarrow> ptr list" where
  "tdata off T = map (\<lambda>n. AVL_NODE2DATA n off) (inorder T)"

definition sorted_keys :: "(ptr \<Rightarrow> int) \<Rightarrow> ptr list \<Rightarrow> bool" where
  "sorted_keys key ds \<longleftrightarrow> sorted_wrt (<) (map key ds)"

lemma balance2child [simp]: "avl_balance2child 0 = False" "avl_balance2child 1 = False"
  "avl_balance2child 2 = True"
  by (simp_all add: avl_balance2child_def numeral_2_eq_2)

abbreviation nkey :: "(ptr \<Rightarrow> int) \<Rightarrow> nat \<Rightarrow> ptr \<Rightarrow> int" where
  "nkey key off n \<equiv> key (AVL_NODE2DATA n off)"

lemma sorted_keys_node:
  "sorted_keys key (tdata off (Node l a b r)) \<longleftrightarrow>
     sorted_keys key (tdata off l) \<and> sorted_keys key (tdata off r) \<and>
     (\<forall>n\<in>nodes l. nkey key off n < nkey key off a) \<and>
     (\<forall>n\<in>nodes r. nkey key off a < nkey key off n)"
  by (fastforce simp: sorted_keys_def tdata_def sorted_wrt_append)

lemma avl_find_loop_node:
  assumes "trep h par c (Node l a b r)" "compar_ok compar vkey key"
  shows "vkey v = nkey key off a \<Longrightarrow> avl_find_loop compar off h v a prev child =
           Some (AVL_NODE2DATA a off, Some (NULL, False))"
    and "vkey v < nkey key off a \<Longrightarrow> avl_find_loop compar off h v a prev child =
           avl_find_loop compar off h v (rootp l) a False"
    and "nkey key off a < vkey v \<Longrightarrow> avl_find_loop compar off h v a prev child =
           avl_find_loop compar off h v (rootp r) a True"
  using assms by (simp_all add: compar_ok_def avl_find_loop.simps[of _ _ _ _ a])

lemma avl_find_loop_found:
  assumes "trep h par c t" "compar_ok compar vkey key" "sorted_keys key (tdata off t)"
    and "n \<in> nodes t" "nkey key off n = vkey v"
  shows "avl_find_loop compar off h v (rootp t) prev child =
           Some (AVL_NODE2DATA n off, Some (NULL, False))"
  using assms(1,3,4)
proof (induction t arbitrary: par c prev child)
  case (Node l a b r)
  note step = avl_find_loop_node[OF Node.prems(1) assms(2), where v = v and off = off]
  have S: "\<forall>n\<in>nodes l. nkey key off n < nkey key off a" "\<forall>n\<in>nodes r. nkey key off a < nkey key off n"
    using Node.prems(2) by (simp_all add: sorted_keys_node)
  consider "n = a" | "n \<in> nodes l" | "n \<in> nodes r" using Node.prems(3) by auto
  then show ?case
    using Node assms(5) S by cases (auto simp: step sorted_keys_node)
qed simp

lemma avl_find_loop_missing:
  assumes "trep h par c t" "compar_ok compar vkey key" "sorted_keys key (tdata off t)"
    and "\<forall>n\<in>nodes t. nkey key off n \<noteq> vkey v"
  shows "\<exists>q. avl_find_loop compar off h v (rootp t) (ppar p) (pidx w p) =
               Some (NULL, Some (ppar (q @ p), pidx w (q @ p))) \<and> plug q Leaf = t \<and>
             (\<forall>n\<in>set (before q). nkey key off n < vkey v) \<and>
             (\<forall>n\<in>set (after q). vkey v < nkey key off n)"
  using assms(1,3,4)
proof (induction t arbitrary: par c p)
  case Leaf
  then show ?case by (auto simp: avl_find_loop.simps intro: exI[of _ "[]"])
next
  case (Node l a b r)
  note step = avl_find_loop_node[OF Node.prems(1) assms(2), where v = v and off = off]
  have S: "\<forall>n\<in>nodes l. nkey key off n < nkey key off a" "\<forall>n\<in>nodes r. nkey key off a < nkey key off n"
    using Node.prems(2) by (simp_all add: sorted_keys_node)
  consider (lt) "vkey v < nkey key off a" | (gt) "nkey key off a < vkey v"
    using Node.prems(3) by (cases "vkey v" "nkey key off a" rule: linorder_cases) auto
  then show ?case
  proof cases
    case lt
    obtain q where "avl_find_loop compar off h v (rootp l) a False =
        Some (NULL, Some (ppar (q @ (False, a, b, r) # p), pidx w (q @ (False, a, b, r) # p)))"
      "plug q Leaf = l" "\<forall>n\<in>set (before q). nkey key off n < vkey v"
      "\<forall>n\<in>set (after q). vkey v < nkey key off n"
      using Node.IH(1)[of a False "(False, a, b, r) # p"] Node.prems by (auto simp: sorted_keys_node)
    moreover have "set (before (q @ [(False, a, b, r)])) = set (before q)"
      "set (after (q @ [(False, a, b, r)])) = set (after q) \<union> insert a (nodes r)"
      by (simp_all add: before_append after_append)
    ultimately show ?thesis
      using lt S(2) step(2) by (intro exI[of _ "q @ [(False, a, b, r)]"]) (auto simp: mk_def)
  next
    case gt
    obtain q where "avl_find_loop compar off h v (rootp r) a True =
        Some (NULL, Some (ppar (q @ (True, a, b, l) # p), pidx w (q @ (True, a, b, l) # p)))"
      "plug q Leaf = r" "\<forall>n\<in>set (before q). nkey key off n < vkey v"
      "\<forall>n\<in>set (after q). vkey v < nkey key off n"
      using Node.IH(2)[of a True "(True, a, b, l) # p"] Node.prems by (auto simp: sorted_keys_node)
    moreover have "set (before (q @ [(True, a, b, l)])) = set (before q) \<union> insert a (nodes l)"
      "set (after (q @ [(True, a, b, l)])) = set (after q)"
      by (auto simp: before_append after_append)
    ultimately show ?thesis
      using gt S(1) step(3) by (intro exI[of _ "q @ [(True, a, b, l)]"]) (auto simp: mk_def)
  qed
qed

section \<open>The contract of the container\<close>

text \<open>
  The tree holds exactly the objects \<open>ds\<close>, in strictly ascending order of their keys. The node
  of an object is at a fixed offset from it; \<open>footprint\<close> is the set of nodes.
\<close>

definition avl_holds :: "(ptr \<Rightarrow> int) \<Rightarrow> avl_tree \<Rightarrow> avl_heap \<Rightarrow> ptr list \<Rightarrow> bool" where
  "avl_holds key tr h ds \<longleftrightarrow>
     (\<exists>T. avl_rep tr h T \<and> (\<forall>n\<in>nodes T. avl_offset tr < n) \<and> ds = tdata (avl_offset tr) T) \<and>
     sorted_keys key ds"

definition footprint :: "nat \<Rightarrow> ptr set \<Rightarrow> ptr set" where
  "footprint off D = (\<lambda>d. AVL_DATA2NODE d off) ` D"

lemma footprint_tdata:
  assumes "\<forall>n\<in>nodes T. off < n" shows "footprint off (set (tdata off T)) = nodes T"
  using assms
  by (force simp: footprint_def tdata_def AVL_DATA2NODE_def AVL_NODE2DATA_def image_image)

lemma insort_key_split:
  fixes key :: "'a \<Rightarrow> int"
  assumes "\<forall>y\<in>set xs. key y < key x" "\<forall>y\<in>set ys. key x < key y"
  shows "insort_key key x (xs @ ys) = xs @ x # ys"
  using assms by (induction xs) (auto, cases ys, auto)

lemma avl_find_absent:
  assumes "avl_rep tr h T" "compar_ok compar vkey key"
    and "sorted_keys key (tdata (avl_offset tr) T)" "vkey v \<notin> key ` set (tdata (avl_offset tr) T)"
  obtains p where "avl_find compar tr h v = Some (NULL, Some (ppar p, pidx False p))"
    "plug p Leaf = T" "\<forall>n\<in>set (before p). nkey key (avl_offset tr) n < vkey v"
    "\<forall>n\<in>set (after p). vkey v < nkey key (avl_offset tr) n"
proof -
  obtain c0 where R: "trep h NULL c0 T" using assms(1) by (auto simp: avl_rep_def focus_def)
  have "\<forall>n\<in>nodes T. nkey key (avl_offset tr) n \<noteq> vkey v"
    using assms(4) by (force simp: tdata_def)
  from avl_find_loop_missing[OF R assms(2,3) this, where p = "[]" and w = False] show thesis
    using that by (auto simp: avl_find_def avl_repD(5)[OF assms(1)])
qed

lemma avl_find_holds:
  assumes "avl_holds key tr h ds" "compar_ok compar vkey key"
  shows "d \<in> set ds \<Longrightarrow> key d = vkey v \<Longrightarrow>
           avl_find compar tr h v = Some (d, Some (NULL, False))"
    and "vkey v \<notin> key ` set ds \<Longrightarrow> \<exists>w. avl_find compar tr h v = Some (NULL, Some w)"
proof -
  obtain T where T: "avl_rep tr h T" "ds = tdata (avl_offset tr) T" and S: "sorted_keys key ds"
    using assms(1) by (auto simp: avl_holds_def)
  obtain c0 where R: "trep h NULL c0 T" using T(1) by (auto simp: avl_rep_def focus_def)
  show "avl_find compar tr h v = Some (d, Some (NULL, False))" if "d \<in> set ds" "key d = vkey v"
    using that avl_find_loop_found[OF R assms(2) S[unfolded T(2)], where v = v]
    by (auto simp: T(2) tdata_def avl_find_def avl_repD(5)[OF T(1)])
  show "\<exists>w. avl_find compar tr h v = Some (NULL, Some w)" if "vkey v \<notin> key ` set ds"
    using avl_find_absent[OF T(1) assms(2), of v] that S T(2) by metis
qed

lemma avl_add_holds:
  assumes H: "avl_holds key tr h ds" and C: "compar_ok compar key key"
    and d: "d \<noteq> NULL" "d mod 8 = 0" "key d \<notin> key ` set ds"
  obtains tr' h' where "avl_add compar tr h d = Some (tr', h')"
    "avl_holds key tr' h' (insort_key key d ds)" "avl_offset tr' = avl_offset tr"
    "agree (- footprint (avl_offset tr) (insert d (set ds))) h h'"
proof -
  let ?off = "avl_offset tr" and ?a = "AVL_DATA2NODE d (avl_offset tr)"
  obtain T where T: "avl_rep tr h T" "\<forall>n\<in>nodes T. ?off < n" "ds = tdata ?off T"
    and S: "sorted_keys key ds" using H by (auto simp: avl_holds_def)
  obtain p where f: "avl_find compar tr h d = Some (NULL, Some (ppar p, pidx False p))"
    and p: "plug p Leaf = T" and lt: "\<forall>n\<in>set (before p). nkey key ?off n < key d"
    and gt: "\<forall>n\<in>set (after p). key d < nkey key ?off n"
    using avl_find_absent[OF T(1) C] S d(3) unfolding T(3) by blast
  have pn: "pnodes p = nodes T" using nodes_plug[of p Leaf] p by simp
  have a: "?a \<noteq> NULL" "?a \<notin> pnodes p" "AVL_NODE2DATA ?a ?off = d" "?off < ?a"
    using d(1) lt gt by (auto simp: pnodes_eq AVL_DATA2NODE_def AVL_NODE2DATA_def)
  obtain tr' h' where I: "avl_insert tr h d (ppar p, pidx False p) = Some (tr', h')"
    "avl_rep tr' h' (ins_up p (Node Leaf ?a 0 Leaf))"
    "inorder (ins_up p (Node Leaf ?a 0 Leaf)) = before p @ ?a # after p"
    "agree (- insert ?a (pnodes p)) h h'" "avl_offset tr' = ?off"
    using avl_insert_refines[OF _ d(2) refl a(1,2)] T(1) p by blast
  have ds: "ds = map (\<lambda>n. AVL_NODE2DATA n ?off) (before p) @ map (\<lambda>n. AVL_NODE2DATA n ?off) (after p)"
    using p inorder_plug[of p Leaf] by (simp add: T(3) tdata_def)
  have ds': "tdata ?off (ins_up p (Node Leaf ?a 0 Leaf)) = insort_key key d ds"
    unfolding ds using lt gt a(3) by (subst insort_key_split) (auto simp: tdata_def I(3))
  have "sorted_keys key (insort_key key d ds)"
    using S lt gt unfolding ds'[symmetric] unfolding ds
    by (fastforce simp: tdata_def I(3) sorted_keys_def sorted_wrt_append a(3))
  moreover have "\<forall>n\<in>nodes (ins_up p (Node Leaf ?a 0 Leaf)). ?off < n"
    using T(2) a(4) pn by (auto simp: I(3) pnodes_eq)
  ultimately have "avl_holds key tr' h' (insort_key key d ds)"
    using I(2,5) ds' unfolding avl_holds_def by metis
  moreover have "footprint ?off (insert d (set ds)) = insert ?a (pnodes p)"
    using footprint_tdata[OF T(2)] by (simp add: footprint_def T(3) pn)
  ultimately show thesis
    using that I f by (simp add: avl_add_def)
qed

end
