(* ===== verification/FB_Avl_Walk.thy ===== *)
theory FB_Avl_Walk
  imports FB_Avl_Ops
begin

text \<open>
  Walking: the first and the last object, the neighbour of an object in either direction, and
  the object nearest to the place where an absent key would go.
\<close>

section \<open>Ends and neighbours of the in-order sequence\<close>

definition dir :: "bool \<Rightarrow> 'a list \<Rightarrow> 'a list" where
  "dir d xs = (if d then xs else rev xs)"

definition hd0 :: "ptr list \<Rightarrow> ptr" where
  "hd0 xs = (case xs of [] \<Rightarrow> NULL | x # _ \<Rightarrow> x)"

definition pside :: "bool \<Rightarrow> path \<Rightarrow> ptr list" where
  "pside d p = (if d then after p else rev (before p))"

lemma hd0_simps [simp]: "hd0 [] = NULL" "hd0 (x # xs) = x"
  by (simp_all add: hd0_def)

lemma hd0_append: "hd0 (xs @ ys) = (if xs = [] then hd0 ys else hd0 xs)"
  by (cases xs) auto

lemma hd0_in: "xs \<noteq> [] \<Longrightarrow> hd0 xs \<in> set xs"
  by (cases xs) auto

lemma inorder_empty [simp]: "inorder t = [] \<longleftrightarrow> t = Leaf"
  by (cases t) auto

lemma dir_empty [simp]: "dir d xs = [] \<longleftrightarrow> xs = []"
  by (simp add: dir_def)

lemma dir_simps [simp]: "dir d [] = []" "set (dir d xs) = set xs" "dir True xs = xs"
  "dir False xs = rev xs" "map f (dir d xs) = dir d (map f xs)"
  by (simp_all add: dir_def rev_map)

lemma dir_mk: "dir d (inorder (mk (\<not> d) a b s t)) = dir d (inorder s) @ a # dir d (inorder t)"
  by (simp add: dir_def mk_def)

lemma pside_simps [simp]:
  "pside d [] = []"
  "pside d ((d, a, b, s) # p) = pside d p"
  "pside d ((\<not> d, a, b, s) # p) = a # dir d (inorder s) @ pside d p"
  "pside (\<not> d) ((d, a, b, s) # p) = a # dir (\<not> d) (inorder s) @ pside (\<not> d) p"
  by (auto simp: pside_def dir_def)

lemma dir_plug:
  "dir d (inorder (plug p t)) = rev (pside (\<not> d) p) @ dir d (inorder t) @ pside d p"
  by (simp add: dir_def pside_def inorder_plug)

lemma avl_descend_refines:
  assumes "trep h par c t" "t \<noteq> Leaf"
  shows "avl_descend h (\<not> d) (rootp t) = Some (hd0 (dir d (inorder t)))"
  using assms
proof (induction t arbitrary: par c)
  case (Node l a b r)
  obtain s u where t: "Node l a b r = mk (\<not> d) a b s u" and s: "s = (if d then l else r)"
    by (cases d) (auto simp: mk_def)
  have "avl_descend h (\<not> d) (rootp s) = Some (hd0 (dir d (inorder s)))" if "s \<noteq> Leaf"
    using that Node s by (auto split: if_splits)
  moreover have "trep h a (\<not> d) s" "avl_child (h a) (\<not> d) = rootp s"
    using Node.prems(1) unfolding t by simp_all
  ultimately show ?case
    using trep_rootp[of h a "\<not> d" s]
    by (cases "s = Leaf") (simp_all add: t dir_mk avl_descend.simps[of h _ a] hd0_append)
qed simp

lemma avl_end_loop_refines:
  assumes "trep h par c t"
  shows "avl_end_loop h (\<not> d) (rootp t) prev =
    Some (if t = Leaf then prev else hd0 (dir d (inorder t)))"
  using assms
proof (induction t arbitrary: par c prev)
  case (Node l a b r)
  obtain s u where t: "Node l a b r = mk (\<not> d) a b s u" and s: "s = (if d then l else r)"
    by (cases d) (auto simp: mk_def)
  have "avl_end_loop h (\<not> d) (rootp s) a = Some (if s = Leaf then a else hd0 (dir d (inorder s)))"
    using Node s by (auto split: if_splits)
  moreover have "a \<noteq> NULL" "avl_child (h a) (\<not> d) = rootp s"
    using Node.prems(1) unfolding t by simp_all
  ultimately show ?case
    by (simp add: t dir_mk avl_end_loop.simps[of h _ a] hd0_append)
qed (simp add: avl_end_loop.simps)

lemma avl_climb_refines:
  assumes "focus tr h c0 p t" "t \<noteq> Leaf"
  shows "avl_climb h (\<not> d) (rootp t) = Some (hd0 (pside d p))"
  using assms
proof (induction p t rule: plug.induct)
  case (1 t)
  then show ?case by (cases t) (auto simp: focus_def avl_climb.simps)
next
  case (2 e a b s p t)
  then have IH: "avl_climb h (\<not> d) a = Some (hd0 (pside d p))" by (simp add: focus_up)
  have "a \<noteq> NULL" "avl_parent (h (rootp t)) = a" "avl_child_index (h (rootp t)) = e"
    using focusD(1,2)[OF "2.prems"(1)] "2.prems"(2) by (cases t; simp)+
  with IH show ?case by (cases "e = d") (auto simp: avl_climb.simps[of h _ "rootp t"])
qed

section \<open>The operations\<close>

lemma tree_split:
  "inorder T = xs @ a # ys \<Longrightarrow>
     \<exists>p l b r. T = plug p (Node l a b r) \<and> xs = before p @ inorder l \<and> ys = inorder r @ after p"
proof (induction T arbitrary: xs ys)
  case (Node l n b r)
  then consider (root) "xs = inorder l" "a = n" "ys = inorder r"
    | (left) us where "inorder l = xs @ a # us" "ys = us @ n # inorder r"
    | (right) us where "inorder r = us @ a # ys" "xs = inorder l @ n # us"
    by (auto simp: append_eq_append_conv2 append_eq_Cons_conv Cons_eq_append_conv)
  then show ?case
  proof cases
    case root
    then show ?thesis by (intro exI[of _ "[]"]) auto
  next
    case left
    from Node.IH(1)[OF left(1)] obtain p l' b' r' where
      "l = plug p (Node l' a b' r')" "xs = before p @ inorder l'" "us = inorder r' @ after p" by blast
    with left show ?thesis
      by (intro exI[of _ "p @ [(False, n, b, r)]"] exI[of _ l'] exI[of _ b'] exI[of _ r'])
        (simp add: mk_def before_append after_append)
  next
    case right
    from Node.IH(2)[OF right(1)] obtain p l' b' r' where
      "r = plug p (Node l' a b' r')" "us = before p @ inorder l'" "ys = inorder r' @ after p" by blast
    with right show ?thesis
      by (intro exI[of _ "p @ [(True, n, b, l)]"] exI[of _ l'] exI[of _ b'] exI[of _ r'])
        (simp add: mk_def before_append after_append)
  qed
qed simp

definition ndata :: "nat \<Rightarrow> ptr \<Rightarrow> ptr" where
  "ndata off n = (if n = NULL then NULL else AVL_NODE2DATA n off)"

lemma avl_walk_refines:
  assumes F: "focus tr h c0 p (mk d a b s t)" and a: "AVL_DATA2NODE x (avl_offset tr) = a"
  shows "avl_walk tr h x d = Some (ndata (avl_offset tr) (hd0 (dir d (inorder s) @ pside d p)))"
proof -
  have D: "a \<noteq> NULL" "avl_child (h a) d = rootp s" "trep h a d s"
    using focusD(1)[OF F] by simp_all
  have C: "avl_climb h (\<not> d) a = Some (hd0 (pside d p))"
    using avl_climb_refines[OF F, of d] by simp
  show ?thesis
  proof (cases "s = Leaf")
    case False
    have "hd0 (dir d (inorder s)) \<noteq> NULL"
      using trep_nonnull[OF D(3)] False hd0_in[of "dir d (inorder s)"]
      by (metis dir_empty dir_simps(2) inorder_empty)
    with False D avl_descend_refines[OF D(3) False, of d] show ?thesis
      by (simp add: avl_walk_def Let_def a ndata_def hd0_append trep_rootp)
  qed (use D C a in \<open>simp add: avl_walk_def Let_def ndata_def dir_def\<close>)
qed

text \<open>The operations in terms of the objects the tree holds.\<close>

lemma ndata_hd0:
  assumes "0 \<notin> set ns" shows "ndata off (hd0 ns) = hd0 (map (\<lambda>n. AVL_NODE2DATA n off) ns)"
  using assms by (cases ns) (auto simp: ndata_def)

lemma avl_ends_hold:
  assumes "avl_holds key tr h ds"
  shows "avl_first tr h = Some (hd0 ds)" "avl_last tr h = Some (hd0 (rev ds))"
proof -
  obtain T where T: "avl_rep tr h T" "ds = tdata (avl_offset tr) T"
    using assms by (auto simp: avl_holds_def)
  obtain c0 where R: "trep h NULL c0 T" using T(1) by (auto simp: avl_rep_def focus_def)
  note E = avl_end_loop_refines[OF R, where prev = NULL]
  have z: "0 \<notin> set (inorder T)" "0 \<notin> set (rev (inorder T))" using avl_repD(3)[OF T(1)] by auto
  show "avl_first tr h = Some (hd0 ds)" "avl_last tr h = Some (hd0 (rev ds))"
    using E[of True] E[of False] ndata_hd0[OF z(1)] ndata_hd0[OF z(2)]
    by (auto simp: avl_first_def avl_last_def avl_repD(5)[OF T(1)] T(2) tdata_def ndata_def rev_map
        split: if_splits)
qed

lemma avl_walk_holds:
  assumes "avl_holds key tr h (xs @ x # ys)"
  shows "avl_walk tr h x True = Some (hd0 ys)" "avl_walk tr h x False = Some (hd0 (rev xs))"
proof -
  let ?off = "avl_offset tr"
  obtain T where T: "avl_rep tr h T" "\<forall>n\<in>nodes T. ?off < n" "tdata ?off T = xs @ x # ys"
    using assms by (auto simp: avl_holds_def)
  then obtain ns a ms where I: "inorder T = ns @ a # ms"
    and m: "map (\<lambda>n. AVL_NODE2DATA n ?off) ns = xs" "AVL_NODE2DATA a ?off = x"
      "map (\<lambda>n. AVL_NODE2DATA n ?off) ms = ys"
    by (auto simp: tdata_def map_eq_append_conv map_eq_Cons_conv)
  then obtain p l b r where p: "T = plug p (Node l a b r)" and s: "ns = before p @ inorder l"
    "ms = inorder r @ after p" using tree_split by blast
  obtain c0 where F: "focus tr h c0 p (Node l a b r)"
    using T(1) focus_root unfolding p avl_rep_def by blast
  have a: "AVL_DATA2NODE x ?off = a" using T(2) I m(2)
    by (auto simp: AVL_DATA2NODE_def AVL_NODE2DATA_def)
  have z: "0 \<notin> set ms" "0 \<notin> set (rev ns)" using avl_repD(3)[OF T(1)] I by auto
  show "avl_walk tr h x True = Some (hd0 ys)"
    using avl_walk_refines[of tr h c0 p True a b r l, OF _ a] F ndata_hd0[OF z(1), of ?off]
    by (simp add: mk_def pside_def s m(3)[symmetric])
  show "avl_walk tr h x False = Some (hd0 (rev xs))"
    using avl_walk_refines[of tr h c0 p False a b l r, OF _ a] F ndata_hd0[OF z(2), of ?off]
    by (simp add: mk_def pside_def s m(1)[symmetric] rev_map)
qed

text \<open>After an unsuccessful search, the nearest object in either direction.\<close>

lemma avl_nearest_refines:
  assumes F: "focus tr h c0 p Leaf" and off: "\<forall>n\<in>pnodes p. avl_offset tr < n"
  shows "avl_nearest tr h (ppar p, pidx c p) d = Some (ndata (avl_offset tr) (hd0 (pside d p)))"
proof (cases p)
  case Nil
  then show ?thesis by (simp add: avl_nearest_def ndata_def)
next
  case (Cons x q)
  obtain e a b s where p: "p = (e, a, b, s) # q" using Cons by (cases x) auto
  have a: "a \<noteq> NULL" "AVL_DATA2NODE (AVL_NODE2DATA a (avl_offset tr)) (avl_offset tr) = a"
    using focusD(2)[OF F] off by (auto simp: p AVL_DATA2NODE_def AVL_NODE2DATA_def)
  have "focus tr h c0 q (mk e a b Leaf s)" using F by (simp add: p focus_up)
  with avl_walk_refines[OF this a(2)] a(1) show ?thesis
    by (cases "e = d") (auto simp: p avl_nearest_def Let_def ndata_def)
qed

lemma avl_nearest_holds:
  assumes H: "avl_holds key tr h ds" and C: "compar_ok compar vkey key" and v: "vkey v \<notin> key ` set ds"
  obtains w where "avl_find compar tr h v = Some (NULL, Some w)"
    "avl_nearest tr h w True = Some (hd0 (filter (\<lambda>x. vkey v < key x) ds))"
    "avl_nearest tr h w False = Some (hd0 (rev (filter (\<lambda>x. key x < vkey v) ds)))"
proof -
  let ?off = "avl_offset tr" and ?m = "map (\<lambda>n. AVL_NODE2DATA n (avl_offset tr))"
  obtain T where T: "avl_rep tr h T" "\<forall>n\<in>nodes T. ?off < n" "ds = tdata ?off T"
    and S: "sorted_keys key ds" using H by (auto simp: avl_holds_def)
  obtain p where f: "avl_find compar tr h v = Some (NULL, Some (ppar p, pidx False p))"
    and p: "plug p Leaf = T" and lt: "\<forall>n\<in>set (before p). nkey key ?off n < vkey v"
    and gt: "\<forall>n\<in>set (after p). vkey v < nkey key ?off n"
    using avl_find_absent[OF T(1) C] S v unfolding T(3) by blast
  obtain c0 where F: "focus tr h c0 p Leaf" using focus_hole[of tr h p] T(1) p by blast
  have off: "\<forall>n\<in>pnodes p. ?off < n" using T(2) nodes_plug[of p Leaf] p by auto
  have z: "0 \<notin> set (after p)" "0 \<notin> set (rev (before p))"
    using avl_repD(3)[OF T(1)] p nodes_plug[of p Leaf] by (auto simp: pnodes_eq)
  have ds: "ds = ?m (before p) @ ?m (after p)"
    using p inorder_plug[of p Leaf] by (simp add: T(3) tdata_def)
  have "filter (\<lambda>x. vkey v < key x) ds = ?m (after p)"
    "filter (\<lambda>x. key x < vkey v) ds = ?m (before p)"
    unfolding ds using lt gt by (auto simp: filter_empty_conv filter_id_conv)
  then show thesis
    using that[OF f] avl_nearest_refines[OF F off] ndata_hd0[OF z(1), of ?off]
      ndata_hd0[OF z(2), of ?off] by (simp add: pside_def rev_map)
qed

end
