(* ===== verification/FB_Avl_Exchange.thy ===== *)
theory FB_Avl_Exchange
  imports FB_Avl_Walk
begin

text \<open>
  The first half of a removal: a node with two children changes places with its neighbour on
  the taller side. The writes of the code are compared with moving one node after the other.
\<close>

section \<open>Moving a node to another address\<close>

text \<open>Copying a node to a fresh address and redirecting its parent and its children.\<close>

definition move_node :: "avl_heap \<Rightarrow> ptr \<Rightarrow> ptr \<Rightarrow> avl_heap" where
  "move_node h n m =
     (let l = avl_child (h n) False; r = avl_child (h n) True;
          h = upd h m (\<lambda>_. h n);
          h = (if l \<noteq> NULL then AVL_SETPARENT h l m else h)
      in if r \<noteq> NULL then AVL_SETPARENT h r m else h)"

lemma move_node_upd:
  assumes "avl_child (h n) d = s" "avl_child (h n) (\<not> d) = t" "s \<noteq> m" "t \<noteq> m" "s = t \<longrightarrow> s = NULL"
  shows "move_node h n m = upd (upd (upd h m (\<lambda>_. h n))
      s (\<lambda>v. if s \<noteq> NULL then v\<lparr>avl_parent := m\<rparr> else v))
      t (\<lambda>v. if t \<noteq> NULL then v\<lparr>avl_parent := m\<rparr> else v)"
proof (cases d)
  case True
  have "move_node h n m = upd (upd (upd h m (\<lambda>_. h n))
      t (\<lambda>v. if t \<noteq> NULL then v\<lparr>avl_parent := m\<rparr> else v))
      s (\<lambda>v. if s \<noteq> NULL then v\<lparr>avl_parent := m\<rparr> else v)"
    using assms(1,2) True by (simp add: move_node_def Let_def avl_upd_defs upd_if1)
  then show ?thesis using assms(5) upd_commute[of t s] by (cases "s = t") simp_all
qed (use assms(1,2) in \<open>simp add: move_node_def Let_def avl_upd_defs upd_if1\<close>)

lemma move_node_apply:
  assumes "avl_child (h n) d = s" "avl_child (h n) (\<not> d) = t" "s \<noteq> m" "t \<noteq> m" "s = t \<longrightarrow> s = NULL"
  shows "move_node h n m m = h n"
    and "s \<noteq> NULL \<Longrightarrow> move_node h n m s = (h s)\<lparr>avl_parent := m\<rparr>"
    and "t \<noteq> NULL \<Longrightarrow> move_node h n m t = (h t)\<lparr>avl_parent := m\<rparr>"
    and "x \<noteq> m \<Longrightarrow> x \<noteq> s \<or> s = NULL \<Longrightarrow> x \<noteq> t \<or> t = NULL \<Longrightarrow> move_node h n m x = h x"
proof -
  note M = move_node_upd[of h n d, OF assms]
  have st: "s \<noteq> t" "t \<noteq> s" if "s \<noteq> NULL \<or> t \<noteq> NULL" using that assms(5) by auto
  show "move_node h n m m = h n" unfolding M using assms(3,4) by simp
  show "move_node h n m s = (h s)\<lparr>avl_parent := m\<rparr>" if "s \<noteq> NULL"
    unfolding M using assms(3,4) st that by simp
  show "move_node h n m t = (h t)\<lparr>avl_parent := m\<rparr>" if "t \<noteq> NULL"
    unfolding M using assms(3,4) st that by simp
  show "move_node h n m x = h x" if "x \<noteq> m" "x \<noteq> s \<or> s = NULL" "x \<noteq> t \<or> t = NULL"
    unfolding M using that by (cases "x = s"; cases "x = t") simp_all
qed

lemma relink_upd:
  "avl_relink tr h P w x = (if P \<noteq> NULL then tr else tr\<lparr>avl_root := x\<rparr>,
     upd h P (\<lambda>v. if P \<noteq> NULL then v\<lparr>avl_child := (avl_child v)(w := x)\<rparr> else v))"
  by (auto simp: avl_relink_def avl_macro_defs upd_def)

lemma trep_move:
  assumes t: "trep h par c (mk d n b s t)" and dist: "distinct (inorder (mk d n b s t))"
    and m: "m \<noteq> NULL" "m \<notin> nodes (mk d n b s t)"
  shows "trep (move_node h n m) par c (mk d m b s t)"
    and "agree (- insert m (nodes (mk d n b s t))) h (move_node h n m)"
proof -
  let ?h = "move_node h n m"
  have ts: "trep h n d s" "trep h n (\<not> d) t" and ds: "distinct (inorder s)" "distinct (inorder t)"
    and z: "0 \<notin> nodes s" "0 \<notin> nodes t" "n \<noteq> NULL"
    and f: "avl_child (h n) d = rootp s" "avl_child (h n) (\<not> d) = rootp t"
    using t dist trep_nonnull[OF t] by auto
  have out: "rootp s \<noteq> m" "rootp t \<noteq> m" "rootp s \<notin> nodes t" "rootp t \<notin> nodes s"
    using rootp_notin[of "{m}" s] rootp_notin[of "{m}" t] rootp_notin[of "nodes t" s]
      rootp_notin[of "nodes s" t] z m dist by (auto simp: Int_commute)
  then have "rootp s = rootp t \<longrightarrow> rootp s = NULL" by (cases t) auto
  note M = move_node_apply[of h n d, OF f out(1,2) this]
  have frame: "agree A h ?h" if "m \<notin> A" "rootp s \<notin> A \<or> rootp s = NULL" "rootp t \<notin> A \<or> rootp t = NULL" for A
    using M(4) that unfolding agree_def by metis
  have idx: "avl_child_index (h (rootp s)) = d" if "s \<noteq> Leaf" using ts(1) that by (cases s) auto
  have idx': "avl_child_index (h (rootp t)) = (\<not> d)" if "t \<noteq> Leaf" using ts(2) that by (cases t) auto
  have "trep ?h m d s"
    by (rule trep_reparent[OF ts(1) ds(1)])
      (use M(2) out m idx trep_rootp[OF ts(1)] in \<open>auto intro!: frame\<close>)
  moreover have "trep ?h m (\<not> d) t"
    by (rule trep_reparent[OF ts(2) ds(2)])
      (use M(3) out m idx' trep_rootp[OF ts(2)] in \<open>auto intro!: frame\<close>)
  ultimately show "trep ?h par c (mk d m b s t)"
    using t m by (simp add: M(1))
  show "agree (- insert m (nodes (mk d n b s t))) h ?h"
    using rootp_in[of s] rootp_in[of t] by (intro frame) (cases "s = Leaf"; cases "t = Leaf"; simp)+
qed

lemma focus_move:
  assumes F: "focus tr h c0 p (mk d n b s t)"
    and m: "m \<noteq> NULL" "m \<notin> nodes (plug p (mk d n b s t))"
    and R: "avl_relink tr (move_node h n m) (ppar p) (pidx c0 p) m = (tr', h')"
  shows "focus tr' h' c0 p (mk d m b s t)"
    and "tr' = tr\<lparr>avl_root := rootp (plug p (mk d m b s t))\<rparr>"
    and "agree (- insert m (nodes (plug p (mk d n b s t)))) h h'"
proof -
  note D = focusD[OF F]
  have m': "m \<notin> nodes (mk d n b s t)" "m \<notin> pnodes p" using m(2) by (auto simp: nodes_plug)
  note T = trep_move[OF D(1,3) m(1) m'(1)]
  have A: "agree (pnodes p) h (move_node h n m)"
    using T(2) D(4) m'(2) by (auto simp: agree_def)
  have I: "distinct (inorder (plug p (mk d m b s t)))"
    using F m' by (auto simp: focus_def distinct_plug)
  note L = focus_relink[OF F A T(1) I refl]
  show "focus tr' h' c0 p (mk d m b s t)" "tr' = tr\<lparr>avl_root := rootp (plug p (mk d m b s t))\<rparr>"
    using L(1,2) R by simp_all
  show "agree (- insert m (nodes (plug p (mk d n b s t)))) h h'"
    using L(3) R T(2) by (auto simp: agree_def nodes_plug)
qed

section \<open>Changing places with the neighbour\<close>

lemma neighbour_split:
  assumes "L \<noteq> Leaf"
  shows "\<exists>q n nb M. L = plug q (mk (\<not> e) n nb Leaf M) \<and> (\<forall>x\<in>set q. fst x = (\<not> e))"
  using assms
proof (induction L)
  case (Node l a b r)
  obtain s u where t: "Node l a b r = mk (\<not> e) a b s u" and s: "s = (if e then l else r)"
    by (cases e) (auto simp: mk_def)
  show ?case
  proof (cases "s = Leaf")
    case True
    then show ?thesis unfolding t by (intro exI[of _ "[]"]) auto
  next
    case False
    then obtain q n nb M where q: "s = plug q (mk (\<not> e) n nb Leaf M)" "\<forall>x\<in>set q. fst x = (\<not> e)"
      using Node s by (auto split: if_splits)
    then show ?thesis unfolding t
      by (intro exI[of _ "q @ [(\<not> e, a, b, u)]"] exI[of _ n] exI[of _ nb] exI[of _ M]) auto
  qed
qed simp

lemma pside_straight: "\<forall>x\<in>set q. fst x = d \<Longrightarrow> pside d q = []"
  by (induction q) auto

text \<open>
  The exchange leaves the same heap as moving the neighbour \<open>n\<close> to \<open>tmp\<close> and then \<open>a\<close> to \<open>n\<close>,
  except for the node \<open>a\<close>, which is no longer in the tree. In \<open>exchange_near\<close> the neighbour is
  the child of \<open>a\<close>, in \<open>exchange_far\<close> it is further down.
\<close>

lemma exchange_near:
  assumes n: "avl_child (h n) e = k" "avl_child (h n) (\<not> e) = NULL" "avl_parent (h n) = a"
      "avl_child_index (h n) = e"
    and a: "avl_child (h a) e = n" "avl_child (h a) (\<not> e) = r" "avl_parent (h a) = P"
      "avl_child_index (h a) = w"
    and ne: "n \<noteq> NULL" "r \<noteq> NULL" "tmp \<noteq> NULL" "a \<noteq> NULL" "tmp \<notin> {n, a, P, r, k}" "n \<notin> {a, P, r, k}"
      "a \<notin> {P, r, k}" "P \<noteq> r" "P = k \<longrightarrow> P = NULL" "r \<noteq> k"
    and A: "hA = set_avl_child (move_node h n tmp) a e tmp"
    and B: "avl_relink tr (move_node hA a n) P w n = (trB, hB)"
  obtains hC where "avl_remove_exchange tmp tr h a n e = (trB, hC)" "agree (- {a}) hB hC"
proof -
  have ne': "tmp \<noteq> n" "tmp \<noteq> a" "tmp \<noteq> P" "tmp \<noteq> r" "tmp \<noteq> k" "n \<noteq> a" "n \<noteq> P" "n \<noteq> r" "n \<noteq> k"
    "a \<noteq> P" "a \<noteq> r" "a \<noteq> k" using ne by auto
  note nes = ne' ne'[symmetric] ne(1-4,8,10) ne(1-4,8,10)[symmetric]
  define h1 where "h1 = upd h tmp (\<lambda>_. h n)"
  define h2 where "h2 = upd h1 n (\<lambda>_. h a)"
  define h3 where "h3 = set_avl_child h2 n e tmp"
  obtain tr4 h4 where R: "avl_relink tr h3 P w n = (tr4, h4)" by (metis prod.exhaust)
  define h5 where "h5 = AVL_SETPARENT h4 tmp n"
  define h6 where "h6 = AVL_SETPARENT h5 r n"
  define h7 where "h7 = set_avl_child h6 n e tmp"
  define h8 where "h8 = (if k \<noteq> NULL then AVL_SETPARENT h7 k tmp else h7)"
  have f1: "h(tmp := h n) = h1" "h1 a = h a" "h1(n := h a) = h2"
    by (simp_all add: h1_def h2_def upd_def nes)
  have f2: "h2 n = h a" "h2 tmp = h n" by (simp_all add: h1_def h2_def nes)
  have f3: "h3 n = (h a)\<lparr>avl_child := (avl_child (h a))(e := tmp)\<rparr>" "h3 tmp = h n"
    using f2 by (simp_all add: h3_def avl_macro_defs nes)
  have f4: "h4 n = h3 n" "h4 tmp = h3 tmp"
    using R by (auto simp: avl_relink_def avl_upd_defs nes split: if_splits)
  have f6: "h6 n = h3 n" "h5 n = h3 n" "h6 tmp = (h n)\<lparr>avl_parent := n\<rparr>"
    using f3 f4 by (simp_all add: h6_def h5_def avl_upd_defs nes)
  have f7: "h7 tmp = h6 tmp" by (simp add: h7_def avl_upd_defs nes)
  have c: "avl_child (h n) (avl_child (h n) True \<noteq> NULL) = k" using n by (cases e; cases "k = NULL") auto
  have C: "avl_remove_exchange tmp tr h a n e = (tr4, h8)"
    using n a c by (simp add: avl_remove_exchange_def Let_def f1 f2 f3 f4 f6 f7 R h3_def[symmetric]
        h5_def[symmetric] h6_def[symmetric] h7_def[symmetric] h8_def nes)
  have M: "move_node h n tmp = (upd (upd h tmp (\<lambda>_. h n))
      k (\<lambda>v. if k \<noteq> NULL then v\<lparr>avl_parent := tmp\<rparr> else v))"
    using move_node_upd[of h n e k NULL tmp] n ne(3) nes by simp
  have hA: "hA a = (h a)\<lparr>avl_child := (avl_child (h a))(e := tmp)\<rparr>" "hA tmp = h n"
    "hA = upd (move_node h n tmp) a (avl_child_update (\<lambda>f. f(e := tmp)))"
    by (simp_all add: A avl_upd_defs M nes)
  have MA: "move_node hA a n = upd (upd (upd hA n (\<lambda>_. hA a))
      tmp (\<lambda>v. v\<lparr>avl_parent := n\<rparr>)) r (\<lambda>v. v\<lparr>avl_parent := n\<rparr>)"
    using move_node_upd[of hA a e tmp r n] a ne(1-3) nes by (simp add: hA(1))
  have tr: "tr4 = trB" using R B by (simp add: relink_upd)
  let ?P = "\<lambda>v. if P \<noteq> NULL then v\<lparr>avl_child := (avl_child v)(w := n)\<rparr> else v"
  let ?k = "\<lambda>v. if k \<noteq> NULL then v\<lparr>avl_parent := tmp\<rparr> else v"
  have h4: "h4 = upd h3 P ?P"
    and hB: "hB = upd (upd (upd (upd hA n (\<lambda>_. hA a)) tmp (\<lambda>v. v\<lparr>avl_parent := n\<rparr>))
                     r (\<lambda>v. v\<lparr>avl_parent := n\<rparr>)) P ?P"
    using R B by (simp_all add: relink_upd MA)
  note e8 = h8_def h7_def h6_def h5_def h4 h3_def h2_def h1_def avl_upd_defs upd_if1
  note eB = hB hA M o_def
  have "hB x = h8 x" if "x \<in> {n, tmp, r}" for x using that by (auto simp: e8 eB nes)
  moreover have "hB P = h8 P" "hB k = h8 k"
    subgoal using ne(9) by (cases "P = k") (simp_all add: e8 eB nes)
    subgoal using ne(9) by (cases "P = k") (simp_all add: e8 eB nes)
    done
  moreover have "hB x = h8 x" if "x \<noteq> a" "x \<notin> {n, tmp, r}" "x \<noteq> P" "x \<noteq> k" for x
  proof -
    have "x \<noteq> n" "x \<noteq> tmp" "x \<noteq> r" using that by auto
    then show ?thesis using that(1,3,4) by (simp add: e8 eB)
  qed
  ultimately have "agree (- {a}) hB h8" unfolding agree_def by (metis ComplD insertCI)
  then show thesis using C that unfolding tr by blast
qed

lemma exchange_far:
  assumes n: "avl_child (h n) e = k" "avl_child (h n) (\<not> e) = NULL" "avl_parent (h n) = g"
      "avl_child_index (h n) = (\<not> e)"
    and a: "avl_child (h a) e = l" "avl_child (h a) (\<not> e) = r" "avl_parent (h a) = P"
      "avl_child_index (h a) = w"
    and ne: "n \<noteq> NULL" "r \<noteq> NULL" "tmp \<noteq> NULL" "a \<noteq> NULL" "l \<noteq> NULL" "g \<noteq> NULL"
      "tmp \<notin> {n, a, P, r, k, l, g}" "n \<notin> {a, P, r, k, l, g}" "a \<notin> {P, r, k, l, g}"
      "P \<notin> {r, l, g}" "P = k \<longrightarrow> P = NULL" "r \<notin> {k, l, g}" "k \<notin> {l, g}"
    and A: "hA = set_avl_child (move_node h n tmp) g (\<not> e) tmp"
    and B: "avl_relink tr (move_node hA a n) P w n = (trB, hB)"
  obtains hC where "avl_remove_exchange tmp tr h a n e = (trB, hC)" "agree (- {a}) hB hC"
proof -
  have ne': "tmp \<noteq> n" "tmp \<noteq> a" "tmp \<noteq> P" "tmp \<noteq> r" "tmp \<noteq> k" "tmp \<noteq> l" "tmp \<noteq> g"
    "n \<noteq> a" "n \<noteq> P" "n \<noteq> r" "n \<noteq> k" "n \<noteq> l" "n \<noteq> g" "a \<noteq> P" "a \<noteq> r" "a \<noteq> k" "a \<noteq> l" "a \<noteq> g"
    "P \<noteq> r" "P \<noteq> l" "P \<noteq> g" "r \<noteq> k" "r \<noteq> l" "r \<noteq> g" "k \<noteq> l" "k \<noteq> g"
    using ne(7-10,12,13) by auto
  note nes = ne' ne'[symmetric] ne(1-6) ne(1-6)[symmetric]
  define h1 where "h1 = upd h tmp (\<lambda>_. h n)"
  define h2 where "h2 = upd h1 n (\<lambda>_. h a)"
  obtain tr4 h4 where R: "avl_relink tr h2 P w n = (tr4, h4)" by (metis prod.exhaust)
  define h5 where "h5 = AVL_SETPARENT h4 l n"
  define h6 where "h6 = AVL_SETPARENT h5 r n"
  define h7 where "h7 = set_avl_child h6 g (\<not> e) tmp"
  define h8 where "h8 = (if k \<noteq> NULL then AVL_SETPARENT h7 k tmp else h7)"
  have f1: "h(tmp := h n) = h1" "h1 a = h a" "h1(n := h a) = h2"
    by (simp_all add: h1_def h2_def upd_def nes)
  have f2: "h2 n = h a" "h2 tmp = h n" by (simp_all add: h1_def h2_def nes)
  have f4: "h4 n = h2 n" "h4 tmp = h2 tmp"
    using R by (auto simp: avl_relink_def avl_upd_defs nes split: if_splits)
  have f6: "h5 n = h a" "h6 tmp = h n" "h7 tmp = h n"
    using f2 f4 by (simp_all add: h7_def h6_def h5_def avl_upd_defs nes)
  have c: "avl_child (h n) (avl_child (h n) True \<noteq> NULL) = k"
    using n by (cases e; cases "k = NULL") auto
  have C: "avl_remove_exchange tmp tr h a n e = (tr4, h8)"
    using n a c by (simp add: avl_remove_exchange_def Let_def f1 f2 f4 f6 R
        h5_def[symmetric] h6_def[symmetric] h7_def[symmetric] h8_def nes)
  have M: "move_node h n tmp = upd (upd h tmp (\<lambda>_. h n))
      k (\<lambda>v. if k \<noteq> NULL then v\<lparr>avl_parent := tmp\<rparr> else v)"
    using move_node_upd[of h n e k NULL tmp] n ne(3) nes by simp
  have hA: "hA a = h a" "hA = upd (move_node h n tmp) g (avl_child_update (\<lambda>f. f((\<not> e) := tmp)))"
    by (simp_all add: A avl_upd_defs M nes)
  have MA: "move_node hA a n = upd (upd (upd hA n (\<lambda>_. h a))
      l (\<lambda>v. v\<lparr>avl_parent := n\<rparr>)) r (\<lambda>v. v\<lparr>avl_parent := n\<rparr>)"
    using move_node_upd[of hA a e l r n] a nes by (simp add: hA(1))
  have tr: "tr4 = trB" using R B by (simp add: relink_upd)
  let ?P = "\<lambda>v. if P \<noteq> NULL then v\<lparr>avl_child := (avl_child v)(w := n)\<rparr> else v"
  have h4: "h4 = upd h2 P ?P"
    and hB: "hB = upd (upd (upd (upd hA n (\<lambda>_. h a)) l (\<lambda>v. v\<lparr>avl_parent := n\<rparr>))
                     r (\<lambda>v. v\<lparr>avl_parent := n\<rparr>)) P ?P"
    using R B by (simp_all add: relink_upd MA)
  note e8 = h8_def h7_def h6_def h5_def h4 h2_def h1_def avl_upd_defs upd_if1
  note eB = hB hA(2) M
  have "hB n = h8 n" "hB tmp = h8 tmp" "hB r = h8 r" by (simp_all add: e8 eB nes)
  moreover have "hB l = h8 l" "hB g = h8 g"
    by (cases "l = g"; simp add: e8 eB nes)
      (cases "l = g"; simp add: e8 eB nes)
  moreover have "hB P = h8 P"
    using ne(11) by (cases "P = k") (simp_all add: e8 eB nes)
  moreover have "hB k = h8 k"
    using ne(11) by (cases "P = k") (simp_all add: e8 eB nes)
  moreover have "hB x = h8 x" if "x \<noteq> a" "x \<notin> {n, tmp, r, l, g}" "x \<noteq> P" "x \<noteq> k" for x
  proof -
    have "x \<noteq> n" "x \<noteq> tmp" "x \<noteq> r" "x \<noteq> l" "x \<noteq> g" using that by auto
    then show ?thesis using that(1,3,4) by (simp add: e8 eB)
  qed
  ultimately have "agree (- {a}) hB h8" unfolding agree_def by (metis ComplD insertCI insertE emptyE)
  then show thesis using C that unfolding tr by blast
qed

end
