(* ===== verification/FB_Avl_Remove.thy ===== *)
theory FB_Avl_Remove
  imports FB_Avl_Exchange
begin

text \<open>
  Removal: a node with two children first changes places with its neighbour on the taller side;
  then the node, which has at most one child, is unlinked and the loop rebalances upwards.
\<close>

section \<open>The exchange\<close>

lemma focus_cong: "agree (nodes (plug p t)) h h' \<Longrightarrow> focus tr h c0 p t \<longleftrightarrow> focus tr h' c0 p t"
  using trep_cong[of t h h'] crep_cong[of p h h'] by (simp add: focus_def nodes_plug)

text \<open>Pointers into disjoint parts of the tree are different, unless they are NULL.\<close>

lemma ppar_notin: "0 \<notin> A \<Longrightarrow> A \<inter> pnodes p = {} \<Longrightarrow> ppar p \<notin> A"
  by (cases p) auto

lemma rootp_ne: "nodes s \<inter> nodes t = {} \<Longrightarrow> rootp s = rootp t \<Longrightarrow> rootp s = NULL"
  by (cases s; cases t) auto

lemma ppar_ne: "pnodes p \<inter> nodes t = {} \<Longrightarrow> ppar p = rootp t \<Longrightarrow> ppar p = NULL"
  by (cases p; cases t) auto

text \<open>Moving the neighbour to \<open>tmp\<close> and then the node to the neighbour's address.\<close>

lemma focus_two_moves:
  assumes F: "focus tr h c0 p (mk e a b (plug q (mk (\<not> e) n nb Leaf M)) R)"
    and tmp: "tmp \<noteq> NULL" "tmp \<notin> nodes (plug p (mk e a b (plug q (mk (\<not> e) n nb Leaf M)) R))"
    and Q: "Q = q @ (e, a, b, R) # p"
    and A: "hA = set_avl_child (move_node h n tmp) (ppar Q) (pidx c0 Q) tmp"
    and B: "avl_relink tr (move_node hA a n) (ppar p) (pidx c0 p) n = (trB, hB)"
  shows "focus trB hB c0 p (mk e n b (plug q (mk (\<not> e) tmp nb Leaf M)) R)"
    and "trB = tr\<lparr>avl_root := rootp (plug p (mk e n b (plug q (mk (\<not> e) tmp nb Leaf M)) R))\<rparr>"
    and "agree (- insert tmp (nodes (plug p (mk e a b (plug q (mk (\<not> e) n nb Leaf M)) R)))) h hB"
proof -
  let ?L = "plug q (mk (\<not> e) n nb Leaf M)" and ?L' = "plug q (mk (\<not> e) tmp nb Leaf M)"
  have FQ: "focus tr h c0 Q (mk (\<not> e) n nb Leaf M)" using F by (simp add: Q focus_append focus_up)
  have "ppar Q \<noteq> NULL" using focusD(2)[OF FQ] crep_ppar[of h c0 n Q] by (simp add: Q)
  then have RA: "avl_relink tr (move_node h n tmp) (ppar Q) (pidx c0 Q) tmp = (tr, hA)"
    by (simp add: avl_relink_def A)
  have tmpQ: "tmp \<notin> nodes (plug Q (mk (\<not> e) n nb Leaf M))" using tmp(2) by (simp add: Q)
  note MA = focus_move[OF FQ tmp(1) tmpQ RA]
  have FA: "focus tr hA c0 p (mk e a b ?L' R)" using MA(1) by (simp add: Q focus_append focus_up)
  have n: "n \<noteq> NULL" using focusD(6)[OF FQ] by auto
  have dist: "distinct (inorder (plug p (mk e a b ?L R)))" using F by (simp add: focus_def)
  then have "n \<notin> nodes (plug p (mk e a b ?L' R))"
    using tmp(2) by (auto simp: distinct_plug nodes_plug)
  note MB = focus_move[OF FA n this B]
  show "focus trB hB c0 p (mk e n b ?L' R)"
    and "trB = tr\<lparr>avl_root := rootp (plug p (mk e n b ?L' R))\<rparr>" using MB by simp_all
  have "insert n (nodes (plug p (mk e a b ?L' R))) = insert tmp (nodes (plug p (mk e a b ?L R)))"
    by (auto simp: nodes_plug)
  with MA(3) MB(3) show "agree (- insert tmp (nodes (plug p (mk e a b ?L R)))) h hB"
    by (auto simp: Q agree_def nodes_plug)
qed

lemma rootp_plug_in: "q \<noteq> [] \<Longrightarrow> rootp (plug q t) \<in> pnodes q"
  by (induction q t rule: plug.induct) (auto, metis list.exhaust mk_simps(2) plug.simps(1))

text \<open>The pointers that take part in the exchange are apart.\<close>

lemma exchange_apart:
  assumes F: "focus tr h c0 p (mk e a b L R)" and R: "R \<noteq> Leaf"
    and tmp: "tmp \<noteq> NULL" "tmp \<notin> nodes (plug p (mk e a b L R))"
    and q: "L = plug q (mk (\<not> e) n nb Leaf M)"
  shows "n \<noteq> NULL" "a \<noteq> NULL" "rootp R \<noteq> NULL"
    and "tmp \<notin> {n, a, ppar p, rootp R, rootp M}" "n \<notin> {a, ppar p, rootp R, rootp M}"
      "a \<notin> {ppar p, rootp R, rootp M}"
    and "ppar p \<noteq> rootp R" "ppar p = rootp M \<longrightarrow> ppar p = NULL" "rootp R \<noteq> rootp M"
    and "0 \<notin> pnodes q" "{tmp, n, a, ppar p, rootp R, rootp M} \<inter> pnodes q = {}"
proof -
  note D = focusD[OF F]
  show z: "n \<noteq> NULL" "a \<noteq> NULL" "rootp R \<noteq> NULL" and zq: "0 \<notin> pnodes q"
    using D(1,6) R trep_rootp[of h a "\<not> e" R] by (auto simp: q nodes_plug)
  have dj: "{tmp, n, a} \<inter> nodes R = {}" "{tmp, n, a} \<inter> nodes M = {}" "{tmp, n, a} \<inter> pnodes p = {}"
    "nodes R \<inter> nodes M = {}" "pnodes p \<inter> nodes R = {}" "pnodes p \<inter> nodes M = {}"
    "tmp \<noteq> n" "tmp \<noteq> a" "n \<noteq> a" and dq: "pnodes q \<inter> nodes R = {}" "pnodes q \<inter> nodes M = {}"
    "pnodes q \<inter> pnodes p = {}" "{tmp, n, a} \<inter> pnodes q = {}"
    using D(3,4) tmp by (auto simp: q nodes_plug distinct_plug)
  have out: "rootp R \<notin> {tmp, n, a}" "rootp M \<notin> {tmp, n, a}" "ppar p \<notin> {tmp, n, a}"
    using rootp_notin[of "{tmp, n, a}"] ppar_notin[of "{tmp, n, a}" p] tmp(1) z dj by simp_all
  then show "tmp \<notin> {n, a, ppar p, rootp R, rootp M}" "n \<notin> {a, ppar p, rootp R, rootp M}"
    "a \<notin> {ppar p, rootp R, rootp M}" using dj(7-9) by auto
  show "ppar p \<noteq> rootp R" "ppar p = rootp M \<longrightarrow> ppar p = NULL" "rootp R \<noteq> rootp M"
    using rootp_ne[OF dj(4)] ppar_ne[OF dj(5)] ppar_ne[OF dj(6)] z by auto
  show "{tmp, n, a, ppar p, rootp R, rootp M} \<inter> pnodes q = {}"
    using rootp_notin[OF zq dq(1)] rootp_notin[OF zq dq(2)] ppar_notin[OF zq dq(3)] dq(4) by simp
qed

lemma exchange_as_moves:
  assumes F: "focus tr h c0 p (mk e a b L R)" and R: "R \<noteq> Leaf"
    and tmp: "tmp \<noteq> NULL" "tmp \<notin> nodes (plug p (mk e a b L R))"
    and q: "L = plug q (mk (\<not> e) n nb Leaf M)" "\<forall>x\<in>set q. fst x = (\<not> e)"
    and Q: "Q = q @ (e, a, b, R) # p"
    and A: "hA = set_avl_child (move_node h n tmp) (ppar Q) (pidx c0 Q) tmp"
    and B: "avl_relink tr (move_node hA a n) (ppar p) (pidx c0 p) n = (trB, hB)"
  shows "\<exists>hC. avl_remove_exchange tmp tr h a n e = (trB, hC) \<and> agree (- {a}) hB hC"
proof -
  have FQ: "focus tr h c0 Q (mk (\<not> e) n nb Leaf M)"
    using F by (simp add: Q q(1) focus_append focus_up)
  note ap = exchange_apart[OF F R tmp q(1)]
  have fn: "avl_child (h n) e = rootp M" "avl_child (h n) (\<not> e) = NULL"
    "avl_parent (h n) = ppar Q" "avl_child_index (h n) = pidx c0 Q"
    using focusD(1)[OF FQ] by simp_all
  have fa: "avl_child (h a) e = rootp L" "avl_child (h a) (\<not> e) = rootp R"
    "avl_parent (h a) = ppar p" "avl_child_index (h a) = pidx c0 p"
    using focusD(1)[OF F] by simp_all
  show ?thesis
  proof (cases q)
    case Nil
    then have Q': "ppar Q = a" "pidx c0 Q = e" "rootp L = n" by (simp_all add: Q q(1))
    show ?thesis
      using exchange_near[OF fn(1,2) fn(3,4)[unfolded Q'] fa[unfolded Q'] ap(1,3) tmp(1) ap(2,4-9)
          A[unfolded Q'] B] by blast
  next
    case (Cons x q')
    then obtain g gb G where q': "q = (\<not> e, g, gb, G) # q'" using q(2) by (cases x) auto
    then have Q': "ppar Q = g" "pidx c0 Q = (\<not> e)" by (simp_all add: Q)
    have lg: "rootp L \<in> pnodes q" "g \<in> pnodes q"
      using rootp_plug_in[of q] q' by (simp_all add: q(1))
    have ne: "tmp \<notin> {n, a, ppar p, rootp R, rootp M, rootp L, g}"
      "n \<notin> {a, ppar p, rootp R, rootp M, rootp L, g}" "a \<notin> {ppar p, rootp R, rootp M, rootp L, g}"
      "ppar p \<notin> {rootp R, rootp L, g}" "rootp R \<notin> {rootp M, rootp L, g}" "rootp M \<notin> {rootp L, g}"
      using lg ap(4-11) by auto
    have nz: "rootp L \<noteq> NULL" "g \<noteq> NULL" using lg ap(10) by metis+
    show ?thesis
      using exchange_far[OF fn(1,2) fn(3,4)[unfolded Q'] fa ap(1,3) tmp(1) ap(2) nz ne(1-4) ap(8)
          ne(5,6) A[unfolded Q'] B] by blast
  qed
qed

lemma focus_exchange:
  assumes F: "focus tr h c0 p (mk e a b L R)" and R: "R \<noteq> Leaf"
    and tmp: "tmp \<noteq> NULL" "tmp \<notin> nodes (plug p (mk e a b L R))"
    and q: "L = plug q (mk (\<not> e) n nb Leaf M)" "\<forall>x\<in>set q. fst x = (\<not> e)"
  obtains tr1 h1 where "avl_remove_exchange tmp tr h a n e = (tr1, h1)"
    "focus tr1 h1 c0 p (mk e n b (plug q (mk (\<not> e) tmp nb Leaf M)) R)"
    "tr1 = tr\<lparr>avl_root := rootp (plug p (mk e n b (plug q (mk (\<not> e) tmp nb Leaf M)) R))\<rparr>"
    "agree (- insert tmp (nodes (plug p (mk e a b L R)))) h h1"
proof -
  define Q where "Q = q @ (e, a, b, R) # p"
  define hA where "hA = set_avl_child (move_node h n tmp) (ppar Q) (pidx c0 Q) tmp"
  obtain trB hB where B: "avl_relink tr (move_node hA a n) (ppar p) (pidx c0 p) n = (trB, hB)"
    by (metis prod.exhaust)
  note M = focus_two_moves[OF F[unfolded q(1)] tmp[unfolded q(1)] Q_def hA_def B]
  obtain hC where C: "avl_remove_exchange tmp tr h a n e = (trB, hC)" "agree (- {a}) hB hC"
    using exchange_as_moves[OF F R tmp q Q_def hA_def B] by blast
  have a: "a \<notin> nodes (plug p (mk e n b (plug q (mk (\<not> e) tmp nb Leaf M)) R))"
    using focusD(3,4)[OF F] tmp(2) by (auto simp: q(1) nodes_plug distinct_plug)
  have "focus trB hC c0 p (mk e n b (plug q (mk (\<not> e) tmp nb Leaf M)) R)"
    using M(1) focus_cong[of p _ hB hC] C(2) a by (metis agree_mono subset_Compl_singleton)
  moreover have "agree (- insert tmp (nodes (plug p (mk e a b L R)))) h hC"
    using M(3) C(2) by (auto simp: agree_def q(1) nodes_plug)
  ultimately show thesis using that C(1) M(2) by blast
qed

section \<open>Unlinking and rebalancing\<close>

lemma avl_unlink_refines:
  assumes F: "focus tr h c0 p (mk d x xb Leaf M)" and n: "avl_numnodes_fld tr \<noteq> 0"
    and P: "path_bal p" "path_rot_ok p"
  obtains tr' h' where "avl_unlink tr h x = Some (tr', h')" "focus tr' h' c0 [] (del_up p M)"
    "avl_numnodes_fld tr' = avl_numnodes_fld tr - 1" "avl_offset tr' = avl_offset tr"
    "agree (- nodes (plug p (mk d x xb Leaf M))) h h'"
proof -
  note D = focusD[OF F]
  let ?tr = "tr\<lparr>avl_numnodes_fld := avl_numnodes_fld tr - 1\<rparr>" and ?n = "rootp M"
  let ?h1 = "if ?n \<noteq> NULL then AVL_SETCHILD (AVL_SETPARENT h ?n (ppar p)) ?n (pidx c0 p) else h"
  have x: "avl_child (h x) d = NULL" "avl_child (h x) (\<not> d) = ?n" "avl_parent (h x) = ppar p"
    "avl_child_index (h x) = pidx c0 p" "trep h x (\<not> d) M" "distinct (inorder M)"
    using D(1,3) by simp_all
  have node: "(if avl_child (h x) False \<noteq> NULL then avl_child (h x) False else avl_child (h x) True) = ?n"
    using x by (cases d) auto
  have T: "trep ?h1 (ppar p) (pidx c0 p) M"
    by (rule trep_reparent[OF x(5,6)])
      (use trep_rootp[OF x(5)] in \<open>auto simp: avl_upd_defs\<close>)
  have A2: "agree (- nodes M) h ?h1"
    using rootp_in[of M] trep_rootp[OF x(5)] by (auto simp: avl_upd_defs)
  have A: "agree (pnodes p) h ?h1" by (rule agree_mono[OF A2]) (use D(4) in auto)
  have I: "distinct (inorder (plug p M))" using F by (auto simp: focus_def distinct_plug)
  obtain tr2 h2 where R: "avl_relink ?tr ?h1 (ppar p) (pidx c0 p) ?n = (tr2, h2)"
    by (metis prod.exhaust)
  note L = focus_relink[OF F A T I _ R, simplified]
  obtain tr' h' where E: "(if p = [] then Some (tr2, h2) else avl_remove_loop tr2 h2 (ppar p) (pidx c0 p)) = Some (tr', h')"
    "rebalanced tr2 h2 c0 [] (plug p M) (del_up p M) tr' h'"
    using avl_remove_loop_refines[OF L(1) P] rebalanced_refl[OF L(1)] by (cases "p = []") auto
  have pp: "ppar p = NULL \<longleftrightarrow> p = []" using crep_ppar[OF D(2)] .
  have "avl_unlink tr h x = Some (tr', h')"
    using E(1) R n pp unfolding avl_unlink_def Let_def node x(3,4)
    by (cases "p = []") (simp_all add: avl_relink_def)
  moreover have "agree (- nodes (plug p (mk d x xb Leaf M))) h h'"
    using A2 L(3) E(2) by (auto simp: rebalanced_def agree_def nodes_plug)
  moreover have "avl_numnodes_fld tr' = avl_numnodes_fld tr - 1" "avl_offset tr' = avl_offset tr"
    using E(2) L(2) unfolding rebalanced_def by simp_all
  ultimately show thesis using that rebalancedD[OF E(2)] by blast
qed

lemma path_avl_key:
  "path_avl (q @ (e, a, b, R) # p) k \<longleftrightarrow> path_avl (q @ (e, a', b, R) # p) k"
  by (induction q k rule: path_avl.induct) auto

lemma avl_unlink_rep:
  assumes F: "focus tr h c0 p (mk d x xb Leaf M)" and P: "path_avl p (Suc (height M))" and M: "avl M"
    and n: "avl_numnodes_fld tr = Suc (length (before p @ inorder M @ after p))"
  obtains tr' h' where "avl_unlink tr h x = Some (tr', h')" "avl_rep tr' h' (del_up p M)"
    "inorder (del_up p M) = before p @ inorder M @ after p" "avl_offset tr' = avl_offset tr"
    "agree (- nodes (plug p (mk d x xb Leaf M))) h h'"
proof -
  note ok = path_rot_ok_avl[OF P, simplified]
  have io: "inorder (del_up p M) = before p @ inorder M @ after p"
    using inorder_del_up[OF ok] by (simp add: inorder_plug)
  obtain tr' h' where U: "avl_unlink tr h x = Some (tr', h')" "focus tr' h' c0 [] (del_up p M)"
    "avl_numnodes_fld tr' = avl_numnodes_fld tr - 1" "avl_offset tr' = avl_offset tr"
    "agree (- nodes (plug p (mk d x xb Leaf M))) h h'"
    using avl_unlink_refines[OF F _ path_bal_avl[OF P] ok] n by (metis nat.distinct(1))
  moreover have "avl_rep tr' h' (del_up p M)"
    using U(2,3) del_up_avl[OF M P] n io by (auto simp: avl_rep_def)
  ultimately show thesis using that io by blast
qed

lemma straight_sides:
  "\<forall>x\<in>set q. fst x = True \<Longrightarrow> after q = []" "\<forall>x\<in>set q. fst x = False \<Longrightarrow> before q = []"
  by (induction q) auto

text \<open>Exchanging and unlinking a node with two children.\<close>

lemma avl_remove_two_children:
  assumes F: "focus tr h c0 p (mk e a b L R)" and LR: "L \<noteq> Leaf" "R \<noteq> Leaf"
    and avl: "avl (plug p (mk e a b L R))" and e: "e = avl_balance2child (b + 1)"
    and num: "avl_numnodes_fld tr = length (inorder (plug p (mk e a b L R)))"
    and tmp: "tmp \<noteq> NULL" "tmp \<notin> nodes (plug p (mk e a b L R))"
  obtains tr' h' T' where
    "Option.bind (avl_remove_swap tmp tr h a) (\<lambda>(tr, h, x). avl_unlink tr h x) = Some (tr', h')"
    "avl_rep tr' h' T'" "avl_offset tr' = avl_offset tr"
    "inorder T' = before p @ (if e then inorder R @ inorder L else inorder L @ inorder R) @ after p"
    "agree (- insert tmp (nodes (plug p (mk e a b L R)))) h h'"
proof -
  obtain q n nb M where q: "L = plug q (mk (\<not> e) n nb Leaf M)" "\<forall>x\<in>set q. fst x = (\<not> e)"
    using neighbour_split[OF LR(1)] by metis
  obtain tr1 h1 where E: "avl_remove_exchange tmp tr h a n e = (tr1, h1)"
    "focus tr1 h1 c0 p (mk e n b (plug q (mk (\<not> e) tmp nb Leaf M)) R)"
    "tr1 = tr\<lparr>avl_root := rootp (plug p (mk e n b (plug q (mk (\<not> e) tmp nb Leaf M)) R))\<rparr>"
    "agree (- insert tmp (nodes (plug p (mk e a b L R)))) h h1"
    using focus_exchange[OF F LR(2) tmp q] by blast
  let ?Q = "q @ (e, n, b, R) # p"
  have FQ: "focus tr1 h1 c0 ?Q (mk (\<not> e) tmp nb Leaf M)"
    using E(2) by (simp add: focus_append focus_up)
  have "avl (plug (q @ (e, a, b, R) # p) (mk (\<not> e) n nb Leaf M))" using avl by (simp add: q(1))
  then have P: "path_avl ?Q (Suc (height M))" "avl M"
    unfolding avl_plug path_avl_key[of q e a b R p _ n] by simp_all
  have io: "before ?Q @ inorder M @ after ?Q =
      before p @ (if e then inorder R @ inorder L else inorder L @ inorder R) @ after p"
    using straight_sides[of q] q by (cases e) (auto simp: before_append after_append inorder_plug mk_def)
  have "avl_numnodes_fld tr1 = Suc (length (before ?Q @ inorder M @ after ?Q))"
    unfolding io using num by (simp add: E(3) inorder_plug)
  then obtain tr' h' where U: "avl_unlink tr1 h1 tmp = Some (tr', h')" "avl_rep tr' h' (del_up ?Q M)"
    "inorder (del_up ?Q M) = before ?Q @ inorder M @ after ?Q" "avl_offset tr' = avl_offset tr1"
    "agree (- nodes (plug ?Q (mk (\<not> e) tmp nb Leaf M))) h1 h'"
    using avl_unlink_rep[OF FQ P] by metis
  have D: "trep h a e L" "avl_child (h a) e = rootp L" "avl_child (h a) (\<not> e) = rootp R"
    "avl_balance (h a) = b" "rootp L \<noteq> NULL" "rootp R \<noteq> NULL"
    using focusD(1)[OF F] LR trep_rootp[of h a e L] trep_rootp[of h a "\<not> e" R] by simp_all
  have "hd0 (dir e (inorder L)) = n"
    using pside_straight[OF q(2)] by (simp add: q(1) dir_plug dir_mk)
  then have "avl_descend h (\<not> e) (rootp L) = Some n" using avl_descend_refines[OF D(1) LR(1), of e] by simp
  then have "avl_remove_swap tmp tr h a = Some (tr1, h1, tmp)"
    using D E(1) e by (cases e) (simp_all add: avl_remove_swap_def Let_def)
  moreover have "agree (- insert tmp (nodes (plug p (mk e a b L R)))) h h'"
    using E(4) U(5) by (auto simp: agree_def nodes_plug q(1))
  ultimately show thesis using that U io by (simp add: E(3))
qed

lemma avl_remove_refines:
  assumes rep: "avl_rep tr h T" and io: "inorder T = xs @ a # ys"
    and a: "AVL_DATA2NODE d (avl_offset tr) = a"
    and tmp: "tmp \<noteq> NULL" "tmp \<notin> nodes T"
  obtains tr' h' T' where "avl_remove tmp tr h d = Some (tr', h')" "avl_rep tr' h' T'"
    "inorder T' = xs @ ys" "agree (- insert tmp (nodes T)) h h'" "avl_offset tr' = avl_offset tr"
proof -
  obtain p l b r where T: "T = plug p (Node l a b r)" and s: "xs = before p @ inorder l"
    "ys = inorder r @ after p" using tree_split[OF io] by blast
  obtain c0 where F: "focus tr h c0 p (Node l a b r)"
    using rep focus_root unfolding T avl_rep_def by blast
  have avl: "avl (plug p (Node l a b r))"
    and num: "avl_numnodes_fld tr = length (inorder (plug p (Node l a b r)))"
    using avl_repD(1,4)[OF rep] T by simp_all
  show thesis
  proof (cases "l \<noteq> Leaf \<and> r \<noteq> Leaf")
    case False
    define e where "e = (l \<noteq> Leaf)"
    define M where "M = (if e then l else r)"
    have m: "Node l a b r = mk e a b Leaf M" "inorder l @ inorder r = inorder M"
      using False by (auto simp: mk_def e_def M_def)
    have P: "path_avl p (Suc (height M))" "avl M" using avl by (simp_all add: m avl_plug)
    have n: "avl_numnodes_fld tr = Suc (length (before p @ inorder M @ after p))"
      using num unfolding m(1) by (simp add: inorder_plug)
    have "avl_remove_swap tmp tr h a = Some (tr, h, a)"
      using False focusD(1)[OF F] by (auto simp: avl_remove_swap_def)
    moreover obtain tr' h' where "avl_unlink tr h a = Some (tr', h')" "avl_rep tr' h' (del_up p M)"
      "inorder (del_up p M) = before p @ inorder M @ after p" "avl_offset tr' = avl_offset tr"
      "agree (- nodes (plug p (mk e a b Leaf M))) h h'"
      using avl_unlink_rep[OF F[unfolded m(1)] P n] by blast
    ultimately show thesis
      using that[of tr' h' "del_up p M"] m(2)[symmetric] s
      by (simp add: avl_remove_def a T m(1) agree_def)
  next
    case True
    define e where "e = avl_balance2child (b + 1)"
    define L where "L = (if e then r else l)"
    define R where "R = (if e then l else r)"
    have m: "Node l a b r = mk e a b L R" by (simp add: mk_def L_def R_def)
    have LR: "L \<noteq> Leaf" "R \<noteq> Leaf" using True by (simp_all add: L_def R_def)
    obtain tr' h' T' where
      "Option.bind (avl_remove_swap tmp tr h a) (\<lambda>(tr, h, x). avl_unlink tr h x) = Some (tr', h')"
      "avl_rep tr' h' T'" "avl_offset tr' = avl_offset tr"
      "inorder T' = before p @ (if e then inorder R @ inorder L else inorder L @ inorder R) @ after p"
      "agree (- insert tmp (nodes (plug p (mk e a b L R)))) h h'"
      using avl_remove_two_children[OF F[unfolded m] LR avl[unfolded m] e_def num[unfolded m]
          tmp[unfolded T m]] by blast
    moreover have "(if e then inorder R @ inorder L else inorder L @ inorder R) = inorder l @ inorder r"
      by (simp add: L_def R_def)
    ultimately show thesis using that[of tr' h' T'] s by (simp add: avl_remove_def a T m)
  qed
qed

lemma avl_remove_holds:
  assumes H: "avl_holds key tr h ds" and d: "d \<in> set ds"
    and tmp: "tmp \<noteq> NULL" "tmp \<notin> footprint (avl_offset tr) (set ds)"
  obtains tr' h' where "avl_remove tmp tr h d = Some (tr', h')" "avl_holds key tr' h' (remove1 d ds)"
    "avl_offset tr' = avl_offset tr" "agree (- insert tmp (footprint (avl_offset tr) (set ds))) h h'"
proof -
  let ?off = "avl_offset tr" and ?m = "map (\<lambda>n. AVL_NODE2DATA n (avl_offset tr))"
  obtain T where T: "avl_rep tr h T" "\<forall>n\<in>nodes T. ?off < n" "ds = tdata ?off T"
    and S: "sorted_keys key ds" using H by (auto simp: avl_holds_def)
  obtain xs ys where ds: "ds = xs @ d # ys" "d \<notin> set xs" using d split_list_first by metis
  then obtain ns a ms where I: "inorder T = ns @ a # ms"
    and m: "?m ns = xs" "AVL_NODE2DATA a ?off = d" "?m ms = ys"
    using T(3) by (auto simp: tdata_def map_eq_append_conv map_eq_Cons_conv Cons_eq_map_conv append_eq_map_conv)
  have a: "AVL_DATA2NODE d ?off = a" using T(2) I m(2)
    by (auto simp: AVL_DATA2NODE_def AVL_NODE2DATA_def)
  have fp: "footprint ?off (set ds) = nodes T" using footprint_tdata[OF T(2)] T(3) by simp
  obtain tr' h' T' where R: "avl_remove tmp tr h d = Some (tr', h')" "avl_rep tr' h' T'"
    "inorder T' = ns @ ms" "agree (- insert tmp (nodes T)) h h'" "avl_offset tr' = ?off"
    using avl_remove_refines[OF T(1) I a tmp(1)] tmp(2) fp by metis
  have r: "remove1 d ds = tdata ?off T'" using ds m by (simp add: tdata_def R(3) remove1_append)
  have "sorted_keys key (remove1 d ds)"
    using S by (auto simp: ds remove1_append sorted_keys_def sorted_wrt_append)
  moreover have "\<forall>n\<in>nodes T'. ?off < n" using T(2) by (auto simp: R(3) I)
  ultimately have "avl_holds key tr' h' (remove1 d ds)"
    unfolding avl_holds_def using R(2,5) r by auto
  then show thesis using that R fp by simp
qed

end
