(* ===== verification/FB_Container.thy ===== *)
theory FB_Container
  imports FB_Avl_Remove
begin

text \<open>
  The interface between the AVL trees and their clients: a family of ordered containers that
  share one heap. \<open>ordered_container\<close> states what an operation on one container promises for
  that container and for the others; the lemma on moving an object between two containers is
  proved from these laws alone. The AVL trees of one offset are an instance.
\<close>

locale ordered_container =
  fixes key :: "ptr \<Rightarrow> int"
    and holds :: "'t \<Rightarrow> 'h \<Rightarrow> ptr list \<Rightarrow> bool"
    and valid :: "ptr \<Rightarrow> bool"
    and add :: "'t \<Rightarrow> 'h \<Rightarrow> ptr \<Rightarrow> ('t \<times> 'h) option"
    and rem :: "'t \<Rightarrow> 'h \<Rightarrow> ptr \<Rightarrow> ('t \<times> 'h) option"
    and vkey :: "'v \<Rightarrow> int"
    and search :: "'t \<Rightarrow> 'h \<Rightarrow> 'v \<Rightarrow> ptr option"
    and first :: "'t \<Rightarrow> 'h \<Rightarrow> ptr option"
    and succ :: "'t \<Rightarrow> 'h \<Rightarrow> ptr \<Rightarrow> ptr option"
  assumes sorted: "holds t h ds \<Longrightarrow> sorted_keys key ds"
    and held_valid: "holds t h ds \<Longrightarrow> d \<in> set ds \<Longrightarrow> valid d"
    and valid_nonnull: "valid d \<Longrightarrow> d \<noteq> NULL"
    and add_ok: "holds t h ds \<Longrightarrow> valid d \<Longrightarrow> key d \<notin> key ` set ds \<Longrightarrow>
      \<exists>t' h'. add t h d = Some (t', h') \<and> holds t' h' (insort_key key d ds) \<and>
        (\<forall>u es. holds u h es \<longrightarrow> set es \<inter> insert d (set ds) = {} \<longrightarrow> holds u h' es)"
    and rem_ok: "holds t h ds \<Longrightarrow> d \<in> set ds \<Longrightarrow>
      \<exists>t' h'. rem t h d = Some (t', h') \<and> holds t' h' (remove1 d ds) \<and>
        (\<forall>u es. holds u h es \<longrightarrow> set es \<inter> set ds = {} \<longrightarrow> holds u h' es)"
    and search_ok: "holds t h ds \<Longrightarrow>
      search t h v = Some (hd0 (filter (\<lambda>x. vkey v \<le> key x) ds @ ds))"
    and first_ok: "holds t h ds \<Longrightarrow> first t h = Some (hd0 ds)"
    and succ_ok: "holds t h (xs @ x # ys) \<Longrightarrow> succ t h x = Some (hd0 ys)"
begin

lemma distinct_holds: "holds t h ds \<Longrightarrow> distinct ds"
proof -
  assume "holds t h ds"
  then have "sorted_wrt (<) (map key ds)" using sorted by (simp add: sorted_keys_def)
  then show "distinct ds" using strict_sorted_iff[of "map key ds"] distinct_map by blast
qed

lemma inj_holds: "holds t h ds \<Longrightarrow> inj_on key (set ds)"
  using sorted[unfolded sorted_keys_def] strict_sorted_iff distinct_map by blast

text \<open>Moving an object from one container to another.\<close>

lemma move_ok:
  assumes H: "holds t h ds" "holds u h es" and dj: "set ds \<inter> set es = {}"
    and d: "d \<in> set ds" "key d \<notin> key ` set es"
  obtains t' u' h' where
    "Option.bind (rem t h d) (\<lambda>(t, h). map_option (\<lambda>(u, h). (t, u, h)) (add u h d)) =
       Some (t', u', h')"
    "holds t' h' (remove1 d ds)" "holds u' h' (insort_key key d es)"
    "\<And>v vs. holds v h vs \<Longrightarrow> set vs \<inter> (set ds \<union> set es) = {} \<Longrightarrow> holds v h' vs"
proof -
  obtain t' h1 where R: "rem t h d = Some (t', h1)" "holds t' h1 (remove1 d ds)"
    "\<And>v vs. holds v h vs \<Longrightarrow> set vs \<inter> set ds = {} \<Longrightarrow> holds v h1 vs"
    using rem_ok[OF H(1) d(1)] by blast
  have u1: "holds u h1 es" using R(3)[OF H(2)] dj by blast
  obtain u' h' where A: "add u h1 d = Some (u', h')" "holds u' h' (insort_key key d es)"
    "\<And>v vs. holds v h1 vs \<Longrightarrow> set vs \<inter> insert d (set es) = {} \<Longrightarrow> holds v h' vs"
    using add_ok[OF u1 held_valid[OF H(1) d(1)] d(2)] by blast
  have "set (remove1 d ds) = set ds - {d}" using distinct_holds[OF H(1)] by simp
  then have "holds t' h' (remove1 d ds)" using A(3)[OF R(2)] dj by blast
  moreover have "holds v h' vs" if "holds v h vs" "set vs \<inter> (set ds \<union> set es) = {}" for v vs
    using A(3)[OF R(3)[OF that(1)]] that(2) d(1) by blast
  ultimately show thesis using that R(1) A(1,2) by simp
qed

end

section \<open>AVL trees as ordered containers\<close>

text \<open>
  The AVL trees whose node is at offset \<open>off\<close> in an object, ordered by \<open>key\<close>. \<open>tmp\<close> is the
  address of the local node that \<^verbatim>\<open>avl_remove\<close> uses; it is not the node of any object. An
  object address is 8-aligned, as \<^verbatim>\<open>avl_insert\<close> requires.
\<close>

definition avl_object :: "nat \<Rightarrow> ptr \<Rightarrow> ptr \<Rightarrow> bool" where
  "avl_object off tmp d \<longleftrightarrow> d \<noteq> NULL \<and> d mod 8 = 0 \<and> AVL_DATA2NODE d off \<noteq> tmp"

definition avl_family ::
  "(ptr \<Rightarrow> int) \<Rightarrow> nat \<Rightarrow> ptr \<Rightarrow> avl_tree \<Rightarrow> avl_heap \<Rightarrow> ptr list \<Rightarrow> bool" where
  "avl_family key off tmp t h ds \<longleftrightarrow>
     avl_holds key t h ds \<and> avl_offset t = off \<and> tmp \<noteq> NULL \<and> (\<forall>d\<in>set ds. avl_object off tmp d)"

text \<open>An exact search, then the nearest higher object, then the first: how a client picks the
  object with a given key or the one after it.\<close>

definition avl_search :: "('v \<Rightarrow> ptr \<Rightarrow> int) \<Rightarrow> avl_tree \<Rightarrow> avl_heap \<Rightarrow> 'v \<Rightarrow> ptr option" where
  "avl_search compar t h v =
     Option.bind (avl_find compar t h v) (\<lambda>(found, where').
       if found \<noteq> NULL then Some found
       else Option.bind where' (\<lambda>w. Option.bind (avl_nearest t h w True) (\<lambda>found.
         if found \<noteq> NULL then Some found else avl_first t h)))"

lemma avl_holds_nonnull: "avl_holds key t h ds \<Longrightarrow> 0 \<notin> set ds"
  by (force simp: avl_holds_def tdata_def AVL_NODE2DATA_def)

lemma avl_holds_numnodes: "avl_holds key t h ds \<Longrightarrow> avl_numnodes t = length ds"
  using avl_repD(4) by (auto simp: avl_holds_def avl_numnodes_def tdata_def)

lemma hd0_null: "hd0 xs = NULL \<longleftrightarrow> xs = []" if "0 \<notin> set xs"
  using that by (cases xs) auto

lemma avl_search_holds:
  assumes H: "avl_holds key t h ds" and C: "compar_ok compar vkey key"
  shows "avl_search compar t h v = Some (hd0 (filter (\<lambda>x. vkey v \<le> key x) ds @ ds))"
proof (cases "vkey v \<in> key ` set ds")
  case True
  then obtain xs d ys where ds: "ds = xs @ d # ys" "vkey v = key d" by (metis imageE split_list)
  have lt: "\<forall>x\<in>set xs. key x < key d" "d \<noteq> NULL"
    using H avl_holds_nonnull[OF H] by (auto simp: ds avl_holds_def sorted_keys_def sorted_wrt_append)
  then have "filter (\<lambda>x. vkey v \<le> key x) xs = []" by (fastforce simp: filter_empty_conv ds(2))
  then have "filter (\<lambda>x. vkey v \<le> key x) ds = d # filter (\<lambda>x. vkey v \<le> key x) ys"
    by (simp add: ds)
  moreover have "avl_find compar t h v = Some (d, Some (NULL, False))"
    using avl_find_holds(1)[OF H C] by (simp add: ds)
  ultimately show ?thesis using lt(2) by (simp add: avl_search_def)
next
  case False
  then have le: "filter (\<lambda>x. vkey v \<le> key x) ds = filter (\<lambda>x. vkey v < key x) ds"
    by (auto simp: order_le_less intro!: filter_cong)
  obtain w where w: "avl_find compar t h v = Some (NULL, Some w)"
    "avl_nearest t h w True = Some (hd0 (filter (\<lambda>x. vkey v < key x) ds))"
    using avl_nearest_holds[OF H C False] by blast
  have "0 \<notin> set (filter (\<lambda>x. vkey v < key x) ds)" using avl_holds_nonnull[OF H] by auto
  from hd0_null[OF this] w show ?thesis
    unfolding le by (auto simp: avl_search_def hd0_append avl_ends_hold(1)[OF H])
qed

text \<open>The other trees of the family are not touched.\<close>

lemma avl_holds_frame:
  assumes "avl_holds key u h es" "agree (footprint (avl_offset u) (set es)) h h'"
  shows "avl_holds key u h' es"
proof -
  obtain T where T: "avl_rep u h T" "\<forall>n\<in>nodes T. avl_offset u < n" "es = tdata (avl_offset u) T"
    and S: "sorted_keys key es" using assms(1) by (auto simp: avl_holds_def)
  have "agree (nodes T) h h'" using assms(2) footprint_tdata[OF T(2)] T(3) by simp
  then have "avl_rep u h' T" using avl_rep_cong T(1) by blast
  then show ?thesis using T S by (auto simp: avl_holds_def)
qed

lemma footprint_disjoint:
  "A \<inter> B = {} \<Longrightarrow> footprint off A \<inter> footprint off B = {}"
  by (auto simp: footprint_def AVL_DATA2NODE_def)

lemma avl_family_frame:
  assumes "avl_family key off tmp u h es" "agree (- X) h h'"
    and "X \<subseteq> insert tmp (footprint off D)" "set es \<inter> D = {}"
  shows "avl_family key off tmp u h' es"
proof -
  have "footprint off (set es) \<inter> X = {}"
    using assms(1,3) footprint_disjoint[OF assms(4), of off]
    by (auto simp: avl_family_def avl_object_def footprint_def)
  then have "agree (footprint off (set es)) h h'" using assms(2) by (auto simp: agree_def)
  then show ?thesis using assms(1) avl_holds_frame[of key u h es h'] by (auto simp: avl_family_def)
qed

lemma avl_ordered_container:
  assumes "compar_ok compar key key" "compar_ok vcompar vkey key"
  shows "ordered_container key (avl_family key off tmp) (avl_object off tmp) (avl_add compar)
    (avl_remove tmp) vkey (avl_search vcompar) avl_first (\<lambda>t h x. avl_walk t h x True)"
proof
  fix t h ds d
  assume H: "avl_family key off tmp t h ds"
  then have A: "avl_holds key t h ds" "avl_offset t = off" "tmp \<noteq> NULL" "\<forall>d\<in>set ds. avl_object off tmp d"
    by (simp_all add: avl_family_def)
  show "sorted_keys key ds" using A(1) by (simp add: avl_holds_def)
  show "avl_object off tmp d" if "d \<in> set ds" using A(4) that by blast
  show "avl_search vcompar t h v = Some (hd0 (filter (\<lambda>x. vkey v \<le> key x) ds @ ds))" for v
    using avl_search_holds[OF A(1) assms(2)] .
  show "avl_first t h = Some (hd0 ds)" using avl_ends_hold(1)[OF A(1)] .
  show "\<exists>t' h'. avl_add compar t h d = Some (t', h') \<and>
      avl_family key off tmp t' h' (insort_key key d ds) \<and>
      (\<forall>u es. avl_family key off tmp u h es \<longrightarrow> set es \<inter> insert d (set ds) = {} \<longrightarrow>
         avl_family key off tmp u h' es)"
    if v: "avl_object off tmp d" and k: "key d \<notin> key ` set ds"
  proof -
    have d: "d \<noteq> NULL" "d mod 8 = 0" using v by (simp_all add: avl_object_def)
    obtain t' h' where R: "avl_add compar t h d = Some (t', h')"
      "avl_holds key t' h' (insort_key key d ds)" "avl_offset t' = off"
      "agree (- footprint off (insert d (set ds))) h h'"
      using avl_add_holds[OF A(1) assms(1) d k] A(2) by metis
    moreover have "avl_family key off tmp u h' es"
      if "avl_family key off tmp u h es" "set es \<inter> insert d (set ds) = {}" for u es
      using avl_family_frame[OF that(1) R(4) _ that(2)] by blast
    ultimately show ?thesis using A v by (auto simp: avl_family_def set_insort_key)
  qed
  show "\<exists>t' h'. avl_remove tmp t h d = Some (t', h') \<and>
      avl_family key off tmp t' h' (remove1 d ds) \<and>
      (\<forall>u es. avl_family key off tmp u h es \<longrightarrow> set es \<inter> set ds = {} \<longrightarrow>
         avl_family key off tmp u h' es)" if d: "d \<in> set ds"
  proof -
    have tmp: "tmp \<notin> footprint (avl_offset t) (set ds)"
      using A(2,4) by (auto simp: footprint_def avl_object_def)
    obtain t' h' where R: "avl_remove tmp t h d = Some (t', h')"
      "avl_holds key t' h' (remove1 d ds)" "avl_offset t' = off"
      "agree (- insert tmp (footprint off (set ds))) h h'"
      using avl_remove_holds[OF A(1) d A(3) tmp] A(2) by metis
    moreover have "avl_family key off tmp u h' es"
      if "avl_family key off tmp u h es" "set es \<inter> set ds = {}" for u es
      using avl_family_frame[OF that(1) R(4) _ that(2)] by blast
    moreover have "\<forall>x\<in>set (remove1 d ds). avl_object off tmp x"
      using A(4) set_remove1_subset[of d ds] by blast
    ultimately show ?thesis using A by (auto simp: avl_family_def)
  qed
next
  show "avl_walk t h x True = Some (hd0 ys)" if "avl_family key off tmp t h (xs @ x # ys)" for t h xs x ys
    using that avl_walk_holds(1) by (auto simp: avl_family_def)
  show "d \<noteq> NULL" if "avl_object off tmp d" for d using that by (simp add: avl_object_def)
qed

text \<open>The comparison by a key, which is what a comparison function that satisfies the contract of
  \<^verbatim>\<open>avl_create\<close> computes.\<close>

definition key_compar :: "('v \<Rightarrow> int) \<Rightarrow> (ptr \<Rightarrow> int) \<Rightarrow> 'v \<Rightarrow> ptr \<Rightarrow> int" where
  "key_compar vkey key v d = (if vkey v < key d then -1 else if vkey v > key d then 1 else 0)"

lemma compar_ok_iff: "compar_ok compar vkey key \<longleftrightarrow> compar = key_compar vkey key"
  by (auto simp: compar_ok_def key_compar_def fun_eq_iff)

interpretation avl: ordered_container key "avl_family key off tmp" "avl_object off tmp"
  "avl_add (key_compar key key)" "avl_remove tmp" vkey "avl_search (key_compar vkey key)" avl_first
  "\<lambda>t h x. avl_walk t h x True" for key off tmp vkey
  by (rule avl_ordered_container) (simp_all add: compar_ok_iff)

end
