(* ===== verification/FB_Avl_Packed.thy ===== *)
theory FB_Avl_Packed
  imports FB_Avl
begin

text \<open>
  The packed node word of \<^verbatim>\<open>fb_avl.h\<close> on 64-bit machines: the parent pointer, the child index
  (bit 2) and the balance plus one (bits 0 and 1) share one word. The macros on that word
  implement the three separate fields of the node record.
\<close>

unbundle bit_operations_syntax

type_synonym pcb = "64 word"

definition AVL_XPARENT :: "pcb \<Rightarrow> 64 word" where
  "AVL_XPARENT w = w AND NOT 7"

definition pcb_SETPARENT :: "pcb \<Rightarrow> 64 word \<Rightarrow> pcb" where
  "pcb_SETPARENT w p = (w AND 7) OR p"

definition AVL_XCHILD :: "pcb \<Rightarrow> 64 word" where
  "AVL_XCHILD w = drop_bit 2 w AND 1"

definition pcb_SETCHILD :: "pcb \<Rightarrow> 64 word \<Rightarrow> pcb" where
  "pcb_SETCHILD w c = (w AND NOT 4) OR push_bit 2 c"

text \<open>The cast to \<^verbatim>\<open>int\<close> keeps the low 32 bits and reads them as a signed number.\<close>

definition AVL_XBALANCE :: "pcb \<Rightarrow> int" where
  "AVL_XBALANCE w = sint (ucast ((w AND 3) - 1) :: 32 word)"

definition pcb_SETBALANCE :: "pcb \<Rightarrow> int \<Rightarrow> pcb" where
  "pcb_SETBALANCE w b = (w AND NOT 3) OR word_of_int (b + 1)"

definition AVL_INDEX2NODE :: "64 word \<Rightarrow> 64 word" where
  "AVL_INDEX2NODE x = x AND NOT 1"

definition AVL_INDEX2CHILD :: "64 word \<Rightarrow> 64 word" where
  "AVL_INDEX2CHILD x = x AND 1"

definition AVL_MKINDEX :: "64 word \<Rightarrow> 64 word \<Rightarrow> 64 word" where
  "AVL_MKINDEX n c = n OR c"

section \<open>The word as a record\<close>

definition pcb_fields :: "pcb \<Rightarrow> 64 word \<times> bool \<times> int" where
  "pcb_fields w = (AVL_XPARENT w, AVL_XCHILD w = 1, AVL_XBALANCE w)"

lemma masks: "(7 :: 64 word) = mask 3" "(3 :: 64 word) = mask 2" "(1 :: 64 word) = mask 1"
  by (simp_all add: mask_eq_exp_minus_1)

lemma bit_XPARENT: "bit (AVL_XPARENT w) n \<longleftrightarrow> 3 \<le> n \<and> bit w n"
  unfolding AVL_XPARENT_def masks by (auto simp: bit_simps dest: bit_imp_le_length)

lemma XCHILD_bit: "AVL_XCHILD w = of_bool (bit w 2)"
  unfolding AVL_XCHILD_def by (simp add: and_one_eq mod_2_eq_odd bit_iff_odd_drop_bit)

lemma and3: "(w :: 64 word) AND 3 = of_bool (bit w 0) OR push_bit 1 (of_bool (bit w 1))"
  unfolding masks by (rule bit_word_eqI) (auto simp: bit_simps less_Suc_eq numeral_2_eq_2)

lemma cast_minus_1: "sint (ucast (- 1 :: 64 word) :: 32 word) = - 1"
proof -
  have "(ucast (- 1 :: 64 word) :: 32 word) = - 1" by (rule bit_word_eqI) (simp add: bit_simps)
  then show ?thesis by simp
qed

lemma XBALANCE_bits:
  "AVL_XBALANCE w = (if bit w 1 then 2 else 0) + (if bit w 0 then 1 else 0) - 1"
  unfolding AVL_XBALANCE_def and3 
  by (cases "bit w 0"; cases "bit w 1") (simp_all add: cast_minus_1)

lemma aligned_bits: "(p :: 64 word) AND 7 = 0 \<longleftrightarrow> (\<forall>n<3. \<not> bit p n)"
  unfolding masks using bit_imp_le_length[of p] by (fastforce simp: bit_eq_iff bit_simps)

lemma bit_SETPARENT: "bit (pcb_SETPARENT w p) n \<longleftrightarrow> n < 3 \<and> bit w n \<or> bit p n"
  unfolding pcb_SETPARENT_def masks by (auto simp: bit_simps)

lemma bit_4: "bit (4 :: int) n \<longleftrightarrow> n = 2"
  using bit_exp_iff[where 'a = int, of 2 n] by auto

lemma bit_SETCHILD: "bit (pcb_SETCHILD w (of_bool c)) n \<longleftrightarrow> (if n = 2 then c else bit w n)"
  unfolding pcb_SETCHILD_def using bit_imp_le_length[of w n]
  by (cases c) (auto simp: bit_simps bit_4)

lemma bit_SETBALANCE:
  assumes "b \<in> {-1, 0, 1}"
  shows "bit (pcb_SETBALANCE w b) n \<longleftrightarrow>
    (if n = 0 then b = 0 else if n = 1 then b = 1 else bit w n)"
  using assms unfolding pcb_SETBALANCE_def masks(2)
  by (auto simp: bit_simps dest: bit_imp_le_length)

text \<open>Each setter changes its own field and no other.\<close>

lemma fields_SETPARENT:
  assumes "p AND 7 = 0"
  shows "pcb_fields (pcb_SETPARENT w p) = (p, snd (pcb_fields w))"
proof -
  have "AVL_XPARENT (pcb_SETPARENT w p) = p"
    using assms by (auto intro!: bit_word_eqI simp: bit_XPARENT bit_SETPARENT aligned_bits not_less)
  with assms show ?thesis
    by (simp add: pcb_fields_def XCHILD_bit XBALANCE_bits bit_SETPARENT aligned_bits)
qed

lemma fields_SETCHILD:
  "pcb_fields (pcb_SETCHILD w (of_bool c)) = (fst (pcb_fields w), c, snd (snd (pcb_fields w)))"
proof -
  have "AVL_XPARENT (pcb_SETCHILD w (of_bool c)) = AVL_XPARENT w"
    by (intro bit_word_eqI) (simp only: bit_XPARENT bit_SETCHILD, simp)
  then show ?thesis by (simp add: pcb_fields_def XCHILD_bit XBALANCE_bits bit_SETCHILD)
qed

lemma fields_SETBALANCE:
  assumes "b \<in> {-1, 0, 1}"
  shows "pcb_fields (pcb_SETBALANCE w b) = (fst (pcb_fields w), fst (snd (pcb_fields w)), b)"
proof -
  note B = bit_SETBALANCE[OF assms]
  have "AVL_XPARENT (pcb_SETBALANCE w b) = AVL_XPARENT w"
    by (auto intro!: bit_word_eqI simp: bit_XPARENT B)
  with assms show ?thesis by (auto simp: pcb_fields_def XCHILD_bit XBALANCE_bits B)
qed

lemma index_roundtrip:
  assumes "n AND 1 = 0"
  shows "AVL_INDEX2NODE (AVL_MKINDEX n (of_bool c)) = n"
    and "AVL_INDEX2CHILD (AVL_MKINDEX n (of_bool c)) = of_bool c"
proof -
  have "\<not> bit n 0" using assms by (simp add: and_one_eq bit_0 mod_2_eq_odd)
  then show "AVL_INDEX2NODE (AVL_MKINDEX n (of_bool c)) = n"
    and "AVL_INDEX2CHILD (AVL_MKINDEX n (of_bool c)) = of_bool c"
    unfolding AVL_INDEX2NODE_def AVL_INDEX2CHILD_def AVL_MKINDEX_def
    by (auto intro!: bit_word_eqI gr0I simp: bit_simps)
qed

end
