(* ===== verification/FB_Avl_Props.thy ===== *)
theory FB_Avl_Props
  imports FB_Container FB_Avl_Packed
begin

text \<open>
  What the operations of \<^verbatim>\<open>fb_avl.c\<close> promise, stated over the heap model: \<open>avl_holds key t h ds\<close>
  says that the header \<open>t\<close> and the heap \<open>h\<close> represent a balanced search tree over the objects
  \<open>ds\<close> in strictly increasing order of \<open>key\<close>. The theorems add the run of a whole sequence of
  additions and removals, the re-insertion calls and the depth of the tree.
\<close>

unbundle bit_operations_syntax

section \<open>Sequences of operations\<close>

datatype avl_op = Add ptr | Remove ptr

fun avl_op_step ::
  "(ptr \<Rightarrow> ptr \<Rightarrow> int) \<Rightarrow> ptr \<Rightarrow> avl_op \<Rightarrow> avl_tree \<times> avl_heap \<Rightarrow> (avl_tree \<times> avl_heap) option" where
  "avl_op_step compar tmp (Add d) (t, h) = avl_add compar t h d"
| "avl_op_step compar tmp (Remove d) (t, h) = avl_remove tmp t h d"

fun avl_run ::
  "(ptr \<Rightarrow> ptr \<Rightarrow> int) \<Rightarrow> ptr \<Rightarrow> avl_op list \<Rightarrow> avl_tree \<times> avl_heap \<Rightarrow> (avl_tree \<times> avl_heap) option" where
  "avl_run compar tmp [] s = Some s"
| "avl_run compar tmp (x # xs) s = Option.bind (avl_op_step compar tmp x s) (avl_run compar tmp xs)"

text \<open>The specification: a list in key order. \<open>op_ok\<close> is what the code requires of a caller.\<close>

fun spec_step :: "(ptr \<Rightarrow> int) \<Rightarrow> avl_op \<Rightarrow> ptr list \<Rightarrow> ptr list" where
  "spec_step key (Add d) ds = (if key d \<in> key ` set ds then ds else insort_key key d ds)"
| "spec_step key (Remove d) ds = remove1 d ds"

fun op_ok :: "nat \<Rightarrow> ptr \<Rightarrow> avl_op \<Rightarrow> ptr list \<Rightarrow> bool" where
  "op_ok off tmp (Add d) ds = avl_object off tmp d"
| "op_ok off tmp (Remove d) ds = (d \<in> set ds)"

fun ops_ok :: "(ptr \<Rightarrow> int) \<Rightarrow> nat \<Rightarrow> ptr \<Rightarrow> avl_op list \<Rightarrow> ptr list \<Rightarrow> bool" where
  "ops_ok key off tmp [] ds = True"
| "ops_ok key off tmp (x # xs) ds =
     (op_ok off tmp x ds \<and> ops_ok key off tmp xs (spec_step key x ds))"

section \<open>Helper lemmas\<close>

lemma avl_add_present:
  assumes "avl_holds key t h ds" "compar_ok compar key key" "key d \<in> key ` set ds"
  shows "avl_add compar t h d = Some (t, h)"
proof -
  obtain e where e: "e \<in> set ds" "key e = key d" using assms(3) by force
  have "e \<noteq> NULL" using avl_holds_nonnull[OF assms(1)] e(1) by (metis)
  with avl_find_holds(1)[OF assms(1,2) e] show ?thesis by (simp add: avl_add_def)
qed

lemma avl_op_step_refines:
  assumes C: "compar_ok compar key key" and H: "avl_family key off tmp t h ds"
    and ok: "op_ok off tmp x ds"
  obtains t' h' where "avl_op_step compar tmp x (t, h) = Some (t', h')"
    "avl_family key off tmp t' h' (spec_step key x ds)"
proof (cases x)
  case (Add d)
  then have v: "avl_object off tmp d" using ok by simp
  show thesis
  proof (cases "key d \<in> key ` set ds")
    case True
    have "avl_add compar t h d = Some (t, h)"
      using avl_add_present[OF _ C True] H by (auto simp: avl_family_def)
    then show thesis using that[of t h] H Add True by simp
  next
    case False
    from avl.add_ok[OF H v False] show thesis using that C Add False by (auto simp: compar_ok_iff)
  qed
next
  case (Remove d)
  then have "d \<in> set ds" using ok by simp
  from avl.rem_ok[OF H this] show thesis using that Remove by auto
qed

lemma avl_run_family:
  assumes C: "compar_ok compar key key"
  shows "avl_family key off tmp t h ds \<Longrightarrow> ops_ok key off tmp xs ds \<Longrightarrow>
    \<exists>t' h'. avl_run compar tmp xs (t, h) = Some (t', h') \<and>
      avl_family key off tmp t' h' (fold (spec_step key) xs ds)"
proof (induction xs arbitrary: t h ds)
  case (Cons x xs)
  obtain t1 h1 where S: "avl_op_step compar tmp x (t, h) = Some (t1, h1)"
    "avl_family key off tmp t1 h1 (spec_step key x ds)"
    using avl_op_step_refines[OF C Cons.prems(1)] Cons.prems(2) by auto
  from Cons.IH[OF S(2)] Cons.prems(2) S(1) show ?case by simp
qed simp

lemma avl_create_family:
  assumes "0 < sz" "off + 24 \<le> sz" "off mod 8 = 0" "tmp \<noteq> NULL"
  shows "avl_family key off tmp (avl_create t sz off) h []"
proof -
  have "avl_rep (avl_create t sz off) h Leaf"
    using assms by (intro avl_rep_empty) (simp_all add: avl_create_def)
  then show ?thesis
    using assms unfolding avl_family_def avl_holds_def
    by (auto simp: avl_create_def tdata_def sorted_keys_def intro!: exI[of _ Leaf])
qed

text \<open>The minimal number of nodes of a balanced tree of a given height.\<close>

lemma avl_size_height: "avl t \<Longrightarrow> 2 ^ (height t div 2) \<le> length (inorder t) + 1"
proof (induction t)
  case (Node l a b r)
  let ?m = "min (height l) (height r)"
  have H: "height (Node l a b r) \<le> ?m + 2" using Node.prems by auto
  have le: "(2::nat) ^ (?m div 2) \<le> 2 ^ (height l div 2)" "(2::nat) ^ (?m div 2) \<le> 2 ^ (height r div 2)"
    by (auto intro!: power_increasing div_le_mono)
  have "2 ^ (?m div 2) \<le> length (inorder l) + 1" "2 ^ (?m div 2) \<le> length (inorder r) + 1"
    using Node le[THEN order_trans] by simp_all
  moreover have "(2::nat) ^ (height (Node l a b r) div 2) \<le> 2 ^ Suc (?m div 2)"
    using H by (intro power_increasing) auto
  ultimately show ?case by simp
qed simp

text \<open>The search loop visits at most one node per level.\<close>

fun avl_find_steps ::
  "('v \<Rightarrow> ptr \<Rightarrow> int) \<Rightarrow> nat \<Rightarrow> avl_heap \<Rightarrow> 'v \<Rightarrow> nat \<Rightarrow> ptr \<Rightarrow> bool" where
  "avl_find_steps compar off h v 0 node = (node = NULL)"
| "avl_find_steps compar off h v (Suc n) node =
     (node = NULL \<or>
      (let diff = compar v (AVL_NODE2DATA node off) in
       \<not> (-1 \<le> diff \<and> diff \<le> 1) \<or> diff = 0 \<or>
       avl_find_steps compar off h v n (avl_child (h node) (avl_balance2child (1 + diff)))))"

lemma avl_find_steps_height:
  assumes "compar_ok compar vkey key"
  shows "trep h par c t \<Longrightarrow> avl_find_steps compar off h v (height t) (rootp t)"
proof -
  have mono: "avl_find_steps compar off h v n x \<Longrightarrow> n \<le> m \<Longrightarrow> avl_find_steps compar off h v m x" for n m x
  proof (induction n arbitrary: m x)
    case 0
    then show ?case by (cases m) auto
  next
    case (Suc n)
    then obtain k where "m = Suc k" "n \<le> k" by (cases m) auto
    with Suc show ?case by (auto simp: Let_def)
  qed
  show "trep h par c t \<Longrightarrow> avl_find_steps compar off h v (height t) (rootp t)"
  proof (induction t arbitrary: par c)
    case (Node l a b r)
    then have "avl_find_steps compar off h v (height l) (rootp l)"
      "avl_find_steps compar off h v (height r) (rootp r)"
      "avl_child (h a) False = rootp l" "avl_child (h a) True = rootp r" by auto
    moreover from this(1,2) have "avl_find_steps compar off h v (max (height l) (height r)) (rootp l)"
      "avl_find_steps compar off h v (max (height l) (height r)) (rootp r)" by (auto intro: mono)
    moreover have "compar v (AVL_NODE2DATA a off) \<in> {-1, 0, 1}" using assms by (simp add: compar_ok_def)
    ultimately show ?case by (auto simp: Let_def)
  qed simp
qed

text \<open>A change of the key of one object.\<close>

lemma avl_holds_rekey: "avl_holds key t h ds \<Longrightarrow> sorted_keys key' ds \<Longrightarrow> avl_holds key' t h ds"
  by (auto simp: avl_holds_def)

lemma sorted_rekey:
  assumes "sorted_keys key (xs @ d # ys)" "\<And>e. e \<noteq> d \<Longrightarrow> key' e = key e"
    and "xs = [] \<or> key' (last xs) < key' d" "ys = [] \<or> key' d < key' (hd ys)"
  shows "sorted_keys key' (xs @ d # ys)" "insort_key key' d (xs @ ys) = xs @ d # ys"
proof -
  have nd: "d \<notin> set xs" "d \<notin> set ys" using assms(1) by (auto simp: sorted_keys_def sorted_wrt_append)
  then have eq: "map key' xs = map key xs" "map key' ys = map key ys" using assms(2)
    by (metis map_eq_conv)+
  have le: "key x \<le> key (last xs)" if "x \<in> set xs" for x
    using that assms(1) by (cases xs rule: rev_cases) (auto simp: sorted_keys_def sorted_wrt_append)
  have ge: "key (hd ys) \<le> key y" if "y \<in> set ys" for y
    using that assms(1) by (cases ys) (auto simp: sorted_keys_def sorted_wrt_append)
  have k: "key' e = key e" if "e \<in> set xs \<union> set ys" for e using that nd by (intro assms(2)) auto
  have lt: "\<forall>y\<in>set xs. key' y < key' d"
  proof
    fix y assume y: "y \<in> set xs"
    then have "last xs \<in> set xs" "xs \<noteq> []" by (auto intro: last_in_set)
    with y le[OF y] k assms(3) show "key' y < key' d" by fastforce
  qed
  have gt: "\<forall>y\<in>set ys. key' d < key' y"
  proof
    fix y assume y: "y \<in> set ys"
    then have "hd ys \<in> set ys" "ys \<noteq> []" by (auto intro: hd_in_set)
    with y ge[OF y] k assms(4) show "key' d < key' y" by fastforce
  qed
  show "insort_key key' d (xs @ ys) = xs @ d # ys" using insort_key_split[OF lt gt] .
  show "sorted_keys key' (xs @ d # ys)"
    using assms(1) lt gt unfolding sorted_keys_def map_append list.map eq sorted_wrt_append
    by (auto simp: k)
qed

lemma avl_family_nonnull: "avl_family key off tmp t h ds \<Longrightarrow> d \<in> set ds \<Longrightarrow> d \<noteq> NULL"
  by (auto simp: avl_family_def avl_object_def)

lemma AVL_REINSERT_family:
  assumes H: "avl_family key off tmp t h ds" and d: "d \<in> set ds"
    and k: "\<forall>e. e \<noteq> d \<longrightarrow> key' e = key e" and C: "compar_ok compar key' key'"
    and new: "key' d \<notin> key' ` (set ds - {d})"
  obtains t' h' where "AVL_REINSERT compar tmp t h d = Some (t', h')"
    "avl_family key' off tmp t' h' (insort_key key' d (remove1 d ds))"
proof -
  obtain t1 h1 where R: "avl_remove tmp t h d = Some (t1, h1)" "avl_family key off tmp t1 h1 (remove1 d ds)"
    using avl.rem_ok[OF H d] by blast
  have s: "set (remove1 d ds) = set ds - {d}" using avl.distinct_holds[OF H] by simp
  have "map key' (remove1 d ds) = map key (remove1 d ds)" using s k by (simp add: map_eq_conv)
  then have "sorted_keys key' (remove1 d ds)" using avl.sorted[OF R(2)] unfolding sorted_keys_def by metis
  then have "avl_family key' off tmp t1 h1 (remove1 d ds)"
    using R(2) avl_holds_rekey by (auto simp: avl_family_def)
  from avl.add_ok[OF this avl.held_valid[OF H d]] new s
  obtain t' h' where "avl_add (key_compar key' key') t1 h1 d = Some (t', h')"
    "avl_family key' off tmp t' h' (insort_key key' d (remove1 d ds))" by auto
  then show thesis using that R(1) C by (simp add: AVL_REINSERT_def compar_ok_iff)
qed

text \<open>The two neighbour tests of the update calls.\<close>

lemma avl_neighbours:
  assumes H: "avl_family key off tmp t h (xs @ d # ys)" and C: "compar_ok compar key' key'"
  obtains p n where "avl_walk t h d False = Some p" "avl_walk t h d True = Some n"
    "p \<noteq> NULL \<longleftrightarrow> xs \<noteq> []" "p \<noteq> NULL \<Longrightarrow> p = last xs" "n \<noteq> NULL \<longleftrightarrow> ys \<noteq> []" "n \<noteq> NULL \<Longrightarrow> n = hd ys"
    "compar d p < 0 \<longleftrightarrow> key' d < key' p" "0 < compar d n \<longleftrightarrow> key' n < key' d"
    "compar d n \<le> 0 \<longleftrightarrow> key' d \<le> key' n" "0 \<le> compar d p \<longleftrightarrow> key' p \<le> key' d"
proof
  have z: "0 \<notin> set xs" "0 \<notin> set ys" using avl_family_nonnull[OF H] by auto
  have w: "avl_holds key t h (xs @ d # ys)" using H by (simp add: avl_family_def)
  show "avl_walk t h d False = Some (hd0 (rev xs))" "avl_walk t h d True = Some (hd0 ys)"
    using avl_walk_holds[OF w] by simp_all
  show "hd0 (rev xs) \<noteq> NULL \<longleftrightarrow> xs \<noteq> []" "hd0 ys \<noteq> NULL \<longleftrightarrow> ys \<noteq> []"
    using hd0_null[of "rev xs"] hd0_null[of ys] z by simp_all
  show "hd0 (rev xs) = last xs" if "hd0 (rev xs) \<noteq> NULL" using that by (cases xs rule: rev_cases) auto
  show "hd0 ys = hd ys" if "hd0 ys \<noteq> NULL" using that by (cases ys) auto
qed (use C in \<open>simp_all add: compar_ok_def\<close>)

lemma avl_update_cases:
  assumes H: "avl_family key off tmp t h ds" and d: "d \<in> set ds"
    and k: "\<forall>e. e \<noteq> d \<longrightarrow> key' e = key e" and C: "compar_ok compar key' key'"
    and new: "key' d \<notin> key' ` (set ds - {d})"
  obtains A B where "avl_update compar tmp t h d =
      (if A \<or> B then map_option (\<lambda>s. (s, True)) (AVL_REINSERT compar tmp t h d) else Some ((t, h), False))"
    "avl_update_lt compar tmp t h d =
      (if A \<and> \<not> B then map_option (\<lambda>s. (s, True)) (AVL_REINSERT compar tmp t h d) else Some ((t, h), False))"
    "avl_update_gt compar tmp t h d =
      (if B \<and> \<not> A then map_option (\<lambda>s. (s, True)) (AVL_REINSERT compar tmp t h d) else Some ((t, h), False))"
    "key' d \<le> key d \<longrightarrow> \<not> B" "key d \<le> key' d \<longrightarrow> \<not> A" "A \<or> B \<longleftrightarrow> \<not> sorted_keys key' ds"
    "\<not> A \<and> \<not> B \<longrightarrow> insort_key key' d (remove1 d ds) = ds"
proof -
  obtain xs ys where ds: "ds = xs @ d # ys" using split_list[OF d] by blast
  have nd: "d \<notin> set xs" "d \<notin> set ys" using avl.distinct_holds[OF H] by (auto simp: ds)
  have s: "sorted_keys key (xs @ d # ys)" using avl.sorted[OF H] by (simp add: ds)
  obtain p n where W: "avl_walk t h d False = Some p" "avl_walk t h d True = Some n"
    and p: "p \<noteq> NULL \<longleftrightarrow> xs \<noteq> []" "p \<noteq> NULL \<Longrightarrow> p = last xs"
    and n: "n \<noteq> NULL \<longleftrightarrow> ys \<noteq> []" "n \<noteq> NULL \<Longrightarrow> n = hd ys"
    and cmp: "compar d p < 0 \<longleftrightarrow> key' d < key' p" "0 < compar d n \<longleftrightarrow> key' n < key' d"
    "compar d n \<le> 0 \<longleftrightarrow> key' d \<le> key' n" "0 \<le> compar d p \<longleftrightarrow> key' p \<le> key' d"
    using avl_neighbours[OF H[unfolded ds] C] by blast
  define A where "A \<longleftrightarrow> p \<noteq> NULL \<and> key' d < key' p"
  define B where "B \<longleftrightarrow> n \<noteq> NULL \<and> key' n < key' d"
  have mp: "p \<in> set xs" if "p \<noteq> NULL" using that p by simp
  have mn: "n \<in> set ys" if "n \<noteq> NULL" using that n by simp
  have np: "key p < key d \<and> key' p = key p \<and> key' d \<noteq> key' p" if "p \<noteq> NULL"
    using mp[OF that] s nd k new by (auto simp: ds sorted_keys_def sorted_wrt_append)
  have nn: "key d < key n \<and> key' n = key n \<and> key' d \<noteq> key' n" if "n \<noteq> NULL"
    using mn[OF that] s nd k new by (auto simp: ds sorted_keys_def sorted_wrt_append)
  have rm: "remove1 d ds = xs @ ys" using nd by (simp add: ds remove1_append)
  show thesis
  proof (rule that[of A B])
    show "key' d \<le> key d \<longrightarrow> \<not> B" using nn by (auto simp: B_def)
    show "key d \<le> key' d \<longrightarrow> \<not> A" using np by (auto simp: A_def)
    have R: "sorted_keys key' (xs @ d # ys)" "insort_key key' d (xs @ ys) = xs @ d # ys"
      if "\<not> A \<and> \<not> B"
      using sorted_rekey[OF s k[rule_format]] that p n np nn by (auto simp: A_def B_def)
    then show "\<not> A \<and> \<not> B \<longrightarrow> insort_key key' d (remove1 d ds) = ds" using rm ds by simp
    have L: "\<forall>x\<in>set xs. key' x < key' d" "\<forall>y\<in>set ys. key' d < key' y" if "sorted_keys key' ds"
      using that by (auto simp: ds sorted_keys_def sorted_wrt_append)
    have "\<not> sorted_keys key' ds" if AB: "A \<or> B"
    proof
      assume "sorted_keys key' ds"
      with L mp mn AB show False by (force simp: A_def B_def)
    qed
    with R show "A \<or> B \<longleftrightarrow> \<not> sorted_keys key' ds" by (auto simp: ds)
  qed (auto simp: avl_update_def avl_update_lt_def avl_update_gt_def W cmp A_def B_def)
qed

section \<open>Properties\<close>

text \<open>C1: \<^verbatim>\<open>avl_add\<close> on a tree that holds \<open>ds\<close> always returns. An object whose key is not in the tree
  is inserted at its place in the order, the result is again a balanced search tree, the node
  count goes up by one, and only nodes of the tree and of the new object are written; an
  object whose key is present leaves the tree and the heap unchanged.\<close>

theorem avl_add_correct:
  assumes "avl_holds key t h ds" "compar_ok compar key key" "d \<noteq> NULL" "d mod 8 = 0"
  shows "\<exists>t' h'. avl_add compar t h d = Some (t', h') \<and>
    (if key d \<in> key ` set ds then t' = t \<and> h' = h
     else avl_holds key t' h' (insort_key key d ds) \<and>
       avl_numnodes t' = avl_numnodes t + 1 \<and>
       agree (- footprint (avl_offset t) (insert d (set ds))) h h')"
proof (cases "key d \<in> key ` set ds")
  case True
  then show ?thesis using avl_add_present[OF assms(1,2)] by simp
next
  case False
  obtain t' h' where R: "avl_add compar t h d = Some (t', h')" "avl_holds key t' h' (insort_key key d ds)"
    "agree (- footprint (avl_offset t) (insert d (set ds))) h h'"
    using avl_add_holds[OF assms False] by blast
  then show ?thesis
    using False avl_holds_numnodes[OF assms(1)] avl_holds_numnodes[OF R(2)] by simp
qed

definition demo_tree :: avl_tree where
  "demo_tree = \<lparr>avl_root = 0, avl_offset = 16, avl_numnodes_fld = 0, avl_size = 48\<rparr>"

definition demo_heap :: avl_heap where
  "demo_heap = (\<lambda>n. \<lparr>avl_child = (\<lambda>c. 0), avl_parent = 0, avl_child_index = False, avl_balance = 0\<rparr>)"

lemma demo_tree_holds: "avl_holds int demo_tree demo_heap []"
  unfolding avl_holds_def
  by (auto simp: demo_tree_def tdata_def sorted_keys_def intro!: exI[of _ Leaf] avl_rep_empty)

lemma demo_compar: "compar_ok (key_compar int int) int int"
  by (simp add: compar_ok_iff)

theorem avl_add_correct_witness:
  "\<exists>t' h'. avl_add (key_compar int int) demo_tree demo_heap 64 = Some (t', h') \<and>
     avl_holds int t' h' [64] \<and> avl_numnodes t' = 1"
  using avl_add_correct[OF demo_tree_holds demo_compar, of 64]
  by (auto simp: avl_numnodes_def demo_tree_def)

text \<open>C2: \<^verbatim>\<open>avl_remove\<close> of an object that is in the tree always returns, leaves a balanced search
  tree over the other objects in the same order, lowers the node count by one, and writes only
  nodes of the tree and its own temporary node.\<close>

theorem avl_remove_correct:
  assumes "avl_holds key t h ds" "d \<in> set ds" "tmp \<noteq> NULL" "tmp \<notin> footprint (avl_offset t) (set ds)"
  shows "\<exists>t' h'. avl_remove tmp t h d = Some (t', h') \<and> avl_holds key t' h' (remove1 d ds) \<and>
    avl_numnodes t = avl_numnodes t' + 1 \<and>
    agree (- insert tmp (footprint (avl_offset t) (set ds))) h h'"
proof -
  obtain t' h' where R: "avl_remove tmp t h d = Some (t', h')" "avl_holds key t' h' (remove1 d ds)"
    "agree (- insert tmp (footprint (avl_offset t) (set ds))) h h'"
    using avl_remove_holds[OF assms] by blast
  moreover have "length ds = length (remove1 d ds) + 1"
    using assms(2) by (simp add: length_remove1) (metis Suc_pred length_pos_if_in_set)
  ultimately show ?thesis
    using avl_holds_numnodes[OF assms(1)] avl_holds_numnodes[OF R(2)] by simp
qed

text \<open>A tree with one object, as \<^verbatim>\<open>avl_add\<close> leaves it.\<close>

definition demo_tree1 :: avl_tree where
  "demo_tree1 = \<lparr>avl_root = 80, avl_offset = 16, avl_numnodes_fld = 1, avl_size = 48\<rparr>"

lemma demo_tree1_holds: "avl_holds int demo_tree1 demo_heap [64]"
proof -
  have "avl_rep demo_tree1 demo_heap (Node Leaf 80 0 Leaf)"
    by (auto simp: avl_rep_def focus_def demo_tree1_def demo_heap_def)
  then show ?thesis unfolding avl_holds_def
    by (auto simp: demo_tree1_def tdata_def sorted_keys_def AVL_NODE2DATA_def
        intro!: exI[of _ "Node Leaf 80 0 Leaf"])
qed

theorem avl_remove_correct_witness:
  "\<exists>t' h'. avl_remove 8 demo_tree1 demo_heap 64 = Some (t', h') \<and> avl_holds int t' h' [] \<and>
     avl_numnodes t' = 0"
  using avl_remove_correct[OF demo_tree1_holds, of 64 8]
  by (auto simp: avl_numnodes_def demo_tree1_def footprint_def AVL_DATA2NODE_def)

text \<open>C16: \<^verbatim>\<open>avl_find\<close> returns the object with the searched key when the tree holds one. Otherwise it
  returns NULL with an insertion point, and \<^verbatim>\<open>avl_nearest\<close> from that point gives the object with the
  next larger key and the one with the next smaller key (NULL when there is none).\<close>

theorem avl_find_correct:
  assumes "avl_holds key t h ds" "compar_ok compar vkey key"
  shows "(\<forall>d\<in>set ds. key d = vkey v \<longrightarrow> avl_find compar t h v = Some (d, Some (NULL, False))) \<and>
    (vkey v \<notin> key ` set ds \<longrightarrow>
       (\<exists>w. avl_find compar t h v = Some (NULL, Some w) \<and>
          avl_nearest t h w True = Some (hd0 (filter (\<lambda>x. vkey v < key x) ds)) \<and>
          avl_nearest t h w False = Some (hd0 (rev (filter (\<lambda>x. key x < vkey v) ds)))))"
  using avl_find_holds(1)[OF assms] avl_nearest_holds[OF assms] by metis

theorem avl_find_correct_witness:
  "avl_find (key_compar int int) demo_tree1 demo_heap 64 = Some (64, Some (NULL, False)) \<and>
   (\<exists>w. avl_find (key_compar int int) demo_tree1 demo_heap 72 = Some (NULL, Some w) \<and>
      avl_nearest demo_tree1 demo_heap w True = Some NULL \<and>
      avl_nearest demo_tree1 demo_heap w False = Some 64)"
  using avl_find_correct[OF demo_tree1_holds demo_compar, of 64]
    avl_find_correct[OF demo_tree1_holds demo_compar, of 72] by simp

text \<open>C17: iteration. \<^verbatim>\<open>avl_first\<close> and \<^verbatim>\<open>avl_last\<close> return the smallest and the largest object (NULL when
  the tree is empty), and \<^verbatim>\<open>AVL_NEXT\<close> and \<^verbatim>\<open>AVL_PREV\<close> step to the neighbours in key order, with NULL
  at the ends.\<close>

theorem avl_iteration_correct:
  assumes "avl_holds key t h ds"
  shows "avl_first t h = Some (if ds = [] then NULL else hd ds) \<and>
    avl_last t h = Some (if ds = [] then NULL else last ds) \<and>
    (\<forall>i<length ds.
       avl_walk t h (ds ! i) True = Some (if Suc i < length ds then ds ! Suc i else NULL) \<and>
       avl_walk t h (ds ! i) False = Some (if 0 < i then ds ! (i - 1) else NULL))"
proof (intro conjI allI impI)
  show "avl_first t h = Some (if ds = [] then NULL else hd ds)"
    using avl_ends_hold(1)[OF assms] by (cases ds) auto
  show "avl_last t h = Some (if ds = [] then NULL else last ds)"
    using avl_ends_hold(2)[OF assms] by (cases ds rule: rev_cases) auto
  fix i assume i: "i < length ds"
  have ds: "take i ds @ ds ! i # drop (Suc i) ds = ds" using id_take_nth_drop[OF i] by simp
  note W = avl_walk_holds[of key t h "take i ds" "ds ! i" "drop (Suc i) ds", unfolded ds, OF assms]
  show "avl_walk t h (ds ! i) True = Some (if Suc i < length ds then ds ! Suc i else NULL)"
    using W(1) by (auto simp: hd0_def hd_drop_conv_nth split: list.split dest: arg_cong[where f = length])
      (metis hd_drop_conv_nth list.sel(1))
  have "take i ds = take (i - 1) ds @ [ds ! (i - 1)]" if "0 < i"
    using i that take_Suc_conv_app_nth[of "i - 1" ds] by simp
  then show "avl_walk t h (ds ! i) False = Some (if 0 < i then ds ! (i - 1) else NULL)"
    using W(2) by (cases "0 < i") (simp_all del: take_append)
qed

theorem avl_iteration_correct_witness:
  "avl_first demo_tree1 demo_heap = Some 64 \<and> avl_last demo_tree1 demo_heap = Some 64 \<and>
   avl_walk demo_tree1 demo_heap 64 True = Some NULL"
  using avl_iteration_correct[OF demo_tree1_holds] by simp

text \<open>C3: a whole run. From a created tree, any sequence of additions and removals that respects
  the contract of the calls returns, and the tree then holds exactly what the specification on
  key-ordered lists gives, in key order.\<close>

theorem avl_run_refines:
  assumes "compar_ok compar key key" "0 < sz" "off + 24 \<le> sz" "off mod 8 = 0" "tmp \<noteq> NULL"
    and "ops_ok key off tmp xs []"
  shows "\<exists>t' h'. avl_run compar tmp xs (avl_create t sz off, h) = Some (t', h') \<and>
    avl_holds key t' h' (fold (spec_step key) xs []) \<and>
    avl_numnodes t' = length (fold (spec_step key) xs []) \<and>
    (avl_is_empty t' \<longleftrightarrow> fold (spec_step key) xs [] = [])"
proof -
  obtain t' h' where R: "avl_run compar tmp xs (avl_create t sz off, h) = Some (t', h')"
    "avl_holds key t' h' (fold (spec_step key) xs [])"
    using avl_run_family[OF assms(1) avl_create_family[OF assms(2-5)] assms(6), of t h]
    unfolding avl_family_def by blast
  then show ?thesis
    using avl_holds_numnodes[OF R(2)] by (auto simp: avl_is_empty_def avl_numnodes_def)
qed

theorem avl_run_refines_witness:
  "\<exists>t' h'. avl_run (key_compar int int) 8 [Add 64, Add 32, Add 96, Remove 64, Add 32]
      (avl_create demo_tree 48 16, demo_heap) = Some (t', h') \<and>
     avl_holds int t' h' [32, 96] \<and> avl_numnodes t' = 2"
  using avl_run_refines[OF demo_compar, of 48 16 8 "[Add 64, Add 32, Add 96, Remove 64, Add 32]"
      demo_tree demo_heap]
  by (simp add: avl_object_def AVL_DATA2NODE_def numeral_2_eq_2) blast



text \<open>C19: when the key of one object in the tree has changed, \<^verbatim>\<open>avl_update\<close> puts the object back in
  its place: the tree is a balanced search tree for the new keys. The result says whether the
  object had to move, and nothing is written when it had not. \<^verbatim>\<open>avl_update_lt\<close> does the same
  when the key went down and \<^verbatim>\<open>avl_update_gt\<close> when it went up.\<close>

theorem avl_update_correct:
  assumes H: "avl_family key off tmp t h ds" and d: "d \<in> set ds"
    and k: "\<forall>e. e \<noteq> d \<longrightarrow> key' e = key e" and C: "compar_ok compar key' key'"
    and new: "key' d \<notin> key' ` (set ds - {d})"
  shows "(\<exists>t' h' moved. avl_update compar tmp t h d = Some ((t', h'), moved) \<and>
      avl_family key' off tmp t' h' (insort_key key' d (remove1 d ds)) \<and>
      (moved \<longleftrightarrow> \<not> sorted_keys key' ds) \<and> (\<not> moved \<longrightarrow> t' = t \<and> h' = h)) \<and>
    (key' d \<le> key d \<longrightarrow> avl_update_lt compar tmp t h d = avl_update compar tmp t h d) \<and>
    (key d \<le> key' d \<longrightarrow> avl_update_gt compar tmp t h d = avl_update compar tmp t h d)"
proof -
  obtain A B where U: "avl_update compar tmp t h d =
      (if A \<or> B then map_option (\<lambda>s. (s, True)) (AVL_REINSERT compar tmp t h d) else Some ((t, h), False))"
    "avl_update_lt compar tmp t h d =
      (if A \<and> \<not> B then map_option (\<lambda>s. (s, True)) (AVL_REINSERT compar tmp t h d) else Some ((t, h), False))"
    "avl_update_gt compar tmp t h d =
      (if B \<and> \<not> A then map_option (\<lambda>s. (s, True)) (AVL_REINSERT compar tmp t h d) else Some ((t, h), False))"
    "key' d \<le> key d \<longrightarrow> \<not> B" "key d \<le> key' d \<longrightarrow> \<not> A" "A \<or> B \<longleftrightarrow> \<not> sorted_keys key' ds"
    "\<not> A \<and> \<not> B \<longrightarrow> insort_key key' d (remove1 d ds) = ds"
    by (rule avl_update_cases[OF H d k C new])
  obtain t' h' where R: "AVL_REINSERT compar tmp t h d = Some (t', h')"
    "avl_family key' off tmp t' h' (insort_key key' d (remove1 d ds))"
    using AVL_REINSERT_family[OF H d k C new] by blast
  have stay: "avl_family key' off tmp t h ds" if "\<not> A \<and> \<not> B"
    using that U(6) H avl_holds_rekey by (auto simp: avl_family_def)
  show ?thesis
  proof (cases "A \<or> B")
    case True
    then show ?thesis using U R by auto
  next
    case False
    then show ?thesis using U stay by auto
  qed
qed

theorem avl_update_correct_witness:
  "avl_update (key_compar (int(64 := 128)) (int(64 := 128))) 8 demo_tree1 demo_heap 64 =
     Some ((demo_tree1, demo_heap), False)"
proof -
  let ?k = "int(64 := 128)"
  have "avl_family int 16 8 demo_tree1 demo_heap [64]"
    using demo_tree1_holds by (simp add: avl_family_def demo_tree1_def avl_object_def AVL_DATA2NODE_def)
  from avl_update_correct[OF this, of 64 ?k "key_compar ?k ?k"]
  show ?thesis by (auto simp: compar_ok_iff sorted_keys_def)
qed

text \<open>C20: the packed node word of 64-bit machines implements the three separate fields: each
  setter writes its own field and leaves the other two, for 8-aligned parent addresses and
  balances from -1 to 1, and the packed insertion point gives back its node and child.\<close>

theorem avl_packed_fields:
  assumes "p AND 7 = 0" "b \<in> {-1, 0, 1}"
  shows "pcb_fields (pcb_SETPARENT w p) = (p, AVL_XCHILD w = 1, AVL_XBALANCE w) \<and>
    pcb_fields (pcb_SETCHILD w (of_bool c)) = (AVL_XPARENT w, c, AVL_XBALANCE w) \<and>
    pcb_fields (pcb_SETBALANCE w b) = (AVL_XPARENT w, AVL_XCHILD w = 1, b) \<and>
    AVL_INDEX2NODE (AVL_MKINDEX p (of_bool c)) = p \<and>
    AVL_INDEX2CHILD (AVL_MKINDEX p (of_bool c)) = of_bool c"
proof -
  have "\<not> bit p 0" using assms(1) unfolding aligned_bits by simp
  then have "p AND 1 = 0" by (simp add: and_one_eq bit_0 mod_2_eq_odd)
  then show ?thesis
    using fields_SETPARENT[OF assms(1)] fields_SETBALANCE[OF assms(2)] fields_SETCHILD
      index_roundtrip by (simp add: pcb_fields_def)
qed

theorem avl_packed_fields_witness:
  "pcb_fields (pcb_SETPARENT 5 4096) = (4096, AVL_XCHILD 5 = 1, AVL_XBALANCE 5) \<and>
   pcb_fields (pcb_SETBALANCE 5 (-1)) = (AVL_XPARENT 5, AVL_XCHILD 5 = 1, -1)"
  using avl_packed_fields[of 4096 "-1" 5 True] by simp

end
