(* ===== verification/FB_Utils.thy ===== *)
theory FB_Utils
  imports FB_Prelude
begin

text \<open>
  The string routines of \<^verbatim>\<open>utils.c\<close>. A character array is a function from indices to
  characters; the loop counters are 32-bit and the size argument is 64-bit, as in the code, so
  that \<open>dstsize - 1\<close> wraps around for size 0. \<open>c_string_at\<close> relates an array to the string it
  holds. On strings the two routines are truncated copying and appending, which is how the other
  components use them.
\<close>

section \<open>C strings\<close>

text \<open>The C string at an address.\<close>

definition c_string_at :: "(nat \<Rightarrow> char) \<Rightarrow> nat \<Rightarrow> string \<Rightarrow> bool" where
  "c_string_at mem p s \<longleftrightarrow>
     CHR 0x00 \<notin> set s \<and> (\<forall>i<length s. mem (p + i) = s ! i) \<and> mem (p + length s) = CHR 0x00"

section \<open>The routines\<close>

partial_function (option) strlcpy_loop ::
  "(nat \<Rightarrow> char) \<Rightarrow> 64 word \<Rightarrow> (nat \<Rightarrow> char) \<Rightarrow> uint32 \<Rightarrow> ((nat \<Rightarrow> char) \<times> uint32) option" where
  "strlcpy_loop src dstsize dst i =
     (if (ucast i :: 64 word) < dstsize - 1 then
        if src (unat i) = CHR 0x00 then Some (dst, i)
        else strlcpy_loop src dstsize (dst(unat i := src (unat i))) (i + 1)
      else Some (dst, i))"

definition fb_strlcpy ::
  "(nat \<Rightarrow> char) \<Rightarrow> (nat \<Rightarrow> char) \<Rightarrow> 64 word \<Rightarrow> ((nat \<Rightarrow> char) \<times> 64 word) option" where
  "fb_strlcpy dst src dstsize =
     map_option (\<lambda>(dst, i). (dst(unat i := CHR 0x00), ucast (i + 1)))
       (strlcpy_loop src dstsize dst 0)"

text \<open>The first loop of \<^verbatim>\<open>fb_strlcat\<close> looks for the end of the destination, the second appends.\<close>

partial_function (option) strlcat_end ::
  "(nat \<Rightarrow> char) \<Rightarrow> 64 word \<Rightarrow> uint32 \<Rightarrow> uint32 option" where
  "strlcat_end dst dstsize i =
     (if (ucast i :: 64 word) < dstsize - 1 then
        if dst (unat i) = CHR 0x00 then Some i else strlcat_end dst dstsize (i + 1)
      else Some i)"

partial_function (option) strlcat_loop ::
  "(nat \<Rightarrow> char) \<Rightarrow> 64 word \<Rightarrow> (nat \<Rightarrow> char) \<Rightarrow> uint32 \<Rightarrow> uint32 \<Rightarrow> ((nat \<Rightarrow> char) \<times> uint32) option" where
  "strlcat_loop src dstsize dst i j =
     (if (ucast i :: 64 word) < dstsize - 1 then
        if src (unat j) = CHR 0x00 then Some (dst, i)
        else strlcat_loop src dstsize (dst(unat i := src (unat j))) (i + 1) (j + 1)
      else Some (dst, i))"

definition fb_strlcat ::
  "(nat \<Rightarrow> char) \<Rightarrow> (nat \<Rightarrow> char) \<Rightarrow> 64 word \<Rightarrow> ((nat \<Rightarrow> char) \<times> 64 word) option" where
  "fb_strlcat dst src dstsize =
     Option.bind (strlcat_end dst dstsize 0) (\<lambda>i.
       map_option (\<lambda>(dst, i). (dst(unat i := CHR 0x00), ucast (i + 1)))
         (strlcat_loop src dstsize dst i 0))"

text \<open>The routines on the strings the arrays hold.\<close>

definition strlcpy_str :: "string \<Rightarrow> nat \<Rightarrow> string" where
  "strlcpy_str src n = take (n - 1) src"

definition strlcat_str :: "string \<Rightarrow> string \<Rightarrow> nat \<Rightarrow> string" where
  "strlcat_str dst src n = take (n - 1) (dst @ src)"

section \<open>The loops\<close>

text \<open>Writing a list of characters at an offset.\<close>

definition put :: "(nat \<Rightarrow> char) \<Rightarrow> nat \<Rightarrow> string \<Rightarrow> nat \<Rightarrow> char" where
  "put mem p s = (\<lambda>i. if p \<le> i \<and> i < p + length s then s ! (i - p) else mem i)"

lemma put_Nil [simp]: "put mem p [] = mem"
  by (rule ext) (auto simp: put_def)

lemma put_Cons: "put mem p (c # s) = put (mem(p := c)) (Suc p) s"
  by (auto simp: put_def fun_eq_iff nth_Cons')

lemma c_string_put:
  "CHR 0x00 \<notin> set s \<Longrightarrow> c_string_at ((put mem p s)(p + length s := CHR 0x00)) p s"
  by (auto simp: c_string_at_def put_def)

lemma c_string_tl: "c_string_at mem p (c # s) \<Longrightarrow> c_string_at mem (Suc p) s"
  unfolding c_string_at_def by fastforce

lemma size_bound:
  fixes i :: uint32 and n :: "64 word"
  assumes "1 \<le> unat n"
  shows "(ucast i :: 64 word) < n - 1 \<longleftrightarrow> unat i < unat n - 1"
proof -
  have "unat (n - 1) = unat n - 1"
    using assms by (metis unat_minus_one unat_0 not_one_le_zero)
  moreover have "unat (ucast i :: 64 word) = unat i"
    using unsigned_less[of i, where 'a = nat] by (simp add: unsigned_ucast_eq take_bit_nat_eq_self)
  ultimately show ?thesis by (simp add: word_less_nat_alt)
qed

lemma unat_inc: "unat (i :: uint32) < 2 ^ 32 - 1 \<Longrightarrow> unat (i + 1) = Suc (unat i)"
  by (simp add: unat_word_ariths)

lemma strlcpy_loop_spec:
  assumes "1 \<le> unat n" "unat n \<le> 2 ^ 32" "c_string_at src (unat i) s" "unat i < unat n"
  shows "\<exists>k. strlcpy_loop src n dst i = Some (put dst (unat i) (take (unat n - 1 - unat i) s), k) \<and>
    unat k = unat i + length (take (unat n - 1 - unat i) s)"
  using assms(3,4)
proof (induction s arbitrary: i dst)
  case Nil
  then show ?case
    by (subst strlcpy_loop.simps) (simp add: c_string_at_def)
next
  case (Cons c s)
  then have c: "src (unat i) = c" "c \<noteq> CHR 0x00" by (auto simp: c_string_at_def)
  show ?case
  proof (cases "unat i < unat n - 1")
    case True
    have i: "unat (i + 1) = Suc (unat i)" using True assms(2) by (intro unat_inc) linarith
    have "c_string_at src (unat (i + 1)) s"
      using c_string_tl[OF Cons.prems(1)] unfolding i by simp
    moreover have "strlcpy_loop src n dst i = strlcpy_loop src n (dst(unat i := c)) (i + 1)"
      using True c by (subst strlcpy_loop.simps) (simp add: size_bound[OF assms(1)])
    moreover have "take (unat n - 1 - unat i) (c # s) = c # take (unat n - 1 - unat (i + 1)) s"
      using True unfolding i by (simp add: take_Cons')
    ultimately show ?thesis
      using Cons.IH[of "i + 1" "dst(unat i := c)"] True i by (auto simp: put_Cons fun_upd_def)
  next
    case False
    then show ?thesis using Cons.prems
      by (subst strlcpy_loop.simps) (simp add: size_bound[OF assms(1)])
  qed
qed

lemma strlcat_end_spec:
  assumes "1 \<le> unat n" "unat n \<le> 2 ^ 32" "c_string_at dst (unat i) s" "unat i + length s < unat n"
  shows "\<exists>k. strlcat_end dst n i = Some k \<and> unat k = unat i + length s"
  using assms(3,4)
proof (induction s arbitrary: i)
  case Nil
  then show ?case by (subst strlcat_end.simps) (simp add: c_string_at_def)
next
  case (Cons c s)
  then have c: "dst (unat i) \<noteq> CHR 0x00" by (auto simp: c_string_at_def)
  have i: "unat (i + 1) = Suc (unat i)" using Cons.prems(2) assms(2) by (intro unat_inc) simp
  from Cons.IH[of "i + 1"] c_string_tl[OF Cons.prems(1)] Cons.prems(2) i c show ?case
    by (subst strlcat_end.simps) (auto simp: size_bound[OF assms(1)])
qed

lemma strlcat_loop_spec:
  assumes "1 \<le> unat n" "unat n \<le> 2 ^ 32" "c_string_at src (unat j) s" "unat i < unat n"
    and "unat j \<le> unat i"
  shows "\<exists>k. strlcat_loop src n dst i j = Some (put dst (unat i) (take (unat n - 1 - unat i) s), k) \<and>
    unat k = unat i + length (take (unat n - 1 - unat i) s)"
  using assms(3-5)
proof (induction s arbitrary: i j dst)
  case Nil
  then show ?case by (subst strlcat_loop.simps) (simp add: c_string_at_def)
next
  case (Cons c s)
  then have c: "src (unat j) = c" "c \<noteq> CHR 0x00" by (auto simp: c_string_at_def)
  show ?case
  proof (cases "unat i < unat n - 1")
    case True
    have i: "unat (i + 1) = Suc (unat i)" "unat (j + 1) = Suc (unat j)"
      using True assms(2) Cons.prems(3) by (auto intro!: unat_inc)
    have "c_string_at src (unat (j + 1)) s"
      using c_string_tl[OF Cons.prems(1)] unfolding i by simp
    moreover have "strlcat_loop src n dst i j = strlcat_loop src n (dst(unat i := c)) (i + 1) (j + 1)"
      using True c by (subst strlcat_loop.simps) (simp add: size_bound[OF assms(1)])
    moreover have "take (unat n - 1 - unat i) (c # s) = c # take (unat n - 1 - unat (i + 1)) s"
      using True unfolding i by (simp add: take_Cons')
    ultimately show ?thesis
      using Cons.IH[of "j + 1" "i + 1" "dst(unat i := c)"] True i Cons.prems(3)
      by (auto simp: put_Cons fun_upd_def)
  next
    case False
    then show ?thesis using Cons.prems
      by (subst strlcat_loop.simps) (simp add: size_bound[OF assms(1)])
  qed
qed

text \<open>What is in the array after the terminating NUL is written.\<close>

lemma c_string_put_take:
  assumes "c_string_at dst 0 d" "CHR 0x00 \<notin> set s"
  shows "c_string_at ((put dst (length d) s)(length d + length s := CHR 0x00)) 0 (d @ s)"
  using assms by (auto simp: c_string_at_def put_def nth_append)

section \<open>Properties\<close>

text \<open>C23: \<^verbatim>\<open>fb_strlcpy\<close> and \<^verbatim>\<open>fb_strlcat\<close> with a size from 1 to \<open>2 ^ 32\<close>, on a source that is a C string
  and, for the second, a destination that is one within the size: they return, the destination
  holds the source (the concatenation) cut off to \<open>dstsize - 1\<close> characters, no index beyond
  \<open>dstsize - 1\<close> is written, and the result is the number of characters in the destination plus
  one.\<close>

theorem fb_strl_correct:
  assumes "1 \<le> unat n" "unat n \<le> 2 ^ 32" "c_string_at src 0 s" "c_string_at dst 0 d" "length d < unat n"
  shows "(\<exists>dst' r. fb_strlcpy dst src n = Some (dst', r) \<and>
      c_string_at dst' 0 (strlcpy_str s (unat n)) \<and> (\<forall>i\<ge>unat n. dst' i = dst i)) \<and>
    (\<exists>dst' r. fb_strlcat dst src n = Some (dst', r) \<and>
      c_string_at dst' 0 (strlcat_str d s (unat n)) \<and> (\<forall>i\<ge>unat n. dst' i = dst i))"
proof
  have z: "CHR 0x00 \<notin> set (take m s)" for m
    using assms(3) by (auto simp: c_string_at_def dest: in_set_takeD)
  obtain k where L: "strlcpy_loop src n dst 0 = Some (put dst 0 (take (unat n - 1) s), k)"
    "unat k = length (take (unat n - 1) s)"
    using strlcpy_loop_spec[OF assms(1,2), of src 0 s dst] assms by auto
  have "\<forall>i\<ge>unat n. ((put dst 0 (take (unat n - 1) s))(unat k := CHR 0x00)) i = dst i"
    using assms(1) L(2) by (auto simp: put_def)
  with L c_string_put[OF z, of dst 0 "unat n - 1"]
  show "\<exists>dst' r. fb_strlcpy dst src n = Some (dst', r) \<and>
      c_string_at dst' 0 (strlcpy_str s (unat n)) \<and> (\<forall>i\<ge>unat n. dst' i = dst i)"
    by (auto simp: fb_strlcpy_def strlcpy_str_def)
  obtain j where E: "strlcat_end dst n 0 = Some j" "unat j = length d"
    using strlcat_end_spec[OF assms(1,2), of dst 0 d] assms(4,5) by auto
  let ?t = "take (unat n - 1 - length d) s"
  obtain k where M: "strlcat_loop src n dst j 0 = Some (put dst (length d) ?t, k)"
    "unat k = length d + length ?t"
    using strlcat_loop_spec[OF assms(1,2), of src 0 s j dst] assms(3,5) E by auto
  have "\<forall>i\<ge>unat n. ((put dst (length d) ?t)(unat k := CHR 0x00)) i = dst i"
    using assms(1,5) M(2) by (auto simp: put_def)
  moreover have "strlcat_str d s (unat n) = d @ ?t" using assms(5) by (simp add: strlcat_str_def)
  ultimately show "\<exists>dst' r. fb_strlcat dst src n = Some (dst', r) \<and>
      c_string_at dst' 0 (strlcat_str d s (unat n)) \<and> (\<forall>i\<ge>unat n. dst' i = dst i)"
    using E M c_string_put_take[OF assms(4) z, of "unat n - 1 - length d"]
    by (auto simp: fb_strlcat_def)
qed

theorem fb_strl_correct_witness:
  "let src = (\<lambda>i. if i < 3 then CHR ''x'' else CHR 0x00); dst = (\<lambda>i. if i < 2 then CHR ''/'' else CHR 0x00) in
   (\<exists>dst' r. fb_strlcpy dst src 3 = Some (dst', r) \<and> c_string_at dst' 0 ''xx'') \<and>
   (\<exists>dst' r. fb_strlcat dst src 4 = Some (dst', r) \<and> c_string_at dst' 0 ''//x'')"
proof -
  let ?src = "\<lambda>i::nat. if i < 3 then CHR ''x'' else CHR 0x00"
  let ?dst = "\<lambda>i::nat. if i < 2 then CHR ''/'' else CHR 0x00"
  have "c_string_at ?src 0 ''xxx'' \<and> c_string_at ?dst 0 ''//''"
    by (simp add: c_string_at_def less_Suc_eq numeral_3_eq_3 numeral_2_eq_2)
  then have c: "c_string_at ?src 0 ''xxx''" "c_string_at ?dst 0 ''//''" by blast+
  have "\<exists>dst' r. fb_strlcpy ?dst ?src 3 = Some (dst', r) \<and> c_string_at dst' 0 ''xx''"
    using fb_strl_correct[OF _ _ c, of 3] by (simp add: strlcpy_str_def) blast
  moreover have "\<exists>dst' r. fb_strlcat ?dst ?src 4 = Some (dst', r) \<and> c_string_at dst' 0 ''//x''"
    using fb_strl_correct[OF _ _ c, of 4] by (simp add: strlcat_str_def) blast
  ultimately show ?thesis by (simp add: Let_def)
qed

text \<open>With a size of 0 the bound of \<^verbatim>\<open>fb_strlcpy\<close> wraps around: the whole source is copied,
  although the destination has no room. The result is the number of characters copied plus one
  and never the length of a longer source, so a caller cannot see that a string was cut off.\<close>

theorem fb_strlcpy_size_zero:
  assumes "c_string_at src 0 s" "length s < 2 ^ 32 - 1"
  shows "\<exists>dst'. fb_strlcpy dst src 0 = Some (dst', of_nat (length s + 1)) \<and> c_string_at dst' 0 s"
proof -
  have lt: "(ucast (i :: uint32) :: 64 word) < 0 - 1" for i
  proof -
    have "unat (ucast i :: 64 word) = unat i"
      using unsigned_less[of i, where 'a = nat] by (simp add: unsigned_ucast_eq take_bit_nat_eq_self)
    then show ?thesis
      using unsigned_less[of i, where 'a = nat] by (simp add: word_less_nat_alt unsigned_minus_1_eq_mask mask_eq_exp_minus_1)
  qed
  have "c_string_at src (unat i) t \<Longrightarrow> unat i + length t < 2 ^ 32 - 1 \<Longrightarrow>
      \<exists>k. strlcpy_loop src 0 dst i = Some (put dst (unat i) t, k) \<and> unat k = unat i + length t" for i t dst
  proof (induction t arbitrary: i dst)
    case Nil
    then show ?case by (subst strlcpy_loop.simps) (simp add: c_string_at_def)
  next
    case (Cons c t)
    have c: "src (unat i) = c" "c \<noteq> CHR 0x00" using Cons.prems(1) by (auto simp: c_string_at_def)
    have i: "unat (i + 1) = Suc (unat i)" using Cons.prems(2) by (intro unat_inc) simp
    have "strlcpy_loop src 0 dst i = strlcpy_loop src 0 (dst(unat i := c)) (i + 1)"
      using c lt by (subst strlcpy_loop.simps) simp
    with Cons.IH[of "i + 1" "dst(unat i := c)"] c_string_tl[OF Cons.prems(1)] Cons.prems(2) i
    show ?case by (auto simp: put_Cons fun_upd_def)
  qed
  from this[of 0 s dst] assms obtain k where
    K: "strlcpy_loop src 0 dst 0 = Some (put dst 0 s, k)" "unat k = length s" by auto
  have "(ucast (k + 1) :: 64 word) = of_nat (length s + 1)"
    by (rule word_unat_eq_iff[THEN iffD2])
      (use unat_inc[of k] K(2) assms(2) in \<open>simp add: unsigned_ucast_eq unsigned_of_nat take_bit_nat_eq_self unat_word_ariths\<close>)
  with K c_string_put[of s dst 0] assms(1) show ?thesis
    by (auto simp: fb_strlcpy_def c_string_at_def[of src])
qed

theorem fb_strlcpy_size_zero_witness:
  "\<exists>dst'. fb_strlcpy (\<lambda>i. CHR ''a'') (\<lambda>i. if i < 2 then CHR ''x'' else CHR 0x00) 0 = Some (dst', 3) \<and>
     c_string_at dst' 0 ''xx''"
proof -
  have "c_string_at (\<lambda>i. if i < 2 then CHR ''x'' else CHR 0x00) 0 ''xx''"
    by (simp add: c_string_at_def less_Suc_eq numeral_2_eq_2)
  from fb_strlcpy_size_zero[OF this, of "\<lambda>i. CHR ''a''"] show ?thesis by simp
qed

end
