(* ===== verification/FB_Ipc.thy ===== *)
theory FB_Ipc
  imports FB_Utils
begin

text \<open>
  The shared-memory allocators of \<^verbatim>\<open>ipc.c\<close>: the object pools with their allocation maps, the
  string and path memory, the heap of the custom variables, the semaphore table and the ISM
  region. The addresses of the pools and the sizes of their objects are the layout, an
  argument of the operations that compute addresses. Each call holds \<^verbatim>\<open>shm_malloc_lock\<close> or
  \<^verbatim>\<open>shm_ism_lock\<close> throughout and is one step. A call of \<^verbatim>\<open>filebench_shutdown\<close> ends the process.
\<close>

section \<open>Object types and pools\<close>

definition FILEBENCH_FILESET :: nat where "FILEBENCH_FILESET = 0"
definition FILEBENCH_FILESETENTRY :: nat where "FILEBENCH_FILESETENTRY = 1"
definition FILEBENCH_PROCFLOW :: nat where "FILEBENCH_PROCFLOW = 2"
definition FILEBENCH_THREADFLOW :: nat where "FILEBENCH_THREADFLOW = 3"
definition FILEBENCH_FLOWOP :: nat where "FILEBENCH_FLOWOP = 4"
definition FILEBENCH_VARIABLE :: nat where "FILEBENCH_VARIABLE = 5"
definition FILEBENCH_AVD :: nat where "FILEBENCH_AVD = 6"
definition FILEBENCH_RANDDIST :: nat where "FILEBENCH_RANDDIST = 7"
definition FILEBENCH_CVAR :: nat where "FILEBENCH_CVAR = 8"
definition FILEBENCH_CVAR_LIB_INFO :: nat where "FILEBENCH_CVAR_LIB_INFO = 9"
definition FILEBENCH_MAXTYPE :: nat where "FILEBENCH_MAXTYPE = FILEBENCH_CVAR_LIB_INFO + 1"

lemmas obj_type_defs = FILEBENCH_FILESET_def FILEBENCH_FILESETENTRY_def FILEBENCH_PROCFLOW_def
  FILEBENCH_THREADFLOW_def FILEBENCH_FLOWOP_def FILEBENCH_VARIABLE_def FILEBENCH_AVD_def
  FILEBENCH_RANDDIST_def FILEBENCH_CVAR_def FILEBENCH_CVAR_LIB_INFO_def FILEBENCH_MAXTYPE_def

text \<open>The number of elements of each pool array.\<close>

definition pool_length :: "nat \<Rightarrow> nat" where
  "pool_length t = [16, 1024 * 1024, 1024, 1024, 16 * 1024, 1024, 4096, 16, 16, 32] ! t"

text \<open>
  The layout: where each pool starts and the size of its elements. \<^verbatim>\<open>avd_t\<close> is a pointer type
  (8 bytes), but the elements of the pool of attribute descriptors are the structures.
\<close>

record ipc_layout =
  pool_base :: "nat \<Rightarrow> ptr"
  pool_stride :: "nat \<Rightarrow> nat"

definition sizeof_avd_t :: nat where "sizeof_avd_t = 8"

definition obj_size :: "ipc_layout \<Rightarrow> nat \<Rightarrow> nat" where
  "obj_size L t = (if t = FILEBENCH_AVD then sizeof_avd_t else pool_stride L t)"

text \<open>\<^verbatim>\<open>preallocated_entries\<close>; an unknown type shuts the process down (\<open>None\<close>).\<close>

definition preallocated_entries :: "ipc_layout \<Rightarrow> nat \<Rightarrow> nat option" where
  "preallocated_entries L t =
     (if t < FILEBENCH_MAXTYPE then Some (pool_length t * pool_stride L t div obj_size L t)
      else None)"

section \<open>The shared state\<close>

record ipc_shm =
  shm_bitmap :: "nat \<Rightarrow> nat \<Rightarrow> int"
  shm_lastbitmapindex :: "nat \<Rightarrow> nat"

section \<open>Allocating and freeing objects\<close>

text \<open>The loop of \<^verbatim>\<open>ipc_malloc\<close>: the index where it stops. \<open>None\<close> is a loop that never ends.\<close>

partial_function (option) ipc_malloc_loop ::
  "(nat \<Rightarrow> int) \<Rightarrow> nat \<Rightarrow> nat \<Rightarrow> nat \<Rightarrow> nat option" where
  "ipc_malloc_loop bitmap max_idx start_idx i =
     (let i = i + 1; i = (if i > max_idx then 0 else i) in
      if bitmap i = 0 then Some i
      else if i \<noteq> start_idx then ipc_malloc_loop bitmap max_idx start_idx i
      else Some i)"

definition obj_addr :: "ipc_layout \<Rightarrow> nat \<Rightarrow> nat \<Rightarrow> ptr" where
  "obj_addr L t i = pool_base L t + i * pool_stride L t"

text \<open>
  \<^verbatim>\<open>ipc_malloc\<close>: the result is the address (NULL when the loop came back to where it started)
  and the new state. The memory at the address is zeroed by the call; the component that owns
  the objects of that type starts from a zeroed object.
\<close>

definition ipc_malloc :: "ipc_layout \<Rightarrow> ipc_shm \<Rightarrow> nat \<Rightarrow> (ptr \<times> ipc_shm) option" where
  "ipc_malloc L shm t =
     Option.bind (preallocated_entries L t) (\<lambda>entries.
       let start_idx = shm_lastbitmapindex shm t; max_idx = entries - 1 in
       Option.bind (ipc_malloc_loop (shm_bitmap shm t) max_idx start_idx start_idx) (\<lambda>i.
         if i = start_idx then Some (NULL, shm)
         else
           let shm = shm\<lparr>shm_bitmap := (shm_bitmap shm)(t := (shm_bitmap shm t)(i := 1))\<rparr>;
               shm = shm\<lparr>shm_lastbitmapindex := (shm_lastbitmapindex shm)(t := i)\<rparr>
           in Some (obj_addr L t i, shm)))"

text \<open>\<^verbatim>\<open>ipc_free\<close>, for the ten object types (for any other the C code divides by zero).\<close>

definition ipc_free :: "ipc_layout \<Rightarrow> ipc_shm \<Rightarrow> nat \<Rightarrow> ptr \<Rightarrow> ipc_shm" where
  "ipc_free L shm t addr =
     (if addr = NULL then shm
      else
        let offset = addr - pool_base L t;
            item = offset div obj_size L t
        in shm\<lparr>shm_bitmap := (shm_bitmap shm)(t := (shm_bitmap shm t)(item := 0))\<rparr>)"

section \<open>Strings, paths and the custom-variable heap\<close>

text \<open>
  A region of characters filled from the start: \<open>cm_ptr\<close> is the offset of the first unused
  character. \<^verbatim>\<open>strncpy\<close> with the length of the string copies no terminating NUL. \<open>None\<close> is the
  NULL result; the pointer has been advanced all the same.
\<close>

record char_memory =
  cm_mem :: "nat \<Rightarrow> char"
  cm_ptr :: nat

definition FILEBENCH_STRINGMEMORY :: nat where "FILEBENCH_STRINGMEMORY = 1024 * 128"
definition FILEBENCH_FILESETPATHMEMORY :: nat where
  "FILEBENCH_FILESETPATHMEMORY = (1024 * 1024) * 16"
definition FILEBENCH_CVAR_HEAPSIZE :: nat where "FILEBENCH_CVAR_HEAPSIZE = 16 * 4096"

definition strncpy_at :: "(nat \<Rightarrow> char) \<Rightarrow> nat \<Rightarrow> string \<Rightarrow> nat \<Rightarrow> char" where
  "strncpy_at mem p s = (\<lambda>i. if p \<le> i \<and> i < p + length s then s ! (i - p) else mem i)"

definition ipc_stralloc :: "char_memory \<Rightarrow> string \<Rightarrow> nat option \<times> char_memory" where
  "ipc_stralloc m string =
     (let allocstr = cm_ptr m; m = m\<lparr>cm_ptr := cm_ptr m + length string + 1\<rparr> in
      if cm_ptr m > FILEBENCH_STRINGMEMORY then (None, m)
      else (Some allocstr, m\<lparr>cm_mem := strncpy_at (cm_mem m) allocstr string\<rparr>))"

definition ipc_pathalloc :: "char_memory \<Rightarrow> string \<Rightarrow> nat option \<times> char_memory" where
  "ipc_pathalloc m path =
     (let allocpath = cm_ptr m; m = m\<lparr>cm_ptr := cm_ptr m + length path + 1\<rparr> in
      if cm_ptr m > FILEBENCH_FILESETPATHMEMORY then (None, m)
      else (Some allocpath, m\<lparr>cm_mem := strncpy_at (cm_mem m) allocpath path\<rparr>))"

definition ipc_freepaths :: "char_memory \<Rightarrow> char_memory" where
  "ipc_freepaths m = m\<lparr>cm_ptr := 0\<rparr>"

definition ipc_cvar_heapalloc :: "nat \<Rightarrow> nat \<Rightarrow> nat option \<times> nat" where
  "ipc_cvar_heapalloc heapsize sz =
     (if heapsize + sz \<le> FILEBENCH_CVAR_HEAPSIZE then (Some heapsize, heapsize + sz)
      else (None, heapsize))"

section \<open>Semaphores\<close>

definition FILEBENCH_NSEMS :: nat where "FILEBENCH_NSEMS = 128"

text \<open>The table of semaphores and the bytes that follow it in memory; \<open>Inl\<close> is a shutdown.\<close>

partial_function (option) ipc_semid_loop :: "(nat \<Rightarrow> int) \<Rightarrow> nat \<Rightarrow> nat option" where
  "ipc_semid_loop semids semid =
     (if semids semid = 1 then ipc_semid_loop semids (semid + 1) else Some semid)"

definition ipc_semidalloc :: "(nat \<Rightarrow> int) \<Rightarrow> (unit + nat \<times> (nat \<Rightarrow> int)) option" where
  "ipc_semidalloc semids =
     map_option
       (\<lambda>semid. if semid = FILEBENCH_NSEMS then Inl () else Inr (semid, semids(semid := 1)))
       (ipc_semid_loop semids 0)"

definition ipc_semidfree :: "(nat \<Rightarrow> int) \<Rightarrow> nat \<Rightarrow> nat \<Rightarrow> int" where
  "ipc_semidfree semids semid = semids(semid := 0)"

section \<open>The ISM region\<close>

text \<open>
  The region of per-thread memory. The results of \<^verbatim>\<open>shmget\<close> and \<^verbatim>\<open>shmat\<close> are arguments (-1 and
  the pointer with all bits set when they fail). \<^verbatim>\<open>ipc_init\<close> leaves \<^verbatim>\<open>shm_ism_lock\<close> locked; an allocation before the
  region exists blocks (\<open>None\<close>).
\<close>

record ism_state =
  shm_id :: int
  shm_addr :: ptr
  shm_ptr :: ptr
  shm_allocated :: nat
  shm_ism_locked :: bool

definition shmat_failed :: ptr where "shmat_failed = 2 ^ 64 - 1"

definition ipc_ismcreate :: "int \<Rightarrow> ptr \<Rightarrow> ism_state \<Rightarrow> int \<times> ism_state" where
  "ipc_ismcreate shmget_ret shmat_ret st =
     (if shm_id st \<noteq> -1 then (0, st)
      else
        let st = st\<lparr>shm_id := shmget_ret\<rparr> in
        if shmget_ret = -1 then (-1, st)
        else
          let st = st\<lparr>shm_addr := shmat_ret\<rparr> in
          if shmat_ret = shmat_failed then (-1, st)
          else (0, st\<lparr>shm_ptr := shm_addr st, shm_ism_locked := False\<rparr>))"

definition ipc_ismmalloc :: "ism_state \<Rightarrow> nat \<Rightarrow> (ptr \<times> ism_state) option" where
  "ipc_ismmalloc st sz =
     (if shm_ism_locked st then None
      else Some (shm_ptr st,
        st\<lparr>shm_ptr := shm_ptr st + sz, shm_allocated := shm_allocated st + sz\<rparr>))"

definition ipc_ismdelete :: "ism_state \<Rightarrow> ism_state option" where
  "ipc_ismdelete st =
     (if shm_id st = -1 then Some st
      else if shm_ism_locked st then None
      else Some (st\<lparr>shm_ptr := shm_addr st, shm_id := -1, shm_allocated := 0\<rparr>))"

section \<open>The allocation loop\<close>

text \<open>The slots the loop visits between \<open>i\<close> and its start, in cyclic order.\<close>

definition between :: "nat \<Rightarrow> nat \<Rightarrow> nat \<Rightarrow> nat set" where
  "between m start i = {x. x \<le> m \<and> (if i < start then i < x \<and> x < start else i < x \<or> x < start)}"

lemma ipc_malloc_loop_spec:
  assumes "start \<le> m" "i \<le> m"
  shows "\<exists>r. ipc_malloc_loop bm m start i = Some r \<and> r \<le> m \<and>
    (if r = start then \<forall>x\<in>between m start i. bm x \<noteq> 0 else bm r = 0)"
  using assms(2)
proof (induction "if i < start then start - i else start + m + 1 - i" arbitrary: i rule: less_induct)
  case less
  define j where "j = (if i + 1 > m then 0 else i + 1)"
  have step: "ipc_malloc_loop bm m start i =
      (if bm j = 0 then Some j else if j \<noteq> start then ipc_malloc_loop bm m start j else Some j)"
    by (subst ipc_malloc_loop.simps) (simp add: Let_def j_def)
  have jm: "j \<le> m" using less.prems by (simp add: j_def)
  have bt: "between m start i \<subseteq> insert j (between m start j)" if "j \<noteq> start"
    using that less.prems assms(1) by (auto simp: between_def j_def split: if_splits)
  have bs: "between m start i = {}" if "j = start"
    using that less.prems assms(1) by (auto simp: between_def j_def split: if_splits)
  show ?case
  proof (cases "bm j = 0 \<or> j = start")
    case True
    then show ?thesis using step jm bs by auto
  next
    case False
    have "(if j < start then start - j else start + m + 1 - j) <
        (if i < start then start - i else start + m + 1 - i)"
      using False less.prems assms(1) by (auto simp: j_def split: if_splits)
    from less.hyps[OF this jm] show ?thesis using False step bt by (auto split: if_splits)
  qed
qed

lemma between_start: "start \<le> m \<Longrightarrow> between m start start = {x. x \<le> m \<and> x \<noteq> start}"
  by (auto simp: between_def)

section \<open>The allocator contract\<close>

text \<open>
  A pool of objects: allocation either fails and changes nothing or returns an object that was
  not live; freeing a live object makes it not live and touches no other.
\<close>

locale slot_allocator =
  fixes inv :: "'s \<Rightarrow> bool"
    and live :: "'s \<Rightarrow> ptr set"
    and alloc :: "'s \<Rightarrow> (ptr \<times> 's) option"
    and free :: "'s \<Rightarrow> ptr \<Rightarrow> 's"
  assumes alloc_returns: "inv s \<Longrightarrow> \<exists>p s'. alloc s = Some (p, s')"
    and alloc_null: "inv s \<Longrightarrow> alloc s = Some (NULL, s') \<Longrightarrow> s' = s"
    and alloc_new: "inv s \<Longrightarrow> alloc s = Some (p, s') \<Longrightarrow> p \<noteq> NULL \<Longrightarrow>
      p \<notin> live s \<and> live s' = insert p (live s) \<and> inv s'"
    and free_live: "inv s \<Longrightarrow> p \<in> live s \<Longrightarrow> live (free s p) = live s - {p} \<and> inv (free s p)"
begin

lemma alloc_inv: "inv s \<Longrightarrow> alloc s = Some (p, s') \<Longrightarrow> inv s'"
  using alloc_null alloc_new by metis

lemma alloc_free: "inv s \<Longrightarrow> alloc s = Some (p, s') \<Longrightarrow> p \<noteq> NULL \<Longrightarrow> live (free s' p) = live s"
  using alloc_new free_live by (metis Diff_insert_absorb insertI1)

text \<open>Objects allocated one after the other are different from each other and from the objects
  that were live before.\<close>

lemma alloc_many:
  assumes "inv s" "length ps = n" "length ss = Suc n" "ss ! 0 = s"
    and "\<forall>k<n. alloc (ss ! k) = Some (ps ! k, ss ! Suc k) \<and> ps ! k \<noteq> NULL"
  shows "distinct ps \<and> set ps \<inter> live s = {} \<and> live (ss ! n) = live s \<union> set ps \<and> inv (ss ! n)"
proof -
  have "k \<le> n \<Longrightarrow> distinct (take k ps) \<and> set (take k ps) \<inter> live s = {} \<and>
      live (ss ! k) = live s \<union> set (take k ps) \<and> inv (ss ! k)" for k
  proof (induction k)
    case (Suc k)
    then have A: "alloc (ss ! k) = Some (ps ! k, ss ! Suc k)" "ps ! k \<noteq> NULL" "inv (ss ! k)"
      using assms(5) by auto
    note alloc_new[OF A(3,1,2)]
    moreover have "take (Suc k) ps = take k ps @ [ps ! k]"
      using Suc.prems assms(2) by (simp add: take_Suc_conv_app_nth)
    ultimately show ?case using Suc by auto
  qed (use assms in auto)
  from this[of n] show ?thesis using assms(2) by simp
qed

end

section \<open>The pools as allocators\<close>

definition ipc_live :: "ipc_layout \<Rightarrow> nat \<Rightarrow> ipc_shm \<Rightarrow> ptr set" where
  "ipc_live L t shm = {obj_addr L t i |i. i < pool_length t \<and> shm_bitmap shm t i \<noteq> 0}"

definition ipc_inv :: "ipc_layout \<Rightarrow> nat \<Rightarrow> ipc_shm \<Rightarrow> bool" where
  "ipc_inv L t shm \<longleftrightarrow>
     t < FILEBENCH_MAXTYPE \<and> t \<noteq> FILEBENCH_AVD \<and> pool_base L t > 0 \<and> pool_stride L t > 0 \<and>
     shm_lastbitmapindex shm t < pool_length t"

lemma pool_length_pos: "t < FILEBENCH_MAXTYPE \<Longrightarrow> pool_length t > 0"
  unfolding obj_type_defs pool_length_def
  by (cases t rule: nat.exhaust) (auto simp: less_Suc_eq nth_Cons')

lemma obj_addr_inj: "pool_stride L t > 0 \<Longrightarrow> obj_addr L t i = obj_addr L t j \<longleftrightarrow> i = j"
  by (simp add: obj_addr_def)

text \<open>What \<^verbatim>\<open>ipc_malloc\<close> returns: NULL exactly when every slot other than the last one handed out
  is in use, and otherwise a slot that was free.\<close>

lemma ipc_malloc_spec:
  assumes "t < FILEBENCH_MAXTYPE" "preallocated_entries L t = Some n"
    and "shm_lastbitmapindex shm t < n"
  shows "if \<forall>x<n. x \<noteq> shm_lastbitmapindex shm t \<longrightarrow> shm_bitmap shm t x \<noteq> 0
     then ipc_malloc L shm t = Some (NULL, shm)
     else \<exists>i<n. i \<noteq> shm_lastbitmapindex shm t \<and> shm_bitmap shm t i = 0 \<and>
       ipc_malloc L shm t = Some (obj_addr L t i,
         shm\<lparr>shm_bitmap := (shm_bitmap shm)(t := (shm_bitmap shm t)(i := 1)),
             shm_lastbitmapindex := (shm_lastbitmapindex shm)(t := i)\<rparr>)"
proof -
  let ?s = "shm_lastbitmapindex shm t" and ?b = "shm_bitmap shm t"
  have s: "?s \<le> n - 1" using assms(3) by simp
  obtain r where r: "ipc_malloc_loop ?b (n - 1) ?s ?s = Some r" "r \<le> n - 1"
    "if r = ?s then \<forall>x\<in>between (n - 1) ?s ?s. ?b x \<noteq> 0 else ?b r = 0"
    using ipc_malloc_loop_spec[OF s s] by blast
  have bt: "x \<in> between (n - 1) ?s ?s \<longleftrightarrow> x < n \<and> x \<noteq> ?s" for x
    unfolding between_start[OF s] using assms(3) by auto
  show ?thesis
  proof (cases "r = ?s")
    case True
    then show ?thesis using r bt assms(2) by (simp add: ipc_malloc_def Let_def)
  next
    case False
    then have "r < n" "?b r = 0" using r assms(3) by (auto split: if_splits)
    then show ?thesis using r(1) False assms(2) by (auto simp: ipc_malloc_def Let_def)
  qed
qed

lemma preallocated_pool: "ipc_inv L t shm \<Longrightarrow> preallocated_entries L t = Some (pool_length t)"
  by (auto simp: ipc_inv_def preallocated_entries_def obj_size_def)

lemma obj_item: "ipc_inv L t shm \<Longrightarrow> (obj_addr L t i - pool_base L t) div obj_size L t = i"
  by (auto simp: ipc_inv_def obj_addr_def obj_size_def)

interpretation ipc: slot_allocator "ipc_inv L t" "ipc_live L t" "\<lambda>shm. ipc_malloc L shm t"
  "\<lambda>shm p. ipc_free L shm t p" for L t
proof
  fix shm shm' p
  assume I: "ipc_inv L t shm"
  then have n: "pool_length t > 0" "pool_stride L t > 0" "pool_base L t > 0"
    "t < FILEBENCH_MAXTYPE" "shm_lastbitmapindex shm t < pool_length t"
    using pool_length_pos by (auto simp: ipc_inv_def)
  note M = ipc_malloc_spec[OF n(4) preallocated_pool[OF I] n(5)]
  show "\<exists>p s'. ipc_malloc L shm t = Some (p, s')" using M by (auto split: if_splits)
  show "shm' = shm" if "ipc_malloc L shm t = Some (NULL, shm')"
    using M that n(3) by (auto simp: obj_addr_def split: if_splits)
  show "p \<notin> ipc_live L t shm \<and> ipc_live L t shm' = insert p (ipc_live L t shm) \<and> ipc_inv L t shm'"
    if "ipc_malloc L shm t = Some (p, shm')" "p \<noteq> NULL"
    using M that I obj_addr_inj[OF n(2)]
    by (auto simp: ipc_live_def ipc_inv_def split: if_splits)
  show "ipc_live L t (ipc_free L shm t p) = ipc_live L t shm - {p} \<and> ipc_inv L t (ipc_free L shm t p)"
    if live: "p \<in> ipc_live L t shm"
  proof -
    obtain i where p: "p = obj_addr L t i" "i < pool_length t" using live by (auto simp: ipc_live_def)
    then have "p \<noteq> NULL" using n(3) by (simp add: obj_addr_def)
    then show ?thesis using I obj_addr_inj[OF n(2)]
      by (auto simp: ipc_free_def Let_def p obj_item[OF I] ipc_live_def ipc_inv_def)
  qed
qed

section \<open>Strings\<close>

definition unused_zero :: "char_memory \<Rightarrow> bool" where
  "unused_zero m \<longleftrightarrow> (\<forall>i\<ge>cm_ptr m. cm_mem m i = CHR 0x00)"

lemma strncpy_string:
  assumes "\<forall>i\<ge>p. mem i = CHR 0x00" "CHR 0x00 \<notin> set s"
  shows "c_string_at (strncpy_at mem p s) p s"
  using assms by (simp add: c_string_at_def strncpy_at_def)

lemma strncpy_other:
  assumes "c_string_at mem q r" "q + length r < p"
  shows "c_string_at (strncpy_at mem p s) q r"
  using assms by (simp add: c_string_at_def strncpy_at_def)

section \<open>The semaphore scan\<close>

lemma ipc_semid_loop_spec:
  assumes "semids r \<noteq> 1" "\<forall>i. k \<le> i \<and> i < r \<longrightarrow> semids i = 1" "k \<le> r"
  shows "ipc_semid_loop semids k = Some r"
  using assms(2,3)
proof (induction "r - k" arbitrary: k)
  case 0
  then show ?case using assms(1) by (subst ipc_semid_loop.simps) auto
next
  case (Suc d)
  have "ipc_semid_loop semids (Suc k) = Some r" using Suc by auto
  moreover have "semids k = 1" using Suc by auto
  ultimately show ?case by (subst ipc_semid_loop.simps) simp
qed

lemma ipc_semid_loop_free:
  assumes "ipc_semid_loop semids k = Some r"
  shows "semids r \<noteq> 1"
  by (rule ipc_semid_loop.raw_induct[of "\<lambda>s k r. s r \<noteq> 1", OF _ assms]) (metis option.inject)

section \<open>Properties\<close>

text \<open>C10: \<^verbatim>\<open>ipc_malloc\<close> on a pool other than the descriptors always returns. It fails exactly when
  every slot but the last one it handed out is in use, and then changes nothing; otherwise it
  returns the address of a slot that was free, marks that slot and no other, and keeps the
  invariant of the pool.\<close>

theorem ipc_malloc_correct:
  assumes "ipc_inv L t shm"
  shows "\<exists>p shm'. ipc_malloc L shm t = Some (p, shm') \<and> ipc_inv L t shm' \<and>
    (p = NULL \<longleftrightarrow> (\<forall>i<pool_length t. i \<noteq> shm_lastbitmapindex shm t \<longrightarrow> shm_bitmap shm t i \<noteq> 0)) \<and>
    (if p = NULL then shm' = shm
     else p \<notin> ipc_live L t shm \<and> ipc_live L t shm' = insert p (ipc_live L t shm))"
proof -
  have n: "t < FILEBENCH_MAXTYPE" "shm_lastbitmapindex shm t < pool_length t" "pool_base L t > 0"
    using assms by (auto simp: ipc_inv_def)
  obtain p shm' where R: "ipc_malloc L shm t = Some (p, shm')"
    using ipc.alloc_returns[OF assms] by blast
  have "p = NULL \<longleftrightarrow> (\<forall>i<pool_length t. i \<noteq> shm_lastbitmapindex shm t \<longrightarrow> shm_bitmap shm t i \<noteq> 0)"
    using ipc_malloc_spec[OF n(1) preallocated_pool[OF assms] n(2)] R n(3)
    by (auto simp: obj_addr_def split: if_splits)
  then show ?thesis
    using R ipc.alloc_inv[OF assms R] ipc.alloc_null[OF assms] ipc.alloc_new[OF assms R] by auto
qed

definition demo_layout :: ipc_layout where
  "demo_layout = \<lparr>pool_base = (\<lambda>t. 4096), pool_stride = (\<lambda>t. 16)\<rparr>"

definition demo_shm :: ipc_shm where
  "demo_shm = \<lparr>shm_bitmap = (\<lambda>t i. 0), shm_lastbitmapindex = (\<lambda>t. 0)\<rparr>"

theorem ipc_malloc_correct_witness:
  "\<exists>p shm'. ipc_malloc demo_layout demo_shm 4 = Some (p, shm') \<and> p \<noteq> NULL \<and>
     ipc_live demo_layout 4 shm' = insert p (ipc_live demo_layout 4 demo_shm)"
proof -
  have i: "ipc_inv demo_layout 4 demo_shm"
    by (simp add: ipc_inv_def demo_layout_def demo_shm_def obj_type_defs pool_length_def)
  have "\<not> (\<forall>i<pool_length 4. i \<noteq> shm_lastbitmapindex demo_shm 4 \<longrightarrow> shm_bitmap demo_shm 4 i \<noteq> 0)"
    by (auto simp: demo_shm_def pool_length_def intro!: exI[of _ 1])
  with ipc_malloc_correct[OF i] show ?thesis by metis
qed


definition demo_step :: "ipc_shm \<Rightarrow> nat \<Rightarrow> ipc_shm" where
  "demo_step shm i = shm\<lparr>shm_bitmap := (shm_bitmap shm)(4 := (shm_bitmap shm 4)(i := 1)),
     shm_lastbitmapindex := (shm_lastbitmapindex shm)(4 := i)\<rparr>"




text \<open>The pool of attribute descriptors. With 16-byte descriptors \<^verbatim>\<open>preallocated_entries\<close> counts
  twice as many entries as the pool array has, because it divides by the size of the pointer
  type \<^verbatim>\<open>avd_t\<close>. When the 4096 descriptors are in use, the next allocation succeeds and returns
  the address just past the end of the array.\<close>

theorem ipc_malloc_avd_overrun:
  assumes "pool_stride L FILEBENCH_AVD = 16" "shm_lastbitmapindex shm FILEBENCH_AVD = 4095"
    and "\<forall>i<4096. shm_bitmap shm FILEBENCH_AVD i = 1" "shm_bitmap shm FILEBENCH_AVD 4096 = 0"
  shows "preallocated_entries L FILEBENCH_AVD = Some (2 * pool_length FILEBENCH_AVD) \<and>
    (\<exists>shm'. ipc_malloc L shm FILEBENCH_AVD =
       Some (pool_base L FILEBENCH_AVD + pool_length FILEBENCH_AVD * 16, shm'))"
proof -
  have e: "preallocated_entries L FILEBENCH_AVD = Some 8192"
    using assms(1) by (simp add: preallocated_entries_def obj_size_def sizeof_avd_t_def obj_type_defs
        pool_length_def)
  have "ipc_malloc_loop (shm_bitmap shm FILEBENCH_AVD) 8191 4095 4095 = Some 4096"
    using assms(4) by (subst ipc_malloc_loop.simps) simp
  then show ?thesis
    using e assms(1,2) by (simp add: ipc_malloc_def obj_addr_def Let_def pool_length_def obj_type_defs)
qed

theorem ipc_malloc_avd_overrun_witness:
  "let shm = demo_shm\<lparr>shm_bitmap := (\<lambda>t i. if i < 4096 then 1 else 0),
                     shm_lastbitmapindex := (\<lambda>t. 4095)\<rparr> in
   \<exists>shm'. ipc_malloc demo_layout shm FILEBENCH_AVD = Some (4096 + 4096 * 16, shm')"
proof -
  let ?shm = "demo_shm\<lparr>shm_bitmap := (\<lambda>t i. if i < 4096 then 1 else 0),
                     shm_lastbitmapindex := (\<lambda>t. 4095)\<rparr>"
  have "pool_stride demo_layout FILEBENCH_AVD = 16" "pool_base demo_layout FILEBENCH_AVD = 4096"
    "pool_length FILEBENCH_AVD = 4096"
    by (simp_all add: demo_layout_def pool_length_def obj_type_defs)
  with ipc_malloc_avd_overrun[of demo_layout ?shm] show ?thesis by simp
qed

text \<open>Freeing the descriptor in slot \<open>i\<close> clears the map entry of slot \<open>2 i\<close>, for the same reason;
  the freed descriptor stays marked as allocated.\<close>

theorem ipc_free_avd_wrong_slot:
  assumes "pool_stride L FILEBENCH_AVD = 16" "pool_base L FILEBENCH_AVD > 0" "0 < i"
  shows "shm_bitmap (ipc_free L shm FILEBENCH_AVD (obj_addr L FILEBENCH_AVD i)) FILEBENCH_AVD =
    (shm_bitmap shm FILEBENCH_AVD)(2 * i := 0)"
  using assms by (simp add: ipc_free_def obj_addr_def obj_size_def sizeof_avd_t_def Let_def)

theorem ipc_free_avd_wrong_slot_witness:
  "let shm = demo_shm\<lparr>shm_bitmap := (\<lambda>t i. 1)\<rparr>;
       shm' = ipc_free demo_layout shm FILEBENCH_AVD (obj_addr demo_layout FILEBENCH_AVD 3) in
   shm_bitmap shm' FILEBENCH_AVD 3 = 1 \<and> shm_bitmap shm' FILEBENCH_AVD 6 = 0"
proof -
  have "pool_stride demo_layout FILEBENCH_AVD = 16" "pool_base demo_layout FILEBENCH_AVD > 0"
    by (simp_all add: demo_layout_def)
  from ipc_free_avd_wrong_slot[OF this, of 3] show ?thesis by simp
qed

text \<open>C21: as long as the unused part of the string memory is zero, a string that was allocated with
  \<^verbatim>\<open>ipc_stralloc\<close> reads back, every string allocated before keeps its value, and the unused part
  stays zero; past the end of the memory the call returns NULL and writes nothing.\<close>

theorem ipc_stralloc_roundtrip:
  assumes "unused_zero m" "CHR 0x00 \<notin> set s"
  shows "case ipc_stralloc m s of
      (Some p, m') \<Rightarrow> p + length s < FILEBENCH_STRINGMEMORY \<and> unused_zero m' \<and>
         c_string_at (cm_mem m') p s \<and>
         (\<forall>q r. c_string_at (cm_mem m) q r \<longrightarrow> q + length r < cm_ptr m \<longrightarrow>
            c_string_at (cm_mem m') q r)
    | (None, m') \<Rightarrow> FILEBENCH_STRINGMEMORY < cm_ptr m + length s + 1 \<and> cm_mem m' = cm_mem m"
proof (cases "cm_ptr m + length s + 1 > FILEBENCH_STRINGMEMORY")
  case False
  have "unused_zero (m\<lparr>cm_ptr := cm_ptr m + length s + 1, cm_mem := strncpy_at (cm_mem m) (cm_ptr m) s\<rparr>)"
    using assms(1) by (simp add: unused_zero_def strncpy_at_def)
  then show ?thesis
    using False strncpy_string[of "cm_ptr m" "cm_mem m" s] assms strncpy_other
    by (auto simp: ipc_stralloc_def Let_def unused_zero_def)
qed (simp add: ipc_stralloc_def Let_def)

theorem ipc_stralloc_roundtrip_witness:
  "\<exists>m'. ipc_stralloc \<lparr>cm_mem = (\<lambda>i. CHR 0x00), cm_ptr = 0\<rparr> ''ab'' = (Some 0, m') \<and>
     c_string_at (cm_mem m') 0 ''ab''"
proof -
  let ?m = "\<lparr>cm_mem = (\<lambda>i. CHR 0x00), cm_ptr = 0\<rparr>"
  have z: "unused_zero ?m" "CHR 0x00 \<notin> set ''ab''" by (simp_all add: unused_zero_def)
  have "fst (ipc_stralloc ?m ''ab'') = Some 0"
    by (simp add: ipc_stralloc_def FILEBENCH_STRINGMEMORY_def)
  then show ?thesis
    using ipc_stralloc_roundtrip[OF z] by (cases "ipc_stralloc ?m ''ab''") auto
qed

text \<open>After \<^verbatim>\<open>ipc_freepaths\<close> the path memory is not zero, and since \<^verbatim>\<open>ipc_pathalloc\<close> copies no
  terminating NUL a shorter path is followed by the rest of the old one.\<close>

theorem ipc_pathalloc_stale:
  "let m0 = \<lparr>cm_mem = (\<lambda>i. CHR 0x00), cm_ptr = 0\<rparr>;
       m1 = ipc_freepaths (snd (ipc_pathalloc m0 ''abc''));
       (p, m2) = ipc_pathalloc m1 ''x'' in
   p = Some 0 \<and> c_string_at (cm_mem m2) 0 ''xbc'' \<and> \<not> c_string_at (cm_mem m2) 0 ''x''"
  by (auto simp: ipc_pathalloc_def ipc_freepaths_def c_string_at_def strncpy_at_def
      FILEBENCH_FILESETPATHMEMORY_def less_Suc_eq numeral_3_eq_3)

text \<open>C22: \<^verbatim>\<open>ipc_semidalloc\<close> returns the lowest free semaphore of the table and marks it. When all
  128 are in use it shuts down, unless the byte that follows the table is 1: then it goes on and
  hands out an index outside the table.\<close>

theorem ipc_semidalloc_correct:
  "((\<exists>i<FILEBENCH_NSEMS. semids i \<noteq> 1) \<longrightarrow>
      (\<exists>r<FILEBENCH_NSEMS. ipc_semidalloc semids = Some (Inr (r, semids(r := 1))) \<and>
         semids r \<noteq> 1 \<and> (\<forall>i<r. semids i = 1))) \<and>
   ((\<forall>i<FILEBENCH_NSEMS. semids i = 1) \<longrightarrow>
      (if semids FILEBENCH_NSEMS \<noteq> 1 then ipc_semidalloc semids = Some (Inl ())
       else \<forall>r semids'. ipc_semidalloc semids = Some (Inr (r, semids')) \<longrightarrow> FILEBENCH_NSEMS < r) \<and>
      (semids FILEBENCH_NSEMS = 1 \<and> semids (FILEBENCH_NSEMS + 1) = 0 \<longrightarrow>
         ipc_semidalloc semids = Some (Inr (FILEBENCH_NSEMS + 1, semids(FILEBENCH_NSEMS + 1 := 1)))))"
proof (intro conjI impI)
  assume "\<exists>i<FILEBENCH_NSEMS. semids i \<noteq> 1"
  then obtain i where i: "i < FILEBENCH_NSEMS" "semids i \<noteq> 1" by blast
  then obtain r where r: "semids r \<noteq> 1" "\<forall>j<r. semids j = 1"
    using exists_least_iff[of "\<lambda>i. semids i \<noteq> 1"] by blast
  then have "r \<le> i" using i(2) linorder_not_le by blast
  moreover have "ipc_semid_loop semids 0 = Some r" using r by (intro ipc_semid_loop_spec) auto
  ultimately show "\<exists>r<FILEBENCH_NSEMS. ipc_semidalloc semids = Some (Inr (r, semids(r := 1))) \<and>
      semids r \<noteq> 1 \<and> (\<forall>i<r. semids i = 1)"
    using r i by (intro exI[of _ r]) (auto simp: ipc_semidalloc_def)
next
  assume full: "\<forall>i<FILEBENCH_NSEMS. semids i = 1"
  show "if semids FILEBENCH_NSEMS \<noteq> 1 then ipc_semidalloc semids = Some (Inl ())
      else \<forall>r semids'. ipc_semidalloc semids = Some (Inr (r, semids')) \<longrightarrow> FILEBENCH_NSEMS < r"
  proof (cases "semids FILEBENCH_NSEMS = 1")
    case False
    then have "ipc_semid_loop semids 0 = Some FILEBENCH_NSEMS"
      using full by (intro ipc_semid_loop_spec) auto
    then show ?thesis using False by (simp add: ipc_semidalloc_def)
  next
    case True
    have "FILEBENCH_NSEMS < r" if "ipc_semidalloc semids = Some (Inr (r, semids'))" for r semids'
    proof -
      have "ipc_semid_loop semids 0 = Some r" "r \<noteq> FILEBENCH_NSEMS"
        using that by (auto simp: ipc_semidalloc_def split: if_splits)
      with ipc_semid_loop_free[OF this(1)] full show ?thesis using linorder_neqE_nat by blast
    qed
    then show ?thesis using True by simp
  qed
  assume "semids FILEBENCH_NSEMS = 1 \<and> semids (FILEBENCH_NSEMS + 1) = 0"
  then have "ipc_semid_loop semids 0 = Some (FILEBENCH_NSEMS + 1)"
    using full by (intro ipc_semid_loop_spec) (auto simp: less_Suc_eq)
  then show "ipc_semidalloc semids = Some (Inr (FILEBENCH_NSEMS + 1, semids(FILEBENCH_NSEMS + 1 := 1)))"
    by (simp add: ipc_semidalloc_def)
qed

theorem ipc_semidalloc_correct_witness:
  "(\<exists>r<FILEBENCH_NSEMS. ipc_semidalloc (\<lambda>i. 0) = Some (Inr (r, (\<lambda>i. 0)(r := 1)))) \<and>
   ipc_semidalloc (\<lambda>i. if i < 128 then 1 else 0) = Some (Inl ()) \<and>
   (\<exists>r semids'. ipc_semidalloc (\<lambda>i. if i \<le> 128 then 1 else 0) = Some (Inr (r, semids')) \<and>
      FILEBENCH_NSEMS < r)"
proof -
  have a: "\<exists>i<FILEBENCH_NSEMS. (0::int) \<noteq> 1"
    by (auto simp: FILEBENCH_NSEMS_def intro!: exI[of _ 0])
  have b: "\<forall>i<FILEBENCH_NSEMS. (if i < 128 then 1 else 0 :: int) = 1"
    "\<forall>i<FILEBENCH_NSEMS. (if i \<le> 128 then 1 else 0 :: int) = 1"
    by (simp_all add: FILEBENCH_NSEMS_def)
  have "\<exists>r<FILEBENCH_NSEMS. ipc_semidalloc (\<lambda>i. 0) = Some (Inr (r, (\<lambda>i. 0)(r := 1)))"
    using ipc_semidalloc_correct[of "\<lambda>i. 0"] a by blast
  moreover have "ipc_semidalloc (\<lambda>i. if i < 128 then 1 else 0) = Some (Inl ())"
    using ipc_semidalloc_correct[of "\<lambda>i. if i < 128 then 1 else 0"] b(1)
    by (simp add: FILEBENCH_NSEMS_def)
  moreover have "\<exists>semids'. ipc_semidalloc (\<lambda>i. if i \<le> 128 then 1 else 0) =
      Some (Inr (FILEBENCH_NSEMS + 1, semids'))"
    using ipc_semidalloc_correct[of "\<lambda>i. if i \<le> 128 then 1 else 0"] b(2)
    by (simp add: FILEBENCH_NSEMS_def)
  ultimately show ?thesis by auto
qed

end
