(* ===== verification/FB_Fileset.thy ===== *)
theory FB_Fileset
  imports FB_Container FB_Ipc
begin

text \<open>
  The run-time part of \<^verbatim>\<open>fileset.c\<close>: the entries of a fileset, the seven AVL trees that sort them
  by type and state, and the operations of the worker threads on them. Each operation holds
  \<^verbatim>\<open>fs_pick_lock\<close> throughout and is one step. A tree is named by the member of the structure
  that holds it; the entries and their tree nodes are stores indexed by the entry address. The
  address of the temporary node of \<^verbatim>\<open>avl_remove\<close> is the argument \<open>tmp\<close>. \<open>None\<close> is a crash or a loop
  that does not end.
\<close>

unbundle bit_operations_syntax

section \<open>Data\<close>

definition FSE_TYPE_FILE :: uint32 where "FSE_TYPE_FILE = 0x00"
definition FSE_TYPE_DIR :: uint32 where "FSE_TYPE_DIR = 0x01"
definition FSE_TYPE_LEAFDIR :: uint32 where "FSE_TYPE_LEAFDIR = 0x02"
definition FSE_TYPE_MASK :: uint32 where "FSE_TYPE_MASK = 0x03"
definition FSE_FREE :: uint32 where "FSE_FREE = 0x04"
definition FSE_EXISTS :: uint32 where "FSE_EXISTS = 0x08"
definition FSE_BUSY :: uint32 where "FSE_BUSY = 0x10"
definition FSE_REUSING :: uint32 where "FSE_REUSING = 0x20"
definition FSE_THRD_WAITNG :: uint32 where "FSE_THRD_WAITNG = 0x40"

lemmas fse_flag_defs = FSE_TYPE_FILE_def FSE_TYPE_DIR_def FSE_TYPE_LEAFDIR_def FSE_TYPE_MASK_def
  FSE_FREE_def FSE_EXISTS_def FSE_BUSY_def FSE_REUSING_def FSE_THRD_WAITNG_def

definition FILESET_PICKFILE :: uint32 where "FILESET_PICKFILE = 0x00"
definition FILESET_PICKDIR :: uint32 where "FILESET_PICKDIR = 0x01"
definition FILESET_PICKLEAFDIR :: uint32 where "FILESET_PICKLEAFDIR = 0x02"
definition FILESET_PICKMASK :: uint32 where "FILESET_PICKMASK = 0x03"
definition FILESET_PICKUNIQUE :: uint32 where "FILESET_PICKUNIQUE = 0x04"
definition FILESET_PICKEXISTS :: uint32 where "FILESET_PICKEXISTS = 0x10"
definition FILESET_PICKNOEXIST :: uint32 where "FILESET_PICKNOEXIST = 0x20"
definition FILESET_PICKBYINDEX :: uint32 where "FILESET_PICKBYINDEX = 0x40"
definition FILESET_PICKFREE :: uint32 where "FILESET_PICKFREE = FILESET_PICKUNIQUE"

lemmas pick_flag_defs = FILESET_PICKFILE_def FILESET_PICKDIR_def FILESET_PICKLEAFDIR_def
  FILESET_PICKMASK_def FILESET_PICKUNIQUE_def FILESET_PICKEXISTS_def FILESET_PICKNOEXIST_def
  FILESET_PICKBYINDEX_def FILESET_PICKFREE_def

text \<open>\<^verbatim>\<open>struct filesetentry\<close>; the tree node \<^verbatim>\<open>fse_link\<close> at offset 16 is in the node heap.\<close>

record filesetentry =
  fse_parent :: ptr
  fse_index :: uint32
  fse_nextoftype :: ptr
  fse_fileset :: ptr
  fse_path :: "nat option"
  fse_size :: int
  fse_open_cnt :: int
  fse_flags :: uint32

definition fse_zero :: filesetentry where
  "fse_zero = \<lparr>fse_parent = NULL, fse_index = 0, fse_nextoftype = NULL, fse_fileset = NULL,
     fse_path = None, fse_size = 0, fse_open_cnt = 0, fse_flags = 0\<rparr>"

definition FSE_LINK_OFFSET :: nat where "FSE_LINK_OFFSET = 16"
definition SIZEOF_FILESETENTRY :: nat where "SIZEOF_FILESETENTRY = 96"

text \<open>The members of \<^verbatim>\<open>struct fileset\<close> that hold a tree.\<close>

datatype fs_tree = fs_free_files | fs_exist_files | fs_noex_files | fs_dirs | fs_free_leaf_dirs
  | fs_exist_leaf_dirs | fs_noex_leaf_dirs

text \<open>\<^verbatim>\<open>struct fileset\<close>, with the stores of its entries and of their tree nodes.\<close>

record fileset =
  fs_trees :: "fs_tree \<Rightarrow> avl_tree"
  fs_nodes :: avl_heap
  fs_ents :: "ptr \<Rightarrow> filesetentry"
  fs_constentries :: fbint
  fs_constleafdirs :: fbint
  fs_realfiles :: int
  fs_realleafdirs :: int
  fs_bytes :: int
  fs_idle_files :: int
  fs_idle_dirs :: int
  fs_idle_leafdirs :: int
  fs_filelist :: ptr
  fs_dirlist :: ptr
  fs_leafdirlist :: ptr
  fs_file_exrotor :: "nat \<Rightarrow> uint32"
  fs_file_nerotor :: uint32
  fs_dirrotor :: uint32
  fs_leafdir_exrotor :: uint32
  fs_leafdir_nerotor :: uint32

text \<open>Writes to one tree header and to one entry.\<close>

definition set_tree :: "fs_tree \<Rightarrow> avl_tree \<Rightarrow> avl_heap \<Rightarrow> fileset \<Rightarrow> fileset" where
  "set_tree t tr h fs = fs\<lparr>fs_trees := (fs_trees fs)(t := tr), fs_nodes := h\<rparr>"

definition upd_entry :: "(filesetentry \<Rightarrow> filesetentry) \<Rightarrow> ptr \<Rightarrow> fileset \<Rightarrow> fileset" where
  "upd_entry f e fs = fs\<lparr>fs_ents := (fs_ents fs)(e := f (fs_ents fs e))\<rparr>"

abbreviation set_flags :: "(uint32 \<Rightarrow> uint32) \<Rightarrow> ptr \<Rightarrow> fileset \<Rightarrow> fileset" where
  "set_flags f \<equiv> upd_entry (\<lambda>e. e\<lparr>fse_flags := f (fse_flags e)\<rparr>)"

section \<open>Trees of entries\<close>

definition fileset_entry_compare :: "filesetentry \<Rightarrow> filesetentry \<Rightarrow> int" where
  "fileset_entry_compare node_1 node_2 =
     (if fse_index node_1 < fse_index node_2 then -1
      else if fse_index node_1 = fse_index node_2 then 0 else 1)"

abbreviation entry_compar :: "(ptr \<Rightarrow> filesetentry) \<Rightarrow> ptr \<Rightarrow> ptr \<Rightarrow> int" where
  "entry_compar ents \<equiv> \<lambda>a b. fileset_entry_compare (ents a) (ents b)"

definition fileset_move_entry :: "ptr \<Rightarrow> fs_tree \<Rightarrow> fs_tree \<Rightarrow> ptr \<Rightarrow> fileset \<Rightarrow> fileset option" where
  "fileset_move_entry tmp src_tree dst_tree entry fs =
     Option.bind (avl_remove tmp (fs_trees fs src_tree) (fs_nodes fs) entry) (\<lambda>(tr, h).
       let fs = set_tree src_tree tr h fs in
       map_option (\<lambda>(tr, h). set_tree dst_tree tr h fs)
         (avl_add (entry_compar (fs_ents fs)) (fs_trees fs dst_tree) (fs_nodes fs) entry))"

text \<open>\<open>desired_fse\<close> is a local entry of which only the index is set.\<close>

definition fileset_find_entry :: "fileset \<Rightarrow> fs_tree \<Rightarrow> uint32 \<Rightarrow> ptr option" where
  "fileset_find_entry fs atp index =
     (let tree = fs_trees fs atp; h = fs_nodes fs;
          desired_fse = fse_zero\<lparr>fse_index := index\<rparr> in
      Option.bind (avl_find (\<lambda>e d. fileset_entry_compare e (fs_ents fs d)) tree h desired_fse)
        (\<lambda>(found_fse, found_loc).
          if found_fse \<noteq> NULL then Some found_fse
          else Option.bind found_loc (\<lambda>found_loc.
            Option.bind (avl_nearest tree h found_loc True) (\<lambda>found_fse.
              if found_fse \<noteq> NULL then Some found_fse else avl_first tree h))))"

section \<open>Picking an entry\<close>

text \<open>The first part of \<^verbatim>\<open>fileset_pick\<close>: no entries of the type, no idle one (the thread waits), or
  the tree to pick from with the bound for the random index. The type 3 leaves \<^verbatim>\<open>atp\<close> NULL and
  the call crashes.\<close>

datatype pick_source = NoEntries | Wait | From fs_tree fbint

definition pick_select :: "fileset \<Rightarrow> uint32 \<Rightarrow> pick_source option" where
  "pick_select fs flags =
     (let ty = flags AND FILESET_PICKMASK in
      if ty = FILESET_PICKFILE then
        Some (if fs_filelist fs = NULL then NoEntries
              else if fs_idle_files fs = 0 then Wait
              else From (if flags AND FILESET_PICKUNIQUE \<noteq> 0 then fs_free_files
                         else if flags AND FILESET_PICKNOEXIST \<noteq> 0 then fs_noex_files
                         else fs_exist_files) (fs_constentries fs))
      else if ty = FILESET_PICKDIR then
        Some (if fs_dirlist fs = NULL then NoEntries
              else if fs_idle_dirs fs = 0 then Wait
              else From fs_dirs 1)
      else if ty = FILESET_PICKLEAFDIR then
        Some (if fs_leafdirlist fs = NULL then NoEntries
              else if fs_idle_leafdirs fs = 0 then Wait
              else From (if flags AND FILESET_PICKUNIQUE \<noteq> 0 then fs_free_leaf_dirs
                         else if flags AND FILESET_PICKNOEXIST \<noteq> 0 then fs_noex_leaf_dirs
                         else fs_exist_leaf_dirs) (fs_constleafdirs fs))
      else None)"

text \<open>An entry at a rotor, which then points past it; a NULL entry is dereferenced.\<close>

definition pick_rotor ::
  "fileset \<Rightarrow> fs_tree \<Rightarrow> uint32 \<Rightarrow> (uint32 \<Rightarrow> fileset \<Rightarrow> fileset) \<Rightarrow> (ptr \<times> fileset) option" where
  "pick_rotor fs atp rotor set_rotor =
     Option.bind (fileset_find_entry fs atp rotor) (\<lambda>entry.
       if entry = NULL then None
       else Some (entry, set_rotor (fse_index (fs_ents fs entry) + 1) fs))"

definition pick_rotation :: "fileset \<Rightarrow> uint32 \<Rightarrow> nat \<Rightarrow> fs_tree \<Rightarrow> (ptr \<times> fileset) option" where
  "pick_rotation fs flags tid atp =
     (let ty = flags AND FILESET_PICKMASK in
      if ty = FILESET_PICKFILE then
        if flags AND FILESET_PICKNOEXIST \<noteq> 0
        then pick_rotor fs atp (fs_file_nerotor fs) (\<lambda>i fs. fs\<lparr>fs_file_nerotor := i\<rparr>)
        else pick_rotor fs atp (fs_file_exrotor fs tid)
               (\<lambda>i fs. fs\<lparr>fs_file_exrotor := (fs_file_exrotor fs)(tid := i)\<rparr>)
      else if ty = FILESET_PICKDIR then
        pick_rotor fs atp (fs_dirrotor fs) (\<lambda>i fs. fs\<lparr>fs_dirrotor := i\<rparr>)
      else if ty = FILESET_PICKLEAFDIR then
        if flags AND FILESET_PICKNOEXIST \<noteq> 0
        then pick_rotor fs atp (fs_leafdir_nerotor fs) (\<lambda>i fs. fs\<lparr>fs_leafdir_nerotor := i\<rparr>)
        else pick_rotor fs atp (fs_leafdir_exrotor fs) (\<lambda>i fs. fs\<lparr>fs_leafdir_exrotor := i\<rparr>)
      else Some (NULL, fs))"

text \<open>The entry where the search for an idle one starts. \<open>random64\<close> gives the value that
  \<^verbatim>\<open>fb_random64\<close> stores for a bound.\<close>

definition pick_start ::
  "(fbint \<Rightarrow> fbint) \<Rightarrow> fileset \<Rightarrow> uint32 \<Rightarrow> nat \<Rightarrow> uint32 \<Rightarrow> fs_tree \<Rightarrow> fbint \<Rightarrow> (ptr \<times> fileset) option" where
  "pick_start random64 fs flags tid index atp max_entries =
     (if flags AND FILESET_PICKUNIQUE \<noteq> 0 then
        let index64 = (if index \<noteq> 0 then scast index else random64 max_entries) in
        map_option (\<lambda>entry. (entry, fs)) (fileset_find_entry fs atp (ucast index64))
      else if flags AND FILESET_PICKBYINDEX \<noteq> 0 then
        map_option (\<lambda>entry. (entry, fs)) (fileset_find_entry fs atp index)
      else pick_rotation fs flags tid atp)"

text \<open>The loop that skips busy entries; NULL when it comes back to its start.\<close>

partial_function (option) pick_idle :: "fileset \<Rightarrow> fs_tree \<Rightarrow> ptr \<Rightarrow> ptr \<Rightarrow> ptr option" where
  "pick_idle fs atp start_point entry =
     (if fse_flags (fs_ents fs entry) AND FSE_BUSY \<noteq> 0 then
        Option.bind (avl_walk (fs_trees fs atp) (fs_nodes fs) entry True) (\<lambda>next.
        Option.bind (if next = NULL then avl_first (fs_trees fs atp) (fs_nodes fs) else Some next) (\<lambda>entry.
          if entry = NULL \<or> entry = start_point then Some NULL
          else pick_idle fs atp start_point entry))
      else Some entry)"

definition pick_take :: "fileset \<Rightarrow> uint32 \<Rightarrow> ptr \<Rightarrow> fileset" where
  "pick_take fs flags entry =
     (let ty = flags AND FILESET_PICKMASK;
          fs = (if ty = FILESET_PICKFILE then fs\<lparr>fs_idle_files := fs_idle_files fs - 1\<rparr>
                else if ty = FILESET_PICKDIR then fs\<lparr>fs_idle_dirs := fs_idle_dirs fs - 1\<rparr>
                else if ty = FILESET_PICKLEAFDIR then fs\<lparr>fs_idle_leafdirs := fs_idle_leafdirs fs - 1\<rparr>
                else fs)
      in set_flags (\<lambda>f. f OR FSE_BUSY) entry fs)"

datatype pick_result = Blocked | Picked ptr

definition fileset_pick ::
  "(fbint \<Rightarrow> fbint) \<Rightarrow> fileset \<Rightarrow> uint32 \<Rightarrow> nat \<Rightarrow> uint32 \<Rightarrow> (pick_result \<times> fileset) option" where
  "fileset_pick random64 fs flags tid index =
     Option.bind (pick_select fs flags) (\<lambda>source. case source of
         NoEntries \<Rightarrow> Some (Picked NULL, fs)
       | Wait \<Rightarrow> Some (Blocked, fs)
       | From atp max_entries \<Rightarrow>
           if avl_is_empty (fs_trees fs atp) then Some (Picked NULL, fs)
           else Option.bind (pick_start random64 fs flags tid index atp max_entries) (\<lambda>(entry, fs).
             if entry = NULL then Some (Picked NULL, fs)
             else map_option
               (\<lambda>entry. if entry = NULL then (Picked NULL, fs)
                        else (Picked entry, pick_take fs flags entry))
               (pick_idle fs atp entry entry)))"

section \<open>Giving an entry back\<close>

text \<open>The condition variables that \<^verbatim>\<open>fileset_unbusy\<close> signals.\<close>

datatype fs_signal = fs_idle_files_cv | fs_idle_dirs_cv | fs_idle_leafdirs_cv | fs_thrd_wait_cv

text \<open>The moves between the trees of a type; directories stay where they are.\<close>

definition move_by_type ::
  "ptr \<Rightarrow> fs_tree \<times> fs_tree \<Rightarrow> fs_tree \<times> fs_tree \<Rightarrow> ptr \<Rightarrow> fileset \<Rightarrow> fileset option" where
  "move_by_type tmp files leafdirs entry fs =
     (let ty = fse_flags (fs_ents fs entry) AND FSE_TYPE_MASK in
      if ty = FSE_TYPE_FILE then fileset_move_entry tmp (fst files) (snd files) entry fs
      else if ty = FSE_TYPE_LEAFDIR then fileset_move_entry tmp (fst leafdirs) (snd leafdirs) entry fs
      else Some fs)"

definition unbusy_exist :: "ptr \<Rightarrow> bool \<Rightarrow> ptr \<Rightarrow> fileset \<Rightarrow> fileset option" where
  "unbusy_exist tmp new_exist_val entry fs =
     (let flags = fse_flags (fs_ents fs entry) in
      if new_exist_val then
        if flags AND FSE_FREE \<noteq> 0 then
          move_by_type tmp (fs_free_files, fs_exist_files) (fs_free_leaf_dirs, fs_exist_leaf_dirs)
            entry (set_flags (\<lambda>f. (f OR FSE_EXISTS) AND NOT FSE_FREE) entry fs)
        else if flags AND FSE_EXISTS = 0 then
          move_by_type tmp (fs_noex_files, fs_exist_files) (fs_noex_leaf_dirs, fs_exist_leaf_dirs)
            entry (set_flags (\<lambda>f. f OR FSE_EXISTS) entry fs)
        else Some fs
      else
        if flags AND FSE_FREE \<noteq> 0 then
          move_by_type tmp (fs_free_files, fs_noex_files) (fs_free_leaf_dirs, fs_noex_leaf_dirs)
            entry (set_flags (\<lambda>f. f AND NOT (FSE_FREE OR FSE_EXISTS)) entry fs)
        else if flags AND FSE_EXISTS \<noteq> 0 then
          move_by_type tmp (fs_exist_files, fs_noex_files) (fs_exist_leaf_dirs, fs_noex_leaf_dirs)
            entry (set_flags (\<lambda>f. f AND NOT FSE_EXISTS) entry fs)
        else Some fs)"

definition unbusy_idle :: "ptr \<Rightarrow> fileset \<Rightarrow> fileset \<times> fs_signal list" where
  "unbusy_idle entry fs =
     (let fs = set_flags (\<lambda>f. f AND NOT FSE_BUSY) entry fs;
          waiting = (fse_flags (fs_ents fs entry) AND FSE_THRD_WAITNG \<noteq> 0);
          fs = (if waiting then set_flags (\<lambda>f. f AND NOT FSE_THRD_WAITNG) entry fs else fs);
          sigs = (if waiting then [fs_thrd_wait_cv] else []);
          ty = fse_flags (fs_ents fs entry) AND FSE_TYPE_MASK
      in if ty = FSE_TYPE_FILE then
           let fs = fs\<lparr>fs_idle_files := fs_idle_files fs + 1\<rparr> in
           (fs, sigs @ (if fs_idle_files fs \<ge> 1 then [fs_idle_files_cv] else []))
         else if ty = FSE_TYPE_DIR then
           let fs = fs\<lparr>fs_idle_dirs := fs_idle_dirs fs + 1\<rparr> in
           (fs, sigs @ (if fs_idle_dirs fs \<ge> 1 then [fs_idle_dirs_cv] else []))
         else if ty = FSE_TYPE_LEAFDIR then
           let fs = fs\<lparr>fs_idle_leafdirs := fs_idle_leafdirs fs + 1\<rparr> in
           (fs, sigs @ (if fs_idle_leafdirs fs \<ge> 1 then [fs_idle_leafdirs_cv] else []))
         else (fs, sigs))"

text \<open>\<^verbatim>\<open>fileset_unbusy\<close>, on the fileset of the entry; without an entry or a fileset it only logs.\<close>

definition fileset_unbusy ::
  "ptr \<Rightarrow> ptr \<Rightarrow> bool \<Rightarrow> bool \<Rightarrow> int \<Rightarrow> fileset \<Rightarrow> (fileset \<times> fs_signal list) option" where
  "fileset_unbusy tmp entry update_exist new_exist_val open_cnt_incr fs =
     (if entry = NULL \<or> fse_fileset (fs_ents fs entry) = NULL then Some (fs, [])
      else
        map_option
          (\<lambda>fs. let fs = upd_entry (\<lambda>e. e\<lparr>fse_open_cnt := fse_open_cnt e + open_cnt_incr\<rparr>) entry fs in
                if fse_flags (fs_ents fs entry) AND FSE_BUSY \<noteq> 0 then unbusy_idle entry fs
                else (fs, []))
          (if update_exist then unbusy_exist tmp new_exist_val entry fs else Some fs))"

section \<open>Resetting and filling\<close>

text \<open>The loops of \<^verbatim>\<open>fileset_pickreset\<close>. \<^verbatim>\<open>AVL_NEXT\<close> takes the tree only for its offset and follows
  the links of the entry, which has just been moved to the other tree.\<close>

partial_function (option) pickreset_loop ::
  "ptr \<Rightarrow> fs_tree \<Rightarrow> fs_tree \<Rightarrow> fileset \<Rightarrow> ptr \<Rightarrow> fileset option" where
  "pickreset_loop tmp src dst fs entry =
     (if entry = NULL then Some fs
      else Option.bind
        (fileset_move_entry tmp src dst entry
           (upd_entry (\<lambda>e. e\<lparr>fse_flags := fse_flags e OR FSE_FREE, fse_open_cnt := 0\<rparr>) entry fs))
        (\<lambda>fs. Option.bind (avl_walk (fs_trees fs src) (fs_nodes fs) entry True)
           (pickreset_loop tmp src dst fs)))"

definition pickreset_tree :: "ptr \<Rightarrow> fs_tree \<Rightarrow> fs_tree \<Rightarrow> fileset \<Rightarrow> fileset option" where
  "pickreset_tree tmp src dst fs =
     Option.bind (avl_first (fs_trees fs src) (fs_nodes fs)) (pickreset_loop tmp src dst fs)"

definition fileset_pickreset :: "ptr \<Rightarrow> fileset \<Rightarrow> uint32 \<Rightarrow> fileset option" where
  "fileset_pickreset tmp fs entry_type =
     (let ty = entry_type AND FILESET_PICKMASK in
      if ty = FILESET_PICKFILE then
        Option.bind (pickreset_tree tmp fs_noex_files fs_free_files fs)
          (pickreset_tree tmp fs_exist_files fs_free_files)
      else if ty = FILESET_PICKLEAFDIR then
        Option.bind (pickreset_tree tmp fs_noex_leaf_dirs fs_free_leaf_dirs fs)
          (pickreset_tree tmp fs_exist_leaf_dirs fs_free_leaf_dirs)
      else Some fs)"

text \<open>Entering an entry into its tree and list.\<close>

definition add_entry :: "fs_tree \<Rightarrow> ptr \<Rightarrow> fileset \<Rightarrow> fileset option" where
  "add_entry t entry fs =
     map_option (\<lambda>(tr, h). set_tree t tr h fs)
       (avl_add (entry_compar (fs_ents fs)) (fs_trees fs t) (fs_nodes fs) entry)"

definition fileset_insfilelist :: "ptr \<Rightarrow> fileset \<Rightarrow> fileset option" where
  "fileset_insfilelist entry fs =
     map_option
       (\<lambda>fs. (upd_entry (\<lambda>e. e\<lparr>fse_nextoftype := fs_filelist fs\<rparr>) entry fs)\<lparr>fs_filelist := entry\<rparr>)
       (add_entry fs_free_files entry (set_flags (\<lambda>f. FSE_TYPE_FILE OR FSE_FREE) entry fs))"

definition fileset_insdirlist :: "ptr \<Rightarrow> fileset \<Rightarrow> fileset option" where
  "fileset_insdirlist entry fs =
     map_option
       (\<lambda>fs. (upd_entry (\<lambda>e. e\<lparr>fse_nextoftype := fs_dirlist fs\<rparr>) entry fs)\<lparr>fs_dirlist := entry\<rparr>)
       (add_entry fs_dirs entry (set_flags (\<lambda>f. FSE_TYPE_DIR OR FSE_EXISTS) entry fs))"

definition fileset_insleafdirlist :: "ptr \<Rightarrow> fileset \<Rightarrow> fileset option" where
  "fileset_insleafdirlist entry fs =
     map_option
       (\<lambda>fs. (upd_entry (\<lambda>e. e\<lparr>fse_nextoftype := fs_leafdirlist fs\<rparr>) entry fs)\<lparr>fs_leafdirlist := entry\<rparr>)
       (add_entry fs_free_leaf_dirs entry (set_flags (\<lambda>f. FSE_TYPE_LEAFDIR OR FSE_FREE) entry fs))"

end
