(* ===== verification/FB_Fileset_Inv.thy ===== *)
theory FB_Fileset_Inv
  imports FB_Fileset
begin

text \<open>
  The invariant of a fileset: the seven trees hold the entries in index order, every entry is in
  the tree that its flags say, indices are unique within a type, and the idle counts are the
  numbers of entries that are not busy. Picking, giving back and entering an entry keep it.
\<close>

unbundle bit_operations_syntax

section \<open>Flags as bits\<close>

lemma and_mask_bit:
  fixes f :: uint32
  shows "f AND FSE_FREE = 0 \<longleftrightarrow> \<not> bit f 2" "f AND FSE_EXISTS = 0 \<longleftrightarrow> \<not> bit f 3"
    "f AND FSE_BUSY = 0 \<longleftrightarrow> \<not> bit f 4" "f AND FSE_THRD_WAITNG = 0 \<longleftrightarrow> \<not> bit f 6"
  using and_exp_eq_0_iff_not_bit[of f 2] and_exp_eq_0_iff_not_bit[of f 3]
    and_exp_eq_0_iff_not_bit[of f 4] and_exp_eq_0_iff_not_bit[of f 6]
  by (simp_all add: fse_flag_defs)

lemma and_3: "(f :: uint32) AND 3 = of_bool (bit f 0) + 2 * of_bool (bit f 1)"
proof -
  have "f AND 3 = take_bit 2 f" by (simp add: take_bit_eq_mask mask_eq_exp_minus_1)
  also have "\<dots> = of_bool (bit f 0) + 2 * of_bool (bit f 1)"
    by (simp add: take_bit_Suc numeral_2_eq_2 bit_Suc bit_0 mod_2_eq_odd)
  finally show ?thesis .
qed

lemma type_bits:
  fixes f :: uint32
  shows "f AND FSE_TYPE_MASK = FSE_TYPE_FILE \<longleftrightarrow> \<not> bit f 0 \<and> \<not> bit f 1"
    "f AND FSE_TYPE_MASK = FSE_TYPE_DIR \<longleftrightarrow> bit f 0 \<and> \<not> bit f 1"
    "f AND FSE_TYPE_MASK = FSE_TYPE_LEAFDIR \<longleftrightarrow> \<not> bit f 0 \<and> bit f 1"
  by (simp_all add: fse_flag_defs and_3)

lemma bit_flag: "m < 32 \<Longrightarrow> bit (2 ^ m :: uint32) n \<longleftrightarrow> n = m"
  by (auto simp: bit_exp_iff)

lemma flag_bits:
  "bit FSE_FREE n \<longleftrightarrow> n = 2" "bit FSE_EXISTS n \<longleftrightarrow> n = 3" "bit FSE_BUSY n \<longleftrightarrow> n = 4"
  "bit FSE_THRD_WAITNG n \<longleftrightarrow> n = 6"
  using bit_flag[of 2 n] bit_flag[of 3 n] bit_flag[of 4 n] bit_flag[of 6 n]
  by (simp_all add: fse_flag_defs)

lemma bit_clear: "bit (f AND NOT g) n \<longleftrightarrow> bit f n \<and> \<not> bit (g :: uint32) n"
  by (auto simp: bit_and_iff bit_not_iff dest: bit_imp_le_length)

lemma bit_clear2: "bit (f AND (NOT g AND NOT h)) n \<longleftrightarrow> bit f n \<and> \<not> bit g n \<and> \<not> bit (h :: uint32) n"
  by (auto simp: bit_and_iff bit_not_iff dest: bit_imp_le_length)

lemmas flag_simps = and_mask_bit type_bits flag_bits bit_clear bit_clear2 bit_or_iff

text \<open>The tree an entry with the given flags belongs to.\<close>

definition entry_tree :: "uint32 \<Rightarrow> fs_tree option" where
  "entry_tree f =
     (if f AND FSE_TYPE_MASK = FSE_TYPE_FILE then
        Some (if f AND FSE_FREE \<noteq> 0 then fs_free_files
              else if f AND FSE_EXISTS \<noteq> 0 then fs_exist_files else fs_noex_files)
      else if f AND FSE_TYPE_MASK = FSE_TYPE_DIR then Some fs_dirs
      else if f AND FSE_TYPE_MASK = FSE_TYPE_LEAFDIR then
        Some (if f AND FSE_FREE \<noteq> 0 then fs_free_leaf_dirs
              else if f AND FSE_EXISTS \<noteq> 0 then fs_exist_leaf_dirs else fs_noex_leaf_dirs)
      else None)"

datatype fse_type = File | Dir | Leafdir

fun tree_type :: "fs_tree \<Rightarrow> fse_type" where
  "tree_type fs_free_files = File"
| "tree_type fs_exist_files = File"
| "tree_type fs_noex_files = File"
| "tree_type fs_dirs = Dir"
| "tree_type fs_free_leaf_dirs = Leafdir"
| "tree_type fs_exist_leaf_dirs = Leafdir"
| "tree_type fs_noex_leaf_dirs = Leafdir"

text \<open>The tree of an entry after its existence is set.\<close>

fun target_tree :: "fs_tree \<Rightarrow> bool \<Rightarrow> fs_tree" where
  "target_tree t ex =
     (case tree_type t of
        File \<Rightarrow> if ex then fs_exist_files else fs_noex_files
      | Dir \<Rightarrow> fs_dirs
      | Leafdir \<Rightarrow> if ex then fs_exist_leaf_dirs else fs_noex_leaf_dirs)"

section \<open>The invariant\<close>

definition fse_key :: "(ptr \<Rightarrow> filesetentry) \<Rightarrow> ptr \<Rightarrow> int" where
  "fse_key ents d = uint (fse_index (ents d))"

definition busy :: "fileset \<Rightarrow> ptr \<Rightarrow> bool" where
  "busy fs d \<longleftrightarrow> fse_flags (fs_ents fs d) AND FSE_BUSY \<noteq> 0"

type_synonym contents = "fs_tree \<Rightarrow> ptr list"

definition entries :: "contents \<Rightarrow> fse_type \<Rightarrow> ptr set" where
  "entries L ty = (\<Union>t\<in>{t. tree_type t = ty}. set (L t))"

fun idle_count :: "fse_type \<Rightarrow> fileset \<Rightarrow> int" where
  "idle_count File fs = fs_idle_files fs"
| "idle_count Dir fs = fs_idle_dirs fs"
| "idle_count Leafdir fs = fs_idle_leafdirs fs"

fun type_list :: "fse_type \<Rightarrow> fileset \<Rightarrow> ptr" where
  "type_list File fs = fs_filelist fs"
| "type_list Dir fs = fs_dirlist fs"
| "type_list Leafdir fs = fs_leafdirlist fs"

definition trees_hold :: "ptr \<Rightarrow> fileset \<Rightarrow> contents \<Rightarrow> bool" where
  "trees_hold tmp fs L \<longleftrightarrow>
     (\<forall>t. avl_family (fse_key (fs_ents fs)) FSE_LINK_OFFSET tmp (fs_trees fs t) (fs_nodes fs) (L t))"

definition fileset_inv :: "ptr \<Rightarrow> fileset \<Rightarrow> contents \<Rightarrow> bool" where
  "fileset_inv tmp fs L \<longleftrightarrow>
     trees_hold tmp fs L \<and>
     (\<forall>t. \<forall>d\<in>set (L t). entry_tree (fse_flags (fs_ents fs d)) = Some t \<and>
        fse_fileset (fs_ents fs d) \<noteq> NULL) \<and>
     (\<forall>ty. inj_on (fse_key (fs_ents fs)) (entries L ty) \<and>
        idle_count ty fs = int (card {d \<in> entries L ty. \<not> busy fs d}) \<and>
        (type_list ty fs = NULL \<longleftrightarrow> entries L ty = {}))"

lemma compar_entries:
  "entry_compar ents = key_compar (fse_key ents) (fse_key ents)"
  "(\<lambda>e d. fileset_entry_compare e (ents d)) = key_compar (\<lambda>e. uint (fse_index e)) (fse_key ents)"
  by (auto simp: fun_eq_iff key_compar_def fileset_entry_compare_def fse_key_def word_less_def
      word_uint_eq_iff)

lemma fileset_invD:
  assumes "fileset_inv tmp fs L"
  shows "trees_hold tmp fs L"
    "\<And>t d. d \<in> set (L t) \<Longrightarrow> entry_tree (fse_flags (fs_ents fs d)) = Some t"
    "\<And>t d. d \<in> set (L t) \<Longrightarrow> fse_fileset (fs_ents fs d) \<noteq> NULL"
    "\<And>ty. inj_on (fse_key (fs_ents fs)) (entries L ty)"
    "\<And>ty. idle_count ty fs = int (card {d \<in> entries L ty. \<not> busy fs d})"
    "\<And>ty. type_list ty fs = NULL \<longleftrightarrow> entries L ty = {}"
  using assms by (auto simp: fileset_inv_def)

lemma trees_holdD:
  "trees_hold tmp fs L \<Longrightarrow>
     avl_family (fse_key (fs_ents fs)) FSE_LINK_OFFSET tmp (fs_trees fs t) (fs_nodes fs) (L t)"
  by (simp add: trees_hold_def)

lemma contents_disjoint:
  "fileset_inv tmp fs L \<Longrightarrow> t \<noteq> u \<Longrightarrow> set (L t) \<inter> set (L u) = {}"
  using fileset_invD(2)[of tmp fs L] by (metis disjoint_iff option.inject)

lemma entries_finite [simp]: "finite (entries L ty)"
proof -
  have "entries L ty \<subseteq> \<Union>(set ` range L)" by (auto simp: entries_def)
  moreover have "UNIV = {fs_free_files, fs_exist_files, fs_noex_files, fs_dirs, fs_free_leaf_dirs,
      fs_exist_leaf_dirs, fs_noex_leaf_dirs}" using fs_tree.exhaust by blast
  then have "finite (range L)" by (metis finite.emptyI finite.insertI finite_imageI)
  ultimately show ?thesis by (meson finite_UN finite_subset finite_set)
qed

lemma in_entries: "d \<in> set (L t) \<Longrightarrow> d \<in> entries L (tree_type t)"
  by (auto simp: entries_def)

section \<open>Moving an entry between two trees\<close>

definition move_contents :: "(ptr \<Rightarrow> int) \<Rightarrow> ptr \<Rightarrow> fs_tree \<Rightarrow> fs_tree \<Rightarrow> contents \<Rightarrow> contents" where
  "move_contents key e s d L = (if s = d then L else L(s := remove1 e (L s), d := insort_key key e (L d)))"

lemma move_entry_trees:
  assumes H: "trees_hold tmp fs L" and e: "e \<in> set (L s)" and sd: "s \<noteq> d"
    and dj: "\<And>t u. t \<noteq> u \<Longrightarrow> set (L t) \<inter> set (L u) = {}"
    and k: "fse_key (fs_ents fs) e \<notin> fse_key (fs_ents fs) ` set (L d)"
  obtains T h where "fileset_move_entry tmp s d e fs = Some (fs\<lparr>fs_trees := T, fs_nodes := h\<rparr>)"
    "trees_hold tmp (fs\<lparr>fs_trees := T, fs_nodes := h\<rparr>) (move_contents (fse_key (fs_ents fs)) e s d L)"
proof -
  let ?k = "fse_key (fs_ents fs)"
  note F = trees_holdD[OF H]
  obtain t' u' h' where M: "Option.bind (avl_remove tmp (fs_trees fs s) (fs_nodes fs) e)
      (\<lambda>(t, h). map_option (\<lambda>(u, h). (t, u, h)) (avl_add (key_compar ?k ?k) (fs_trees fs d) h e)) =
        Some (t', u', h')"
    "avl_family ?k FSE_LINK_OFFSET tmp t' h' (remove1 e (L s))"
    "avl_family ?k FSE_LINK_OFFSET tmp u' h' (insort_key ?k e (L d))"
    and fr: "\<And>v vs. avl_family ?k FSE_LINK_OFFSET tmp v (fs_nodes fs) vs \<Longrightarrow>
      set vs \<inter> (set (L s) \<union> set (L d)) = {} \<Longrightarrow> avl_family ?k FSE_LINK_OFFSET tmp v h' vs"
    using avl.move_ok[OF F[of s] F[of d] dj[OF sd] e k] by blast
  let ?fs = "fs\<lparr>fs_trees := (fs_trees fs)(s := t', d := u'), fs_nodes := h'\<rparr>"
  have "fileset_move_entry tmp s d e fs = Some ?fs"
    using M(1) sd by (auto simp: fileset_move_entry_def set_tree_def compar_entries bind_eq_Some_conv)
  moreover have "trees_hold tmp ?fs (move_contents ?k e s d L)"
    unfolding trees_hold_def
  proof
    fix t
    have "avl_family ?k FSE_LINK_OFFSET tmp (fs_trees fs t) h' (L t)" if "t \<noteq> s" "t \<noteq> d"
      using fr[OF F[of t]] dj[OF that(1)] dj[OF that(2)] by blast
    with M(2,3) sd show "avl_family (fse_key (fs_ents ?fs)) FSE_LINK_OFFSET tmp (fs_trees ?fs t)
        (fs_nodes ?fs) (move_contents ?k e s d L t)"
      by (auto simp: move_contents_def)
  qed
  ultimately show thesis by (rule that)
qed

lemma trees_hold_cong:
  assumes "fs_trees fs' = fs_trees fs" "fs_nodes fs' = fs_nodes fs"
    and "fse_key (fs_ents fs') = fse_key (fs_ents fs)"
  shows "trees_hold tmp fs' L \<longleftrightarrow> trees_hold tmp fs L"
  using assms by (simp add: trees_hold_def)

lemma fse_key_upd [simp]: "fse_index x = fse_index (ents e) \<Longrightarrow> fse_key (ents(e := x)) = fse_key ents"
  by (auto simp: fse_key_def fun_eq_iff)

lemma contents_distinct: "fileset_inv tmp fs L \<Longrightarrow> distinct (L t)"
  using avl.distinct_holds[OF trees_holdD[OF fileset_invD(1)]] .

lemma set_move_contents:
  assumes "distinct (L s)"
  shows "set (move_contents key e s d L t) =
    (if s = d then set (L t) else if t = s then set (L s) - {e} else if t = d then insert e (set (L d))
     else set (L t))"
  using assms by (auto simp: move_contents_def set_insort_key)

lemma entries_move:
  assumes "distinct (L s)" "e \<in> set (L s)" "tree_type s = tree_type d"
  shows "entries (move_contents key e s d L) ty = entries L ty"
proof -
  have "x \<in> entries (move_contents key e s d L) ty \<longleftrightarrow> x \<in> entries L ty" for x
    unfolding entries_def using assms
    by (auto simp: set_move_contents[of L s, OF assms(1)] split: if_splits)
  then show ?thesis by blast
qed

lemma tree_unique: "fileset_inv tmp fs L \<Longrightarrow> e \<in> set (L s) \<Longrightarrow> e \<in> set (L t) \<Longrightarrow> t = s"
  using fileset_invD(2)[of tmp fs L] by (metis option.inject)

lemma entry_type_unique:
  assumes "fileset_inv tmp fs L" "e \<in> set (L s)" "e \<in> entries L ty"
  shows "ty = tree_type s"
proof -
  obtain t where "tree_type t = ty" "e \<in> set (L t)" using assms(3) by (auto simp: entries_def)
  with tree_unique[OF assms(1,2), of t] show ?thesis by simp
qed

section \<open>A change of one entry\<close>

lemma idle_card:
  assumes "finite E" "e \<in> E" "\<And>x. x \<noteq> e \<Longrightarrow> P' x = P x"
  shows "int (card {x \<in> E. P' x}) = int (card {x \<in> E. P x}) + of_bool (P' e) - of_bool (P e)"
proof -
  have *: "card {x \<in> E. Q x} = card {x \<in> E - {e}. Q x} + of_bool (Q e)" for Q
  proof (cases "Q e")
    case True
    then have "{x \<in> E. Q x} = insert e {x \<in> E - {e}. Q x}" using assms(2) by auto
    then show ?thesis using assms(1) True by simp
  next
    case False
    then have "{x \<in> E. Q x} = {x \<in> E - {e}. Q x}" by auto
    then show ?thesis using False by simp
  qed
  have "{x \<in> E - {e}. P' x} = {x \<in> E - {e}. P x}" using assms(3) by auto
  then show ?thesis unfolding *[of P'] *[of P] by simp
qed

lemma inv_change:
  assumes I: "fileset_inv tmp fs L" and e: "e \<in> set (L s)" and sd: "tree_type s = tree_type d"
    and T: "trees_hold tmp fs' (move_contents (fse_key (fs_ents fs)) e s d L)"
    and ents: "fs_ents fs' = (fs_ents fs)(e := x)"
    and x: "fse_index x = fse_index (fs_ents fs e)" "fse_fileset x = fse_fileset (fs_ents fs e)"
      "entry_tree (fse_flags x) = Some d"
    and idle: "\<And>ty. idle_count ty fs' = idle_count ty fs + (if ty = tree_type s
        then of_bool (busy fs e) - of_bool (fse_flags x AND FSE_BUSY \<noteq> 0) else 0)"
    and lists: "\<And>ty. type_list ty fs' = type_list ty fs"
  shows "fileset_inv tmp fs' (move_contents (fse_key (fs_ents fs)) e s d L)"
proof -
  let ?L = "move_contents (fse_key (fs_ents fs)) e s d L"
  note D = contents_distinct[OF I, of s]
  note E = entries_move[of L s e d, OF D e sd]
  have ed: "t = d" if "e \<in> set (?L t)" for t
    using that tree_unique[OF I e, of t] by (auto simp: set_move_contents[of L s, OF D] split: if_splits)
  have place: "entry_tree (fse_flags (fs_ents fs' y)) = Some t \<and> fse_fileset (fs_ents fs' y) \<noteq> NULL"
    if "y \<in> set (?L t)" for t y
  proof (cases "y = e")
    case True
    then show ?thesis using ed[of t] that x fileset_invD(3)[OF I e] by (simp add: ents)
  next
    case False
    then have "y \<in> set (L t)" using that by (auto simp: set_move_contents[of L s, OF D] split: if_splits)
    then show ?thesis using False fileset_invD(2,3)[OF I] by (simp add: ents)
  qed
  have key: "fse_key (fs_ents fs') = fse_key (fs_ents fs)" using x(1) by (simp add: ents)
  have cnt: "idle_count ty fs' = int (card {y \<in> entries ?L ty. \<not> busy fs' y})" for ty
  proof (cases "ty = tree_type s")
    case True
    have "int (card {y \<in> entries L ty. \<not> busy fs' y}) =
        int (card {y \<in> entries L ty. \<not> busy fs y}) + of_bool (\<not> busy fs' e) - of_bool (\<not> busy fs e)"
      using in_entries[of e L s] e True by (intro idle_card) (auto simp: busy_def ents)
    then show ?thesis unfolding E idle fileset_invD(5)[OF I] using True
      by (auto simp: busy_def ents of_bool_def)
  next
    case False
    then have "busy fs' y = busy fs y" if "y \<in> entries L ty" for y
      using that entry_type_unique[OF I e] by (auto simp: busy_def ents)
    then have "{y \<in> entries L ty. \<not> busy fs' y} = {y \<in> entries L ty. \<not> busy fs y}" by auto
    then show ?thesis unfolding E idle fileset_invD(5)[OF I] using False by simp
  qed
  show ?thesis
    unfolding fileset_inv_def
    using T place cnt fileset_invD(4,6)[OF I] lists by (auto simp: E key)
qed

section \<open>Giving back\<close>

lemma entry_tree_bits:
  "entry_tree f =
     (if bit f 0 then if bit f 1 then None else Some fs_dirs
      else if bit f 1 then Some (if bit f 2 then fs_free_leaf_dirs
        else if bit f 3 then fs_exist_leaf_dirs else fs_noex_leaf_dirs)
      else Some (if bit f 2 then fs_free_files else if bit f 3 then fs_exist_files else fs_noex_files))"
  by (auto simp: entry_tree_def flag_simps)

lemma upd_entry_simps [simp]:
  "fs_trees (upd_entry f e fs) = fs_trees fs" "fs_nodes (upd_entry f e fs) = fs_nodes fs"
  "fs_ents (upd_entry f e fs) = (fs_ents fs)(e := f (fs_ents fs e))"
  "idle_count ty (upd_entry f e fs) = idle_count ty fs" "type_list ty (upd_entry f e fs) = type_list ty fs"
  by (cases ty; simp add: upd_entry_def)+

lemma idle_trees [simp]:
  "idle_count ty (fs\<lparr>fs_trees := T, fs_nodes := h\<rparr>) = idle_count ty fs"
  "type_list ty (fs\<lparr>fs_trees := T, fs_nodes := h\<rparr>) = type_list ty fs"
  by (cases ty; simp)+

text \<open>One entry is changed so that it belongs into another tree of its type, and moved there.\<close>

lemma inv_move:
  assumes I: "fileset_inv tmp fs L" and e: "e \<in> set (L s)" and sd: "tree_type s = tree_type d" "s \<noteq> d"
    and x: "fse_index (F (fs_ents fs e)) = fse_index (fs_ents fs e)"
      "fse_fileset (F (fs_ents fs e)) = fse_fileset (fs_ents fs e)"
      "entry_tree (fse_flags (F (fs_ents fs e))) = Some d"
      "bit (fse_flags (F (fs_ents fs e))) 4 = bit (fse_flags (fs_ents fs e)) 4"
  obtains T h where "fileset_move_entry tmp s d e (upd_entry F e fs) =
      Some ((upd_entry F e fs)\<lparr>fs_trees := T, fs_nodes := h\<rparr>)"
    "fileset_inv tmp ((upd_entry F e fs)\<lparr>fs_trees := T, fs_nodes := h\<rparr>)
       (move_contents (fse_key (fs_ents fs)) e s d L)"
proof -
  let ?fs = "upd_entry F e fs" and ?k = "fse_key (fs_ents fs)"
  have k: "fse_key (fs_ents ?fs) = ?k" using x(1) by simp
  have T: "trees_hold tmp ?fs L"
    using fileset_invD(1)[OF I] trees_hold_cong[of ?fs fs tmp L] k by simp
  have "e \<notin> set (L d)" using tree_unique[OF I e, of d] sd(2) by blast
  moreover have "set (L d) \<subseteq> entries L (tree_type s)" "e \<in> entries L (tree_type s)"
    using sd(1) e by (auto simp: entries_def)
  ultimately have n: "fse_key (fs_ents ?fs) e \<notin> fse_key (fs_ents ?fs) ` set (L d)"
    unfolding k using fileset_invD(4)[OF I, of "tree_type s"] by (auto simp: inj_on_def)
  obtain T h where M: "fileset_move_entry tmp s d e ?fs = Some (?fs\<lparr>fs_trees := T, fs_nodes := h\<rparr>)"
    "trees_hold tmp (?fs\<lparr>fs_trees := T, fs_nodes := h\<rparr>) (move_contents ?k e s d L)"
    using move_entry_trees[OF T e sd(2) contents_disjoint[OF I] n] unfolding k by blast
  have "fileset_inv tmp (?fs\<lparr>fs_trees := T, fs_nodes := h\<rparr>) (move_contents ?k e s d L)"
    using x by (intro inv_change[OF I e sd(1) M(2), of "F (fs_ents fs e)"]) (auto simp: busy_def flag_simps)
  with M(1) show thesis by (rule that)
qed

text \<open>One entry gets new flags that leave it in its tree.\<close>

lemma inv_stay:
  assumes I: "fileset_inv tmp fs L" and e: "e \<in> set (L s)"
    and x: "fse_index (F (fs_ents fs e)) = fse_index (fs_ents fs e)"
      "fse_fileset (F (fs_ents fs e)) = fse_fileset (fs_ents fs e)"
      "entry_tree (fse_flags (F (fs_ents fs e))) = Some s"
      "bit (fse_flags (F (fs_ents fs e))) 4 = bit (fse_flags (fs_ents fs e)) 4"
  shows "fileset_inv tmp (upd_entry F e fs) L"
proof -
  have "trees_hold tmp (upd_entry F e fs) L"
    using fileset_invD(1)[OF I] trees_hold_cong[of "upd_entry F e fs" fs tmp L] x(1) by simp
  then have "trees_hold tmp (upd_entry F e fs) (move_contents (fse_key (fs_ents fs)) e s s L)"
    by (simp add: move_contents_def)
  from inv_change[OF I e refl this, of "F (fs_ents fs e)"] x show ?thesis
    by (simp add: move_contents_def busy_def flag_simps)
qed

lemma move_by_type_ok:
  assumes I: "fileset_inv tmp fs L" and e: "e \<in> set (L s)"
    and F: "entry_tree (F (fse_flags (fs_ents fs e))) = Some d" "tree_type s = tree_type d"
      "bit (F (fse_flags (fs_ents fs e))) 4 = bit (fse_flags (fs_ents fs e)) 4"
    and t: "tree_type s = File \<Longrightarrow> files = (s, d) \<and> s \<noteq> d"
      "tree_type s = Leafdir \<Longrightarrow> leafdirs = (s, d) \<and> s \<noteq> d"
  obtains T h where "move_by_type tmp files leafdirs e (set_flags F e fs) =
      Some ((set_flags F e fs)\<lparr>fs_trees := T, fs_nodes := h\<rparr>)"
    "fileset_inv tmp ((set_flags F e fs)\<lparr>fs_trees := T, fs_nodes := h\<rparr>)
       (move_contents (fse_key (fs_ents fs)) e s d L)"
proof (cases "tree_type s")
  case Dir
  then have sd: "s = d" "s = fs_dirs" using F(2) by (cases s; cases d; simp)+
  have "move_by_type tmp files leafdirs e (set_flags F e fs) =
      Some ((set_flags F e fs)\<lparr>fs_trees := fs_trees fs, fs_nodes := fs_nodes fs\<rparr>)"
    using F(1) sd by (auto simp: move_by_type_def flag_simps entry_tree_bits upd_entry_def split: if_splits)
  moreover have "fileset_inv tmp (set_flags F e fs) L"
    using F sd by (intro inv_stay[OF I e]) auto
  then have "fileset_inv tmp ((set_flags F e fs)\<lparr>fs_trees := fs_trees fs, fs_nodes := fs_nodes fs\<rparr>)
       (move_contents (fse_key (fs_ents fs)) e s d L)"
    using sd by (simp add: move_contents_def upd_entry_def)
  ultimately show thesis by (rule that)
next
  case File
  then have "\<not> bit (F (fse_flags (fs_ents fs e))) 0 \<and> \<not> bit (F (fse_flags (fs_ents fs e))) 1"
    using F(1,2) by (auto simp: entry_tree_bits split: if_splits)
  then have eq: "move_by_type tmp files leafdirs e (set_flags F e fs) =
      fileset_move_entry tmp s d e (set_flags F e fs)"
    using t(1)[OF File] by (simp add: move_by_type_def flag_simps)
  have ne: "s \<noteq> d" using t(1)[OF File] by blast
  show thesis by (rule inv_move[where F = "\<lambda>x. x\<lparr>fse_flags := F (fse_flags x)\<rparr>", OF I e F(2) ne])
      (use F in simp_all, rule that, unfold eq)
next
  case Leafdir
  then have "\<not> bit (F (fse_flags (fs_ents fs e))) 0 \<and> bit (F (fse_flags (fs_ents fs e))) 1"
    using F(1,2) by (auto simp: entry_tree_bits split: if_splits)
  then have eq: "move_by_type tmp files leafdirs e (set_flags F e fs) =
      fileset_move_entry tmp s d e (set_flags F e fs)"
    using t(2)[OF Leafdir] by (simp add: move_by_type_def flag_simps)
  have ne: "s \<noteq> d" using t(2)[OF Leafdir] by blast
  show thesis by (rule inv_move[where F = "\<lambda>x. x\<lparr>fse_flags := F (fse_flags x)\<rparr>", OF I e F(2) ne])
      (use F in simp_all, rule that, unfold eq)
qed

lemma set_flags_const: "set_flags F e fs = set_flags (\<lambda>_. F (fse_flags (fs_ents fs e))) e fs"
  by (simp add: upd_entry_def)

lemma unbusy_exist_ok:
  assumes I: "fileset_inv tmp fs L" and e: "e \<in> set (L t)"
  obtains T h g where
    "unbusy_exist tmp x e fs = Some ((set_flags (\<lambda>_. g) e fs)\<lparr>fs_trees := T, fs_nodes := h\<rparr>)"
    "fileset_inv tmp ((set_flags (\<lambda>_. g) e fs)\<lparr>fs_trees := T, fs_nodes := h\<rparr>)
       (move_contents (fse_key (fs_ents fs)) e t (target_tree t x) L)"
    "bit g 4 = bit (fse_flags (fs_ents fs e)) 4" "bit g 6 = bit (fse_flags (fs_ents fs e)) 6"
    "entry_tree g = Some (target_tree t x)"
proof -
  let ?f = "fse_flags (fs_ents fs e)" and ?d = "target_tree t x"
  note B = fileset_invD(2)[OF I e, unfolded entry_tree_bits]
  have ty: "tree_type t = tree_type ?d" by (cases t) auto
  note ret = that
  have branch: thesis
    if eq: "unbusy_exist tmp x e fs = move_by_type tmp files leafdirs e (set_flags F e fs)"
      and g: "entry_tree (F ?f) = Some ?d" "bit (F ?f) 4 = bit ?f 4" "bit (F ?f) 6 = bit ?f 6"
      and m: "tree_type t = File \<Longrightarrow> files = (t, ?d) \<and> t \<noteq> ?d"
        "tree_type t = Leafdir \<Longrightarrow> leafdirs = (t, ?d) \<and> t \<noteq> ?d" for F files leafdirs
  proof (rule move_by_type_ok[where F = F, OF I e g(1) ty g(2) m])
    fix T h
    assume "move_by_type tmp files leafdirs e (set_flags F e fs) =
        Some ((set_flags F e fs)\<lparr>fs_trees := T, fs_nodes := h\<rparr>)"
      "fileset_inv tmp ((set_flags F e fs)\<lparr>fs_trees := T, fs_nodes := h\<rparr>)
         (move_contents (fse_key (fs_ents fs)) e t ?d L)"
    then show thesis using ret[where g = "F ?f" and T = T and h = h] g unfolding eq set_flags_const[of F] by blast
  qed
  consider (free_set) "x" "bit ?f 2" | (set) "x" "\<not> bit ?f 2" "\<not> bit ?f 3" | (free_clear) "\<not> x" "bit ?f 2"
    | (clear) "\<not> x" "\<not> bit ?f 2" "bit ?f 3" | (same) "\<not> bit ?f 2" "bit ?f 3 = x" by blast
  then show thesis
  proof cases
    case free_set
    then have "unbusy_exist tmp x e fs = move_by_type tmp (fs_free_files, fs_exist_files)
        (fs_free_leaf_dirs, fs_exist_leaf_dirs) e (set_flags (\<lambda>f. (f OR FSE_EXISTS) AND NOT FSE_FREE) e fs)"
      by (simp add: unbusy_exist_def flag_simps)
    then show thesis
      by (rule branch) (use B free_set in \<open>auto simp: entry_tree_bits flag_simps split: if_splits\<close>)
  next
    case set
    then have "unbusy_exist tmp x e fs = move_by_type tmp (fs_noex_files, fs_exist_files)
        (fs_noex_leaf_dirs, fs_exist_leaf_dirs) e (set_flags (\<lambda>f. f OR FSE_EXISTS) e fs)"
      by (simp add: unbusy_exist_def flag_simps)
    then show thesis
      by (rule branch) (use B set in \<open>auto simp: entry_tree_bits flag_simps split: if_splits\<close>)
  next
    case free_clear
    then have "unbusy_exist tmp x e fs = move_by_type tmp (fs_free_files, fs_noex_files)
        (fs_free_leaf_dirs, fs_noex_leaf_dirs) e (set_flags (\<lambda>f. f AND NOT (FSE_FREE OR FSE_EXISTS)) e fs)"
      by (simp add: unbusy_exist_def flag_simps)
    then show thesis
      by (rule branch) (use B free_clear in \<open>auto simp: entry_tree_bits flag_simps split: if_splits\<close>)
  next
    case clear
    then have "unbusy_exist tmp x e fs = move_by_type tmp (fs_exist_files, fs_noex_files)
        (fs_exist_leaf_dirs, fs_noex_leaf_dirs) e (set_flags (\<lambda>f. f AND NOT FSE_EXISTS) e fs)"
      by (simp add: unbusy_exist_def flag_simps)
    then show thesis
      by (rule branch) (use B clear in \<open>auto simp: entry_tree_bits flag_simps split: if_splits\<close>)
  next
    case same
    then have u: "unbusy_exist tmp x e fs = Some fs" by (auto simp: unbusy_exist_def flag_simps)
    have "t = ?d" using B same by (auto split: if_splits)
    then show thesis
      using that[where g = ?f and T = "fs_trees fs" and h = "fs_nodes fs"] u I fileset_invD(2)[OF I e]
      by (simp add: upd_entry_def move_contents_def)
  qed
qed

fun idle_signal :: "fse_type \<Rightarrow> fs_signal" where
  "idle_signal File = fs_idle_files_cv"
| "idle_signal Dir = fs_idle_dirs_cv"
| "idle_signal Leafdir = fs_idle_leafdirs_cv"

text \<open>The flags after the entry is idle again.\<close>

definition idle_flags :: "uint32 \<Rightarrow> uint32" where
  "idle_flags f = (if bit f 6 then (f AND NOT FSE_BUSY) AND NOT FSE_THRD_WAITNG else f AND NOT FSE_BUSY)"

lemma idle_flags_bits:
  "\<not> bit (idle_flags f) 4" "n \<notin> {4, 6} \<Longrightarrow> bit (idle_flags f) n = bit f n"
  by (auto simp: idle_flags_def flag_simps)

lemma entry_tree_cong:
  "(\<And>n. n < 4 \<Longrightarrow> bit g n = bit f n) \<Longrightarrow> entry_tree g = entry_tree f"
  by (simp add: entry_tree_bits)

lemma idle_trees_cong:
  "trees_hold tmp (fs\<lparr>fs_idle_files := i\<rparr>) L = trees_hold tmp fs L"
  "trees_hold tmp (fs\<lparr>fs_idle_dirs := i\<rparr>) L = trees_hold tmp fs L"
  "trees_hold tmp (fs\<lparr>fs_idle_leafdirs := i\<rparr>) L = trees_hold tmp fs L"
  by (simp_all add: trees_hold_def)

fun set_idle :: "fse_type \<Rightarrow> int \<Rightarrow> fileset \<Rightarrow> fileset" where
  "set_idle File i fs = fs\<lparr>fs_idle_files := i\<rparr>"
| "set_idle Dir i fs = fs\<lparr>fs_idle_dirs := i\<rparr>"
| "set_idle Leafdir i fs = fs\<lparr>fs_idle_leafdirs := i\<rparr>"

lemma set_idle_simps [simp]:
  "fs_trees (set_idle ty i fs) = fs_trees fs" "fs_nodes (set_idle ty i fs) = fs_nodes fs"
  "fs_ents (set_idle ty i fs) = fs_ents fs" "type_list ty' (set_idle ty i fs) = type_list ty' fs"
  "idle_count ty' (set_idle ty i fs) = (if ty' = ty then i else idle_count ty' fs)"
  by (cases ty; cases ty'; simp)+

lemma unbusy_idle_eq:
  assumes "entry_tree (fse_flags (fs_ents fs e)) = Some t"
  shows "fst (unbusy_idle e fs) =
      set_idle (tree_type t) (idle_count (tree_type t) fs + 1) (set_flags idle_flags e fs)"
    and "set (snd (unbusy_idle e fs)) =
      (if bit (fse_flags (fs_ents fs e)) 6 then {fs_thrd_wait_cv} else {}) \<union>
      (if idle_count (tree_type t) fs \<ge> 0 then {idle_signal (tree_type t)} else {})"
proof -
  let ?f = "fse_flags (fs_ents fs e)"
  consider (is_file) "\<not> bit ?f 0" "\<not> bit ?f 1" "tree_type t = File" | (is_dir) "bit ?f 0" "\<not> bit ?f 1" "tree_type t = Dir"
    | (is_leafdir) "\<not> bit ?f 0" "bit ?f 1" "tree_type t = Leafdir"
    using assms by (auto simp: entry_tree_bits split: if_splits)
  then have "unbusy_idle e fs =
      (set_idle (tree_type t) (idle_count (tree_type t) fs + 1) (set_flags idle_flags e fs),
       (if bit ?f 6 then [fs_thrd_wait_cv] else []) @
       (if idle_count (tree_type t) fs \<ge> 0 then [idle_signal (tree_type t)] else []))"
    by cases (simp_all add: unbusy_idle_def upd_entry_def flag_simps idle_flags_def Let_def)
  then show "fst (unbusy_idle e fs) =
      set_idle (tree_type t) (idle_count (tree_type t) fs + 1) (set_flags idle_flags e fs)"
    and "set (snd (unbusy_idle e fs)) =
      (if bit ?f 6 then {fs_thrd_wait_cv} else {}) \<union>
      (if idle_count (tree_type t) fs \<ge> 0 then {idle_signal (tree_type t)} else {})"
    by simp_all
qed

lemma unbusy_idle_inv:
  assumes I: "fileset_inv tmp fs L" and e: "e \<in> set (L t)" and b: "busy fs e"
  shows "fileset_inv tmp (fst (unbusy_idle e fs)) L"
proof -
  let ?x = "(fs_ents fs e)\<lparr>fse_flags := idle_flags (fse_flags (fs_ents fs e))\<rparr>"
  let ?fs = "set_idle (tree_type t) (idle_count (tree_type t) fs + 1) (set_flags idle_flags e fs)"
  note t = fileset_invD(2)[OF I e]
  have "trees_hold tmp ?fs L"
    using fileset_invD(1)[OF I] trees_hold_cong[of ?fs fs tmp L] by simp
  then have "trees_hold tmp ?fs (move_contents (fse_key (fs_ents fs)) e t t L)"
    by (simp add: move_contents_def)
  from inv_change[OF I e refl this, of ?x]
  have "fileset_inv tmp ?fs (move_contents (fse_key (fs_ents fs)) e t t L)"
    using b t entry_tree_cong[of "idle_flags (fse_flags (fs_ents fs e))" "fse_flags (fs_ents fs e)"]
    by (simp add: idle_flags_bits busy_def flag_simps)
  then show ?thesis unfolding unbusy_idle_eq(1)[OF t] by (simp add: move_contents_def)
qed

section \<open>Picking\<close>

lemma fileset_find_entry_ok:
  assumes "trees_hold tmp fs L"
  shows "fileset_find_entry fs t index =
    Some (hd0 (filter (\<lambda>d. uint index \<le> fse_key (fs_ents fs) d) (L t) @ L t))"
proof -
  have "fileset_find_entry fs t index =
      avl_search (key_compar (\<lambda>e. uint (fse_index e)) (fse_key (fs_ents fs))) (fs_trees fs t)
        (fs_nodes fs) (fse_zero\<lparr>fse_index := index\<rparr>)"
    by (simp add: fileset_find_entry_def avl_search_def compar_entries Let_def)
  then show ?thesis
    using avl.search_ok[OF trees_holdD[OF assms], where vkey = "\<lambda>e. uint (fse_index e)"
        and v = "fse_zero\<lparr>fse_index := index\<rparr>" and t1 = t] by simp
qed

lemma find_entry_member:
  assumes "trees_hold tmp fs L" "L t \<noteq> []"
  obtains e where "fileset_find_entry fs t index = Some e" "e \<in> set (L t)" "e \<noteq> NULL"
proof -
  let ?xs = "filter (\<lambda>d. uint index \<le> fse_key (fs_ents fs) d) (L t) @ L t"
  have "hd0 ?xs \<in> set ?xs" using assms(2) by (intro hd0_in) simp
  then have m: "hd0 ?xs \<in> set (L t)" by auto
  then have "hd0 ?xs \<noteq> NULL"
    using avl.held_valid[OF trees_holdD[OF assms(1)] m] avl.valid_nonnull by blast
  with m fileset_find_entry_ok[OF assms(1)] that show thesis by blast
qed

text \<open>The successor in the tree, and around its end.\<close>

lemma cyclic_next:
  assumes H: "avl_family key off tmp t h ds" and p: "p < length ds"
  shows "Option.bind (avl_walk t h (ds ! p) True)
      (\<lambda>n. if n = NULL then avl_first t h else Some n) = Some (ds ! (Suc p mod length ds))"
proof -
  have ds: "take p ds @ ds ! p # drop (Suc p) ds = ds" using id_take_nth_drop[OF p] by simp
  have w: "avl_walk t h (ds ! p) True = Some (hd0 (drop (Suc p) ds))"
    using avl.succ_ok[of key off tmp t h "take p ds" "ds ! p" "drop (Suc p) ds"] H ds by simp
  show ?thesis
  proof (cases "Suc p < length ds")
    case True
    then have "drop (Suc p) ds = ds ! Suc p # drop (Suc (Suc p)) ds" by (simp add: Cons_nth_drop_Suc)
    moreover have "ds ! Suc p \<noteq> NULL"
      using avl.held_valid[OF H nth_mem[OF True]] avl.valid_nonnull by blast
    ultimately show ?thesis using w True by simp
  next
    case False
    then have "Suc p = length ds" using p by simp
    moreover have "hd0 ds = ds ! 0" using p by (cases ds) auto
    ultimately show ?thesis using w avl.first_ok[OF H] by simp
  qed
qed

text \<open>The entries in the order the loop looks at them, from position \<open>i\<close> on.\<close>

definition cyclic :: "ptr list \<Rightarrow> nat \<Rightarrow> nat \<Rightarrow> ptr" where
  "cyclic ds i k = ds ! ((i + k) mod length ds)"

lemma pick_idle_ok:
  assumes H: "trees_hold tmp fs L" and i: "i < length (L t)"
  shows "j < length (L t) \<Longrightarrow> pick_idle fs t (L t ! i) (cyclic (L t) i j) =
    Some (hd0 (filter (\<lambda>d. \<not> busy fs d) (map (cyclic (L t) i) [j..<length (L t)])))"
proof (induction "length (L t) - j" arbitrary: j)
  case (Suc m)
  let ?ds = "L t" and ?n = "length (L t)"
  note F = trees_holdD[OF H, of t]
  let ?p = "(i + j) mod ?n"
  have p: "?p < ?n" using i by (intro mod_less_divisor) auto
  have m: "Suc ?p mod ?n = (i + Suc j) mod ?n" by (simp add: mod_Suc_eq)
  have upt: "[j..<?n] = j # [Suc j..<?n]" using Suc.prems upt_conv_Cons by blast
  show ?case
  proof (cases "busy fs (cyclic ?ds i j)")
    case False
    then show ?thesis
      by (subst pick_idle.simps) (simp add: upt busy_def)
  next
    case True
    let ?e = "?ds ! ((i + Suc j) mod ?n)"
    have q: "(i + Suc j) mod ?n < ?n" using i by (intro mod_less_divisor) auto
    have nn: "?e \<noteq> NULL" using avl.held_valid[OF F nth_mem[OF q]] avl.valid_nonnull by blast
    have step: "pick_idle fs t (?ds ! i) (cyclic ?ds i j) =
        (if ?e = ?ds ! i then Some NULL else pick_idle fs t (?ds ! i) ?e)"
    proof -
      obtain n where "avl_walk (fs_trees fs t) (fs_nodes fs) (?ds ! ?p) True = Some n"
        "(if n = NULL then avl_first (fs_trees fs t) (fs_nodes fs) else Some n) = Some ?e"
        using cyclic_next[OF F p] unfolding m by (auto simp: bind_eq_Some_conv)
      then show ?thesis
        using True nn by (subst pick_idle.simps) (simp add: busy_def cyclic_def)
    qed
    have start: "?e = ?ds ! i \<longleftrightarrow> Suc j = ?n"
    proof -
      have "?e = ?ds ! i \<longleftrightarrow> (i + Suc j) mod ?n = i"
        using q i avl.distinct_holds[OF F] by (simp add: nth_eq_iff_index_eq)
      also have "\<dots> \<longleftrightarrow> Suc j = ?n"
        using i Suc.prems by (auto simp: mod_if le_mod_geq)
      finally show ?thesis .
    qed
    show ?thesis
    proof (cases "Suc j = ?n")
      case True
      then show ?thesis using step start \<open>busy fs (cyclic ?ds i j)\<close> by (simp add: upt)
    next
      case False
      then have "pick_idle fs t (?ds ! i) (cyclic ?ds i (Suc j)) =
          Some (hd0 (filter (\<lambda>d. \<not> busy fs d) (map (cyclic ?ds i) [Suc j..<?n])))"
        using Suc by simp
      then show ?thesis using step start False \<open>busy fs (cyclic ?ds i j)\<close> by (simp add: upt cyclic_def)
    qed
  qed
qed simp

lemma set_cyclic: "i < length ds \<Longrightarrow> set (map (cyclic ds i) [0..<length ds]) = set ds"
proof -
  assume i: "i < length ds"
  have "\<exists>k<length ds. (i + k) mod length ds = p" if "p < length ds" for p
  proof (cases "i \<le> p")
    case True
    then show ?thesis using that by (intro exI[of _ "p - i"]) auto
  next
    case False
    then show ?thesis using that i by (intro exI[of _ "length ds - i + p"]) auto
  qed
  moreover have "(i + k) mod length ds < length ds" for k using i by (intro mod_less_divisor) auto
  ultimately show ?thesis by (fastforce simp: cyclic_def in_set_conv_nth image_iff)
qed

end
