(* ===== verification/FB_Fileset_Ops.thy ===== *)
theory FB_Fileset_Ops
  imports FB_Fileset_Inv
begin

text \<open>
  What picking and giving back do to a fileset that satisfies the invariant, as one lemma per
  operation for the clients.
\<close>

unbundle bit_operations_syntax

section \<open>The choice of \<^verbatim>\<open>fileset_pick\<close>\<close>

definition pick_type :: "uint32 \<Rightarrow> fse_type" where
  "pick_type flags =
     (if flags AND FILESET_PICKMASK = FILESET_PICKFILE then File
      else if flags AND FILESET_PICKMASK = FILESET_PICKDIR then Dir else Leafdir)"

definition pick_tree :: "uint32 \<Rightarrow> fs_tree" where
  "pick_tree flags =
     (case pick_type flags of
        File \<Rightarrow> if flags AND FILESET_PICKUNIQUE \<noteq> 0 then fs_free_files
                else if flags AND FILESET_PICKNOEXIST \<noteq> 0 then fs_noex_files else fs_exist_files
      | Dir \<Rightarrow> fs_dirs
      | Leafdir \<Rightarrow> if flags AND FILESET_PICKUNIQUE \<noteq> 0 then fs_free_leaf_dirs
                else if flags AND FILESET_PICKNOEXIST \<noteq> 0 then fs_noex_leaf_dirs else fs_exist_leaf_dirs)"

lemma pick_types: "flags AND FILESET_PICKMASK \<noteq> 3 \<Longrightarrow> flags AND FILESET_PICKMASK \<in> {0, 1, 2}"
  unfolding FILESET_PICKMASK_def and_3 by (cases "bit flags 0"; cases "bit flags 1"; simp)

lemma pick_tree_type [simp]: "tree_type (pick_tree flags) = pick_type flags"
  by (cases "pick_type flags") (simp_all add: pick_tree_def)

fun pick_max :: "fse_type \<Rightarrow> fileset \<Rightarrow> fbint" where
  "pick_max File fs = fs_constentries fs"
| "pick_max Dir fs = 1"
| "pick_max Leafdir fs = fs_constleafdirs fs"

lemma pick_select_eq:
  assumes "flags AND FILESET_PICKMASK \<noteq> 3"
  shows "pick_select fs flags =
    Some (if type_list (pick_type flags) fs = NULL then NoEntries
          else if idle_count (pick_type flags) fs = 0 then Wait
          else From (pick_tree flags) (pick_max (pick_type flags) fs))"
  using pick_types[OF assms]
  by (auto simp: pick_select_def pick_tree_def pick_type_def FILESET_PICKFILE_def FILESET_PICKDIR_def
      FILESET_PICKLEAFDIR_def Let_def)

text \<open>States that differ only in the rotors.\<close>

definition rotor_step :: "fileset \<Rightarrow> fileset \<Rightarrow> bool" where
  "rotor_step fs fs' \<longleftrightarrow>
     fs_trees fs' = fs_trees fs \<and> fs_nodes fs' = fs_nodes fs \<and> fs_ents fs' = fs_ents fs \<and>
     (\<forall>ty. idle_count ty fs' = idle_count ty fs \<and> type_list ty fs' = type_list ty fs)"

lemma rotor_step_refl [simp]: "rotor_step fs fs"
  by (simp add: rotor_step_def)

lemma inv_rotor: "rotor_step fs fs' \<Longrightarrow> fileset_inv tmp fs' L \<longleftrightarrow> fileset_inv tmp fs L"
  by (simp add: rotor_step_def fileset_inv_def trees_hold_def busy_def)

lemma pick_rotor_ok:
  assumes "trees_hold tmp fs L" "L t \<noteq> []" "\<And>i. rotor_step fs (set_rotor i fs)"
  shows "\<exists>e fs'. pick_rotor fs t rotor set_rotor = Some (e, fs') \<and> e \<in> set (L t) \<and> e \<noteq> NULL \<and>
    rotor_step fs fs'"
proof -
  obtain e where "fileset_find_entry fs t rotor = Some e" "e \<in> set (L t)" "e \<noteq> NULL"
    by (rule find_entry_member[OF assms(1,2)])
  then show ?thesis using assms(3) by (simp add: pick_rotor_def)
qed

lemma rotor_steps:
  "rotor_step fs (fs\<lparr>fs_file_nerotor := i\<rparr>)" "rotor_step fs (fs\<lparr>fs_file_exrotor := r\<rparr>)"
  "rotor_step fs (fs\<lparr>fs_dirrotor := i\<rparr>)" "rotor_step fs (fs\<lparr>fs_leafdir_exrotor := i\<rparr>)"
  "rotor_step fs (fs\<lparr>fs_leafdir_nerotor := i\<rparr>)"
proof -
  have "idle_count ty (fs\<lparr>fs_file_nerotor := i\<rparr>) = idle_count ty fs \<and>
      type_list ty (fs\<lparr>fs_file_nerotor := i\<rparr>) = type_list ty fs" for ty by (cases ty) auto
  moreover have "idle_count ty (fs\<lparr>fs_file_exrotor := r\<rparr>) = idle_count ty fs \<and>
      type_list ty (fs\<lparr>fs_file_exrotor := r\<rparr>) = type_list ty fs" for ty by (cases ty) auto
  moreover have "idle_count ty (fs\<lparr>fs_dirrotor := i\<rparr>) = idle_count ty fs \<and>
      type_list ty (fs\<lparr>fs_dirrotor := i\<rparr>) = type_list ty fs" for ty by (cases ty) auto
  moreover have "idle_count ty (fs\<lparr>fs_leafdir_exrotor := i\<rparr>) = idle_count ty fs \<and>
      type_list ty (fs\<lparr>fs_leafdir_exrotor := i\<rparr>) = type_list ty fs" for ty by (cases ty) auto
  moreover have "idle_count ty (fs\<lparr>fs_leafdir_nerotor := i\<rparr>) = idle_count ty fs \<and>
      type_list ty (fs\<lparr>fs_leafdir_nerotor := i\<rparr>) = type_list ty fs" for ty by (cases ty) auto
  ultimately show "rotor_step fs (fs\<lparr>fs_file_nerotor := i\<rparr>)"
    "rotor_step fs (fs\<lparr>fs_file_exrotor := r\<rparr>)" "rotor_step fs (fs\<lparr>fs_dirrotor := i\<rparr>)"
    "rotor_step fs (fs\<lparr>fs_leafdir_exrotor := i\<rparr>)" "rotor_step fs (fs\<lparr>fs_leafdir_nerotor := i\<rparr>)"
    by (simp_all add: rotor_step_def)
qed

lemma pick_start_ok:
  assumes H: "trees_hold tmp fs L" and t: "L t \<noteq> []" and ty: "flags AND FILESET_PICKMASK \<noteq> 3"
  obtains e fs' where "pick_start random64 fs flags tid index t m = Some (e, fs')"
    "e \<in> set (L t)" "e \<noteq> NULL" "rotor_step fs fs'"
proof -
  have "\<exists>e fs'. pick_rotation fs flags tid t = Some (e, fs') \<and> e \<in> set (L t) \<and> e \<noteq> NULL \<and> rotor_step fs fs'"
    using pick_types[OF ty] pick_rotor_ok[where tmp = tmp and L = L and fs = fs and t = t, OF H t] rotor_steps
    by (auto simp: pick_rotation_def pick_flag_defs)
  moreover have "\<exists>e fs'. map_option (\<lambda>e. (e, fs)) (fileset_find_entry fs t k) = Some (e, fs') \<and>
      e \<in> set (L t) \<and> e \<noteq> NULL \<and> rotor_step fs fs'" for k
    using find_entry_member[OF H t, of k] by (metis option.simps(9) rotor_step_refl)
  ultimately show thesis using that unfolding pick_start_def Let_def by metis
qed

lemma pick_take_eq:
  assumes "flags AND FILESET_PICKMASK \<noteq> 3"
  shows "pick_take fs flags e =
    set_idle (pick_type flags) (idle_count (pick_type flags) fs - 1) (set_flags (\<lambda>f. f OR FSE_BUSY) e fs)"
  using pick_types[OF assms] by (auto simp: pick_take_def pick_type_def pick_flag_defs upd_entry_def Let_def)

lemma fse_busy_nonzero: "FSE_BUSY \<noteq> 0"
  by (simp add: FSE_BUSY_def)

lemma pick_take_inv:
  assumes I: "fileset_inv tmp fs L" and e: "e \<in> set (L (pick_tree flags))" and b: "\<not> busy fs e"
    and ty: "flags AND FILESET_PICKMASK \<noteq> 3"
  shows "fileset_inv tmp (pick_take fs flags e) L"
proof -
  let ?t = "pick_tree flags" and ?fs = "pick_take fs flags e"
  let ?x = "(fs_ents fs e)\<lparr>fse_flags := fse_flags (fs_ents fs e) OR FSE_BUSY\<rparr>"
  have "trees_hold tmp ?fs L"
    using fileset_invD(1)[OF I] trees_hold_cong[of ?fs fs tmp L] by (simp add: pick_take_eq[OF ty])
  then have "trees_hold tmp ?fs (move_contents (fse_key (fs_ents fs)) e ?t ?t L)"
    by (simp add: move_contents_def)
  then have "fileset_inv tmp ?fs (move_contents (fse_key (fs_ents fs)) e ?t ?t L)"
    using b fileset_invD(2)[OF I e] fse_busy_nonzero
      entry_tree_cong[of "fse_flags (fs_ents fs e) OR FSE_BUSY" "fse_flags (fs_ents fs e)"]
    by (intro inv_change[OF I e refl, of _ ?x]) (auto simp: pick_take_eq[OF ty] busy_def flag_simps)
  then show ?thesis by (simp add: move_contents_def)
qed

lemma unbusy_step:
  assumes I: "fileset_inv tmp fs L" and e: "e \<in> set (L t)"
  obtains T h g where "(if u then unbusy_exist tmp x e fs else Some fs) =
      Some ((set_flags (\<lambda>_. g) e fs)\<lparr>fs_trees := T, fs_nodes := h\<rparr>)"
    "fileset_inv tmp ((set_flags (\<lambda>_. g) e fs)\<lparr>fs_trees := T, fs_nodes := h\<rparr>)
       (move_contents (fse_key (fs_ents fs)) e t (if u then target_tree t x else t) L)"
    "bit g 4 = bit (fse_flags (fs_ents fs e)) 4" "bit g 6 = bit (fse_flags (fs_ents fs e)) 6"
    "entry_tree g = Some (if u then target_tree t x else t)"
proof (cases u)
  case True
  show thesis by (rule unbusy_exist_ok[OF I e, of x]) (rule that, simp_all only: True if_True)
next
  case False
  have "(set_flags (\<lambda>_. fse_flags (fs_ents fs e)) e fs)\<lparr>fs_trees := fs_trees fs, fs_nodes := fs_nodes fs\<rparr> = fs"
    by (simp add: upd_entry_def)
  then show thesis
    using that[where g = "fse_flags (fs_ents fs e)" and T = "fs_trees fs" and h = "fs_nodes fs"] False I
      fileset_invD(2)[OF I e] by (simp add: move_contents_def)
qed

section \<open>The operations\<close>

text \<open>What \<^verbatim>\<open>fileset_pick\<close> does to a fileset; \<open>entry_static\<close> is the part of an entry that picking and
  giving back leave alone.\<close>

definition entry_static :: "filesetentry \<Rightarrow> ptr \<times> uint32 \<times> ptr \<times> ptr \<times> nat option \<times> int" where
  "entry_static x = (fse_parent x, fse_index x, fse_nextoftype x, fse_fileset x, fse_path x, fse_size x)"

definition pick_post :: "ptr \<Rightarrow> contents \<Rightarrow> uint32 \<Rightarrow> fileset \<Rightarrow> pick_result \<Rightarrow> fileset \<Rightarrow> bool" where
  "pick_post tmp L flags fs r fs' \<longleftrightarrow> fileset_inv tmp fs' L \<and>
     (\<forall>d. entry_static (fs_ents fs' d) = entry_static (fs_ents fs d)) \<and>
    (case r of
       Blocked \<Rightarrow> fs' = fs \<and> entries L (pick_type flags) \<noteq> {} \<and>
         (\<forall>d\<in>entries L (pick_type flags). busy fs d)
     | Picked e \<Rightarrow>
         if e = NULL then (\<forall>d\<in>set (L (pick_tree flags)). busy fs d) \<and> rotor_step fs fs'
         else e \<in> set (L (pick_tree flags)) \<and> \<not> busy fs e \<and> busy fs' e \<and>
           (\<forall>d. d \<noteq> e \<longrightarrow> fs_ents fs' d = fs_ents fs d) \<and>
           idle_count (pick_type flags) fs' = idle_count (pick_type flags) fs - 1)"

lemma pick_ok:
  assumes I: "fileset_inv tmp fs L" and ty: "flags AND FILESET_PICKMASK \<noteq> 3"
  shows "\<exists>r fs'. fileset_pick random64 fs flags tid index = Some (r, fs') \<and> pick_post tmp L flags fs r fs'"
proof -
  let ?t = "pick_tree flags" and ?ty = "pick_type flags"
  note sel = pick_select_eq[OF ty, of fs]
  note T = fileset_invD(1)[OF I]
  have sub: "set (L ?t) \<subseteq> entries L ?ty" using in_entries[of _ L ?t] by auto
  have empty: "avl_is_empty (fs_trees fs ?t) \<longleftrightarrow> L ?t = []"
    using trees_holdD[OF T, of ?t] avl_holds_numnodes
    by (fastforce simp: avl_family_def avl_is_empty_def avl_numnodes_def)
  consider (none) "type_list ?ty fs = NULL" | (wait) "type_list ?ty fs \<noteq> NULL" "idle_count ?ty fs = 0"
    | (nil) "type_list ?ty fs \<noteq> NULL" "idle_count ?ty fs \<noteq> 0" "L ?t = []"
    | (go) "type_list ?ty fs \<noteq> NULL" "idle_count ?ty fs \<noteq> 0" "L ?t \<noteq> []" by blast
  then show ?thesis
  proof cases
    case none
    then have "entries L ?ty = {}" using fileset_invD(6)[OF I, of ?ty] by simp
    then have "set (L ?t) = {}" using sub by simp
    moreover have "fileset_pick random64 fs flags tid index = Some (Picked NULL, fs)"
      using none by (simp add: fileset_pick_def sel)
    ultimately show ?thesis using I by (simp add: pick_post_def)
  next
    case wait
    then have "\<forall>d\<in>entries L ?ty. busy fs d" using fileset_invD(5)[OF I, of ?ty] by auto
    moreover have "fileset_pick random64 fs flags tid index = Some (Blocked, fs)"
      using wait by (simp add: fileset_pick_def sel)
    moreover have "entries L ?ty \<noteq> {}" using wait(1) fileset_invD(6)[OF I, of ?ty] by simp
    ultimately show ?thesis using I by (simp add: pick_post_def)
  next
    case nil
    then have "fileset_pick random64 fs flags tid index = Some (Picked NULL, fs)"
      using empty by (simp add: fileset_pick_def sel)
    then show ?thesis using I nil by (simp add: pick_post_def)
  next
    case go
    obtain e fs1 where S: "pick_start random64 fs flags tid index ?t (pick_max ?ty fs) = Some (e, fs1)"
      "e \<in> set (L ?t)" "e \<noteq> NULL" and R: "rotor_step fs fs1"
      by (rule pick_start_ok[OF T go(3) ty])
    have I1: "fileset_inv tmp fs1 L" using inv_rotor[OF R] I by blast
    obtain i where i: "i < length (L ?t)" "e = L ?t ! i" using S(2) by (auto simp: in_set_conv_nth)
    let ?xs = "filter (\<lambda>d. \<not> busy fs1 d) (map (cyclic (L ?t) i) [0..<length (L ?t)])"
    have P: "pick_idle fs1 ?t e e = Some (hd0 ?xs)"
      using pick_idle_ok[OF fileset_invD(1)[OF I1] i(1), of 0] i go(3) by (simp add: cyclic_def)
    have X: "set ?xs = {d \<in> set (L ?t). \<not> busy fs d}"
      using set_cyclic[OF i(1)] R by (auto simp: busy_def rotor_step_def)
    have F: "fileset_pick random64 fs flags tid index =
        Some (if hd0 ?xs = NULL then (Picked NULL, fs1) else (Picked (hd0 ?xs), pick_take fs1 flags (hd0 ?xs)))"
      using go S empty P by (simp add: fileset_pick_def sel)
    have nn: "0 \<notin> set ?xs"
      using avl.held_valid[OF trees_holdD[OF T, of ?t]] avl.valid_nonnull X by fastforce
    show ?thesis
    proof (cases "?xs = []")
      case True
      then have "\<forall>d\<in>set (L ?t). busy fs d" using X by auto
      then show ?thesis using F R I1 True by (simp add: pick_post_def rotor_step_def)
    next
      case False
      then have m: "hd0 ?xs \<in> set ?xs" by (rule hd0_in)
      then have "hd0 ?xs \<noteq> NULL" using nn by metis
      moreover have b: "\<not> busy fs1 (hd0 ?xs)" "\<not> busy fs (hd0 ?xs)" "hd0 ?xs \<in> set (L ?t)"
        using m X R by (auto simp: busy_def rotor_step_def)
      ultimately show ?thesis
        using F pick_take_inv[OF I1 b(3,1) ty] R fse_busy_nonzero
        by (auto simp: pick_post_def pick_take_eq[OF ty] busy_def flag_simps rotor_step_def entry_static_def)
    qed
  qed
qed

text \<open>What \<^verbatim>\<open>fileset_unbusy\<close> does.\<close>

definition unbusy_post :: "ptr \<Rightarrow> contents \<Rightarrow> ptr \<Rightarrow> fs_tree \<Rightarrow> int \<Rightarrow> fs_tree \<Rightarrow> fileset \<Rightarrow> fileset \<Rightarrow> fs_signal list \<Rightarrow> bool" where
  "unbusy_post tmp L e t incr t' fs fs' sigs \<longleftrightarrow>
    fileset_inv tmp fs' (move_contents (fse_key (fs_ents fs)) e t t' L) \<and>
    (\<forall>d. entry_static (fs_ents fs' d) = entry_static (fs_ents fs d)) \<and>
    \<not> busy fs' e \<and> fse_open_cnt (fs_ents fs' e) = fse_open_cnt (fs_ents fs e) + incr \<and>
    idle_count (tree_type t) fs' = idle_count (tree_type t) fs + of_bool (busy fs e) \<and>
    (busy fs e \<longrightarrow> idle_signal (tree_type t) \<in> set sigs \<and>
       (fse_flags (fs_ents fs e) AND FSE_THRD_WAITNG \<noteq> 0 \<longrightarrow> fs_thrd_wait_cv \<in> set sigs)) \<and>
    (\<forall>d. d \<noteq> e \<longrightarrow> fs_ents fs' d = fs_ents fs d)"

lemma unbusy_ok:
  assumes I: "fileset_inv tmp fs L" and e: "e \<in> set (L t)"
  shows "\<exists>fs' sigs. fileset_unbusy tmp e update_exist new_exist_val incr fs = Some (fs', sigs) \<and>
    unbusy_post tmp L e t incr (if update_exist then target_tree t new_exist_val else t) fs fs' sigs"
proof -
  let ?t = "if update_exist then target_tree t new_exist_val else t"
  let ?L = "move_contents (fse_key (fs_ents fs)) e t ?t L"
  obtain T h g where X: "(if update_exist then unbusy_exist tmp new_exist_val e fs else Some fs) =
      Some ((set_flags (\<lambda>_. g) e fs)\<lparr>fs_trees := T, fs_nodes := h\<rparr>)"
    and I1: "fileset_inv tmp ((set_flags (\<lambda>_. g) e fs)\<lparr>fs_trees := T, fs_nodes := h\<rparr>) ?L"
    and g: "bit g 4 = bit (fse_flags (fs_ents fs e)) 4" "bit g 6 = bit (fse_flags (fs_ents fs e)) 6"
      "entry_tree g = Some ?t"
    by (rule unbusy_step[OF I e])
  let ?fs1 = "(set_flags (\<lambda>_. g) e fs)\<lparr>fs_trees := T, fs_nodes := h\<rparr>"
  let ?fs2 = "upd_entry (\<lambda>e. e\<lparr>fse_open_cnt := fse_open_cnt e + incr\<rparr>) e ?fs1"
  have e1: "e \<in> set (?L ?t)"
    using set_move_contents[of L t, OF contents_distinct[OF I]] e by auto
  have I2: "fileset_inv tmp ?fs2 ?L" using g by (intro inv_stay[OF I1 e1]) auto
  have ty: "tree_type ?t = tree_type t" by (cases t) auto
  have nn: "e \<noteq> NULL" "fse_fileset (fs_ents fs e) \<noteq> NULL"
    using avl.held_valid[OF trees_holdD[OF fileset_invD(1)[OF I]] e] avl.valid_nonnull
      fileset_invD(3)[OF I e] by blast+
  have U: "fileset_unbusy tmp e update_exist new_exist_val incr fs =
      Some (if busy fs e then unbusy_idle e ?fs2 else (?fs2, []))"
    using nn X g(1) by (simp add: fileset_unbusy_def busy_def flag_simps)
  have b2: "busy ?fs2 e = busy fs e" using g(1) by (simp add: busy_def flag_simps)
  have i2: "idle_count ty ?fs2 = idle_count ty fs" for ty by simp
  show ?thesis
  proof (cases "busy fs e")
    case False
    then show ?thesis using U I2 b2 by (simp add: unbusy_post_def entry_static_def)
  next
    case True
    have et: "entry_tree (fse_flags (fs_ents ?fs2 e)) = Some ?t" using g(3) by simp
    note eq = unbusy_idle_eq[OF et, unfolded ty i2]
    have "idle_count (tree_type t) fs \<ge> 0" using fileset_invD(5)[OF I] by simp
    then show ?thesis
      using U True unbusy_idle_inv[OF I2 e1] b2 eq g idle_flags_bits(1)
      by (cases "unbusy_idle e ?fs2") (auto simp: unbusy_post_def busy_def flag_simps entry_static_def)
  qed
qed

end
