(* ===== verification/FB_Fileset_Props.thy ===== *)
theory FB_Fileset_Props
  imports FB_Fileset_Ops
begin

text \<open>
  What picking, giving back and pre-allocating fileset entries promise. \<open>fileset_inv tmp fs L\<close> says
  that the trees of the fileset \<open>fs\<close> hold the entries \<open>L\<close>; see the theory of the invariant.
\<close>

unbundle bit_operations_syntax

section \<open>Properties\<close>


text \<open>A fileset with one free file, at address 64 with index 0.\<close>

definition demo_fileset :: fileset where
  "demo_fileset =
     \<lparr>fs_trees = (\<lambda>t. if t = fs_free_files
         then \<lparr>avl_root = 80, avl_offset = 16, avl_numnodes_fld = 1, avl_size = 96\<rparr>
         else \<lparr>avl_root = 0, avl_offset = 16, avl_numnodes_fld = 0, avl_size = 96\<rparr>),
      fs_nodes = (\<lambda>n. \<lparr>avl_child = (\<lambda>c. 0), avl_parent = 0, avl_child_index = False, avl_balance = 0\<rparr>),
      fs_ents = (\<lambda>_. fse_zero)(64 := fse_zero\<lparr>fse_flags := 4, fse_fileset := 8\<rparr>),
      fs_constentries = 1, fs_constleafdirs = 0, fs_realfiles = 1, fs_realleafdirs = 0, fs_bytes = 0,
      fs_idle_files = 1, fs_idle_dirs = 0, fs_idle_leafdirs = 0,
      fs_filelist = 64, fs_dirlist = 0, fs_leafdirlist = 0, fs_file_exrotor = (\<lambda>_. 0),
      fs_file_nerotor = 0, fs_dirrotor = 0, fs_leafdir_exrotor = 0, fs_leafdir_nerotor = 0\<rparr>"

definition demo_contents :: contents where
  "demo_contents = (\<lambda>t. if t = fs_free_files then [64] else [])"

lemma demo_fileset_inv: "fileset_inv 8 demo_fileset demo_contents"
proof -
  have E: "entries demo_contents ty = (if ty = File then {64} else {})" for ty
    by (auto simp: entries_def demo_contents_def split: if_splits intro: exI[of _ fs_free_files])
  have rep: "avl_rep \<lparr>avl_root = 80, avl_offset = 16, avl_numnodes_fld = 1, avl_size = 96\<rparr>
      (fs_nodes demo_fileset) (Node Leaf 80 0 Leaf)"
    by (auto simp: avl_rep_def focus_def demo_fileset_def)
  have one: "avl_family key 16 8 \<lparr>avl_root = 80, avl_offset = 16, avl_numnodes_fld = 1, avl_size = 96\<rparr>
      (fs_nodes demo_fileset) [64]" for key
    unfolding avl_family_def avl_holds_def using rep
    by (auto simp: tdata_def sorted_keys_def AVL_NODE2DATA_def avl_object_def AVL_DATA2NODE_def
        intro!: exI[of _ "Node Leaf 80 0 Leaf"])
  have none: "avl_family key 16 8 \<lparr>avl_root = 0, avl_offset = 16, avl_numnodes_fld = 0, avl_size = 96\<rparr>
      (fs_nodes demo_fileset) []" for key
    unfolding avl_family_def avl_holds_def
    by (auto simp: tdata_def sorted_keys_def intro!: exI[of _ Leaf] avl_rep_empty)
  have T: "trees_hold 8 demo_fileset demo_contents"
    using one none by (simp add: trees_hold_def demo_contents_def demo_fileset_def FSE_LINK_OFFSET_def)
  have B: "\<not> busy demo_fileset 64" by (simp add: busy_def demo_fileset_def FSE_BUSY_def)
  have F: "fs_idle_files demo_fileset = 1" "fs_idle_dirs demo_fileset = 0"
    "fs_idle_leafdirs demo_fileset = 0" "fs_filelist demo_fileset = 64" "fs_dirlist demo_fileset = 0"
    "fs_leafdirlist demo_fileset = 0" by (simp_all add: demo_fileset_def)
  have "idle_count ty demo_fileset = int (card {d \<in> entries demo_contents ty. \<not> busy demo_fileset d}) \<and>
      (type_list ty demo_fileset = NULL \<longleftrightarrow> entries demo_contents ty = {})" for ty
    using F by (cases ty) (simp_all add: E B Collect_conv_if)
  moreover have "entry_tree 4 = Some fs_free_files" by (simp add: entry_tree_def fse_flag_defs)
  then have "\<forall>t. \<forall>d\<in>set (demo_contents t).
      entry_tree (fse_flags (fs_ents demo_fileset d)) = Some t \<and> fse_fileset (fs_ents demo_fileset d) \<noteq> NULL"
    by (auto simp: demo_contents_def demo_fileset_def split: if_splits)
  moreover have "inj_on k (entries demo_contents ty)" for k ty by (simp add: E)
  ultimately show ?thesis using T unfolding fileset_inv_def by blast
qed


text \<open>C12: \<^verbatim>\<open>fileset_unbusy\<close> of an entry of the fileset always returns and keeps the invariant. When
  the existence is to be updated the entry ends up in the tree of existing or of non-existing
  entries of its type, from whichever of the three trees it was in. The open count grows by the
  given number; a busy entry becomes idle, the idle count of its type goes up by one, and the
  threads waiting for an idle entry, or for this one, are signalled. No other entry changes.\<close>

theorem fileset_unbusy_correct:
  assumes I: "fileset_inv tmp fs L" and e: "e \<in> set (L t)"
  shows "\<exists>fs' sigs. fileset_unbusy tmp e update_exist new_exist_val incr fs = Some (fs', sigs) \<and>
    fileset_inv tmp fs' (if update_exist
      then move_contents (fse_key (fs_ents fs)) e t (target_tree t new_exist_val) L else L) \<and>
    \<not> busy fs' e \<and> fse_open_cnt (fs_ents fs' e) = fse_open_cnt (fs_ents fs e) + incr \<and>
    idle_count (tree_type t) fs' = idle_count (tree_type t) fs + of_bool (busy fs e) \<and>
    (busy fs e \<longrightarrow> idle_signal (tree_type t) \<in> set sigs \<and>
       (fse_flags (fs_ents fs e) AND FSE_THRD_WAITNG \<noteq> 0 \<longrightarrow> fs_thrd_wait_cv \<in> set sigs)) \<and>
    (\<forall>d. d \<noteq> e \<longrightarrow> fs_ents fs' d = fs_ents fs d)"
proof -
  have M: "move_contents (fse_key (fs_ents fs)) e t (if update_exist then target_tree t new_exist_val else t) L =
      (if update_exist then move_contents (fse_key (fs_ents fs)) e t (target_tree t new_exist_val) L else L)"
    by (simp add: move_contents_def)
  show ?thesis
    using unbusy_ok[OF assms, of update_exist new_exist_val incr] unfolding unbusy_post_def M by blast
qed

theorem fileset_unbusy_correct_witness:
  "\<exists>fs' sigs. fileset_unbusy 8 64 True True 1 demo_fileset = Some (fs', sigs) \<and>
     fse_open_cnt (fs_ents fs' 64) = 1 \<and> fileset_inv 8 fs' (\<lambda>t. if t = fs_exist_files then [64] else [])"
proof -
  have e: "64 \<in> set (demo_contents fs_free_files)" by (simp add: demo_contents_def)
  have "move_contents k 64 fs_free_files fs_exist_files demo_contents =
      (\<lambda>t. if t = fs_exist_files then [64] else [])" for k
    by (auto simp: move_contents_def demo_contents_def fun_eq_iff)
  moreover have "fse_open_cnt (fs_ents demo_fileset 64) = 0" by (simp add: demo_fileset_def fse_zero_def)
  ultimately show ?thesis
    using fileset_unbusy_correct[OF demo_fileset_inv e, of True True 1] by (auto split: if_splits)
qed

end
