(* ===== verification/FB_Path.thy ===== *)
theory FB_Path
  imports FB_Fileset
begin

text \<open>
  The file system plug-in vector of \<^verbatim>\<open>fsplug.h\<close> and the path handling of \<^verbatim>\<open>fileset.c\<close>. The plug-in is
  not part of the sources, so its functions are a parameter: a record of functions on a file
  system state \<open>'w\<close>. C strings are lists of characters; bounded copies go through the functions of
  the theory of the string helpers.
\<close>

section \<open>The plug-in vector\<close>

record fb_stat =
  st_mode :: nat
  st_size :: int

text \<open>\<^verbatim>\<open>fsplug_func_t\<close>: every call returns its C result and the new state; \<open>fsp_open\<close> also stores the
  descriptor, \<open>fsp_stat\<close> the attributes.\<close>

record 'w fsplug_func =
  fsp_open :: "string \<Rightarrow> uint32 \<Rightarrow> uint32 \<Rightarrow> 'w \<Rightarrow> (int \<times> int) \<times> 'w"
  fsp_write :: "int \<Rightarrow> int \<Rightarrow> 'w \<Rightarrow> int \<times> 'w"
  fsp_ftrunc :: "int \<Rightarrow> int \<Rightarrow> 'w \<Rightarrow> int \<times> 'w"
  fsp_close :: "int \<Rightarrow> 'w \<Rightarrow> int \<times> 'w"
  fsp_mkdir :: "string \<Rightarrow> uint32 \<Rightarrow> 'w \<Rightarrow> int \<times> 'w"
  fsp_stat :: "string \<Rightarrow> 'w \<Rightarrow> int \<times> fb_stat"
  fsp_recur_rm :: "string \<Rightarrow> 'w \<Rightarrow> 'w"

definition MAXPATHLEN :: nat where "MAXPATHLEN = 4096"

section \<open>Paths\<close>

text \<open>\<^verbatim>\<open>trunc_dirname\<close>: writing a NUL at \<open>s\<close> cuts the string there; the first character is never
  looked at.\<close>

fun trunc_loop :: "string \<Rightarrow> nat \<Rightarrow> string" where
  "trunc_loop pth 0 = pth"
| "trunc_loop pth (Suc s) =
     (let c = (if Suc s < length pth then pth ! Suc s else CHR 0x00);
          pth = take (Suc s) pth
      in if c = CHR ''/'' then pth else trunc_loop pth s)"

definition trunc_dirname :: "string \<Rightarrow> string" where
  "trunc_dirname pth = trunc_loop pth (length pth)"

text \<open>The C string at an offset of the path memory, as far as a bounded copy looks at it.\<close>

definition path_string :: "char_memory \<Rightarrow> nat \<Rightarrow> string" where
  "path_string m p = takeWhile (\<lambda>c. c \<noteq> CHR 0x00) (map (cm_mem m) [p..<p + MAXPATHLEN])"

partial_function (option) resolve_loop ::
  "(ptr \<Rightarrow> filesetentry) \<Rightarrow> char_memory \<Rightarrow> ptr \<Rightarrow> string \<Rightarrow> string option" where
  "resolve_loop ents paths fsep path =
     (if fse_parent (ents fsep) = NULL then Some path
      else Option.bind (fse_path (ents fsep)) (\<lambda>p.
        let pathtmp = ''/'';
            pathtmp = strlcat_str pathtmp (path_string paths p) MAXPATHLEN;
            pathtmp = strlcat_str pathtmp path MAXPATHLEN;
            path = strlcpy_str pathtmp MAXPATHLEN
        in resolve_loop ents paths (fse_parent (ents fsep)) path))"

definition fileset_resolvepath ::
  "(ptr \<Rightarrow> filesetentry) \<Rightarrow> char_memory \<Rightarrow> ptr \<Rightarrow> string option" where
  "fileset_resolvepath ents paths entry =
     map_option (\<lambda>path. strlcpy_str path MAXPATHLEN) (resolve_loop ents paths entry [])"

section \<open>Making directories\<close>

text \<open>
  The first loop of \<^verbatim>\<open>fileset_mkdir\<close> collects the missing directories in \<^verbatim>\<open>dirs\<close>, here with the
  last one first. \<open>strdup i\<close> says whether the \<open>i\<close>-th \<^verbatim>\<open>strdup\<close> finds memory; without it the result
  is \<open>None\<close>.
\<close>

function mkdir_collect :: "(string \<Rightarrow> bool) \<Rightarrow> (nat \<Rightarrow> bool) \<Rightarrow> string \<Rightarrow> string list \<Rightarrow> string list option" where
  "mkdir_collect exists strdup p dirs =
     (if exists p then Some dirs
      else if length p < 3 then Some dirs
      else if \<not> strdup (Suc (length dirs)) then None
      else mkdir_collect exists strdup (trunc_dirname p) (p # dirs))"
  by pat_completeness auto

lemma length_trunc_loop: "length (trunc_loop pth s) \<le> length pth"
proof (induction pth s rule: trunc_loop.induct)
  case (2 pth s)
  then show ?case by (fastforce simp: Let_def)
qed simp

lemma length_trunc_dirname: "pth \<noteq> [] \<Longrightarrow> length pth \<noteq> 1 \<Longrightarrow> length (trunc_dirname pth) < length pth"
proof -
  assume a: "pth \<noteq> []" "length pth \<noteq> 1"
  then obtain s where s: "length pth = Suc (Suc s)" by (metis One_nat_def length_0_conv not0_implies_Suc)
  have "length (trunc_loop pth (Suc s)) < length pth"
  proof (cases "pth ! Suc s = CHR ''/''")
    case True
    then show ?thesis using s by (simp add: Let_def)
  next
    case False
    have "length (trunc_loop (take (Suc s) pth) s) \<le> Suc s"
      using length_trunc_loop[of "take (Suc s) pth" s] s by simp
    then show ?thesis using False s by (simp add: Let_def)
  qed
  then show ?thesis unfolding trunc_dirname_def s by (simp add: s Let_def)
qed

termination mkdir_collect
  by (relation "measure (\<lambda>(_, _, p, _). length p)") (auto intro!: length_trunc_dirname)

declare mkdir_collect.simps [simp del]

definition fileset_mkdir ::
  "'w fsplug_func \<Rightarrow> (nat \<Rightarrow> bool) \<Rightarrow> string \<Rightarrow> uint32 \<Rightarrow> 'w \<Rightarrow> int \<times> 'w" where
  "fileset_mkdir vec strdup path mode w =
     (if \<not> strdup 0 then (FILEBENCH_ERROR, w)
      else case mkdir_collect (\<lambda>p. fst (fsp_stat vec p w) = 0) strdup path [] of
        None \<Rightarrow> (FILEBENCH_ERROR, w)
      | Some dirs \<Rightarrow> (FILEBENCH_OK, fold (\<lambda>d w. snd (fsp_mkdir vec d mode w)) dirs w))"

text \<open>\<^verbatim>\<open>fileset_create_subdirs\<close>: one \<^verbatim>\<open>fileset_mkdir\<close> per directory of the list.\<close>

partial_function (option) create_subdirs_loop ::
  "'w fsplug_func \<Rightarrow> (nat \<Rightarrow> bool) \<Rightarrow> (ptr \<Rightarrow> filesetentry) \<Rightarrow> char_memory \<Rightarrow> string \<Rightarrow> ptr \<Rightarrow> 'w \<Rightarrow>
    (int \<times> 'w) option" where
  "create_subdirs_loop vec strdup ents paths filesetpath direntry w =
     (if direntry = NULL then Some (FILEBENCH_OK, w)
      else Option.bind (fileset_resolvepath ents paths direntry) (\<lambda>part_path.
        let full_path = strlcat_str (strlcpy_str filesetpath MAXPATHLEN) part_path MAXPATHLEN;
            (ret, w) = fileset_mkdir vec strdup full_path 0x1ED w
        in if ret = FILEBENCH_ERROR then Some (FILEBENCH_ERROR, w)
           else create_subdirs_loop vec strdup ents paths filesetpath
                  (fse_nextoftype (ents direntry)) w))"

definition fileset_create_subdirs ::
  "'w fsplug_func \<Rightarrow> (nat \<Rightarrow> bool) \<Rightarrow> char_memory \<Rightarrow> fileset \<Rightarrow> string \<Rightarrow> 'w \<Rightarrow> (int \<times> 'w) option" where
  "fileset_create_subdirs vec strdup paths fs filesetpath w =
     create_subdirs_loop vec strdup (fs_ents fs) paths filesetpath (fs_dirlist fs) w"

end
