(* ===== verification/FB_Create.thy ===== *)
theory FB_Create
  imports FB_Path FB_Fileset_Ops
begin

text \<open>
  Pre-allocation and opening: \<^verbatim>\<open>fileset_alloc_leafdir\<close>, \<^verbatim>\<open>fileset_alloc_file\<close>, \<^verbatim>\<open>fileset_openfile\<close>,
  \<^verbatim>\<open>fileset_create\<close> and \<^verbatim>\<open>fileset_delete_storage\<close>. The values of the attributes are one record, what
  the C library and the random numbers answer another. The sequential creation is modelled here;
  the allocation threads of \<^verbatim>\<open>paralloc\<close> are in the theory of the parallel allocation.
\<close>

unbundle bit_operations_syntax

section \<open>Surroundings\<close>

definition O_RDONLY :: uint32 where "O_RDONLY = 0"
definition O_RDWR :: uint32 where "O_RDWR = 2"
definition O_CREAT :: uint32 where "O_CREAT = 0x40"
definition O_DIRECT :: uint32 where "O_DIRECT = 0x4000"
definition O_SYNC :: uint32 where "O_SYNC = 0x101000"
definition RAND_MAX :: int where "RAND_MAX = 2147483647"

definition FLOW_ATTR_DSYNC :: uint32 where "FLOW_ATTR_DSYNC = 0x10"
definition FLOW_ATTR_DIRECTIO :: uint32 where "FLOW_ATTR_DIRECTIO = 0x40"
definition FLOW_ATTR_FADV_RANDOM :: uint32 where "FLOW_ATTR_FADV_RANDOM = 0x200"

definition FILE_ALLOC_BLOCK :: int where "FILE_ALLOC_BLOCK = 1024 * 1024"
definition FILESET_IS_RAW_DEV :: uint32 where "FILESET_IS_RAW_DEV = 0x01"
definition FILESET_IS_FILE :: uint32 where "FILESET_IS_FILE = 0x02"

text \<open>The attributes of a fileset as the descriptors evaluate; \<open>None\<close> is a NULL string.\<close>

record fileset_attr =
  at_path :: "string option"
  at_name :: "string option"
  at_attrs :: uint32
  at_trust_tree :: bool
  at_reuse :: bool
  at_readonly :: bool
  at_preallocpercent :: fbint

text \<open>What the surroundings answer: the address of the temporary node of \<^verbatim>\<open>avl_remove\<close>, the plug-in,
  the path memory, whether the \<open>i\<close>-th \<^verbatim>\<open>strdup\<close> of a call and the buffer \<^verbatim>\<open>malloc\<close> find memory, the
  random numbers of the \<open>n\<close>-th round, and whether \<^verbatim>\<open>posix_fadvise\<close> fails.\<close>

record 'w surroundings =
  sr_tmp :: ptr
  sr_vec :: "'w fsplug_func"
  sr_paths :: char_memory
  sr_strdup :: "nat \<Rightarrow> bool"
  sr_malloc :: "'w \<Rightarrow> bool"
  sr_random64 :: "nat \<Rightarrow> fbint \<Rightarrow> fbint"
  sr_rand :: "nat \<Rightarrow> int"
  sr_fadvise :: "int \<Rightarrow> 'w \<Rightarrow> int"

section \<open>Allocating one entry\<close>

definition entry_path :: "char_memory \<Rightarrow> fileset_attr \<Rightarrow> fileset \<Rightarrow> ptr \<Rightarrow> string option" where
  "entry_path paths at fs entry =
     Option.bind (at_path at) (\<lambda>fs_path. Option.bind (at_name at) (\<lambda>fs_name.
       let path = strlcpy_str fs_path MAXPATHLEN;
           path = strlcat_str path ''/'' MAXPATHLEN;
           path = strlcat_str path fs_name MAXPATHLEN
       in map_option (\<lambda>pathtmp. strlcat_str path pathtmp MAXPATHLEN)
            (fileset_resolvepath (fs_ents fs) paths entry)))"

text \<open>Giving the entry back as existing or not and returning a status.\<close>

definition give_back ::
  "ptr \<Rightarrow> ptr \<Rightarrow> bool \<Rightarrow> int \<Rightarrow> fileset \<Rightarrow> 'w \<Rightarrow> (int \<times> fileset \<times> 'w) option" where
  "give_back tmp entry exist ret fs w =
     map_option (\<lambda>(fs, _). (ret, fs, w)) (fileset_unbusy tmp entry True exist 0 fs)"

definition fileset_alloc_leafdir ::
  "'w surroundings \<Rightarrow> fileset_attr \<Rightarrow> ptr \<Rightarrow> fileset \<Rightarrow> 'w \<Rightarrow> (int \<times> fileset \<times> 'w) option" where
  "fileset_alloc_leafdir sr at entry fs w =
     Option.bind (entry_path (sr_paths sr) at fs entry) (\<lambda>path.
       if \<not> (fse_flags (fs_ents fs entry) AND FSE_REUSING \<noteq> 0 \<and> fst (fsp_stat (sr_vec sr) path w) = 0) then
         let (r, w) = fsp_mkdir (sr_vec sr) path 0x1ED w in
         if r < 0 then give_back (sr_tmp sr) entry False FILEBENCH_ERROR fs w
         else give_back (sr_tmp sr) entry True FILEBENCH_OK fs w
       else give_back (sr_tmp sr) entry True FILEBENCH_OK fs w)"

text \<open>The writing loop of \<^verbatim>\<open>fileset_alloc_file\<close>: whether every write was complete.\<close>

function alloc_write_loop :: "'w fsplug_func \<Rightarrow> int \<Rightarrow> int \<Rightarrow> int \<Rightarrow> 'w \<Rightarrow> bool \<times> 'w" where
  "alloc_write_loop vec fd fsize seek w =
     (if seek < fsize then
        let wsize = min (fsize - seek) FILE_ALLOC_BLOCK;
            (ret, w) = fsp_write vec fd wsize w
        in if ret \<noteq> wsize then (False, w)
           else alloc_write_loop vec fd fsize (seek + wsize) w
      else (True, w))"
  by pat_completeness auto

termination alloc_write_loop
  by (relation "measure (\<lambda>(_, _, n, s, _). nat (n - s))") (auto simp: FILE_ALLOC_BLOCK_def)

declare alloc_write_loop.simps [simp del]

text \<open>The second part of \<^verbatim>\<open>fileset_alloc_file\<close>, with the file open.\<close>

definition alloc_file_fill ::
  "'w surroundings \<Rightarrow> int \<Rightarrow> ptr \<Rightarrow> fileset \<Rightarrow> 'w \<Rightarrow> (int \<times> fileset \<times> 'w) option" where
  "alloc_file_fill sr fd entry fs w =
     (if \<not> sr_malloc sr w then give_back (sr_tmp sr) entry False FILEBENCH_ERROR fs w
      else
        let (complete, w) = alloc_write_loop (sr_vec sr) fd (fse_size (fs_ents fs entry)) 0 w;
            w = snd (fsp_close (sr_vec sr) fd w)
        in if complete then give_back (sr_tmp sr) entry True FILEBENCH_OK fs w
           else give_back (sr_tmp sr) entry False FILEBENCH_ERROR fs w)"

definition fileset_alloc_file ::
  "'w surroundings \<Rightarrow> fileset_attr \<Rightarrow> ptr \<Rightarrow> fileset \<Rightarrow> 'w \<Rightarrow> (int \<times> fileset \<times> 'w) option" where
  "fileset_alloc_file sr at entry fs w =
     Option.bind (entry_path (sr_paths sr) at fs entry) (\<lambda>path.
       let vec = sr_vec sr; x = fs_ents fs entry; (stat_ret, sb) = fsp_stat vec path w in
       if fse_flags x AND FSE_REUSING \<noteq> 0 \<and> (at_trust_tree at \<or> stat_ret = 0) then
         let ((r, fd), w) = fsp_open vec path (if at_readonly at then O_RDONLY else O_RDWR) 0 w in
         if r = FILEBENCH_ERROR then give_back (sr_tmp sr) entry False FILEBENCH_ERROR fs w
         else if at_trust_tree at \<or> st_size sb = fse_size x then
           give_back (sr_tmp sr) entry True FILEBENCH_OK fs (snd (fsp_close vec fd w))
         else if st_size sb > fse_size x then
           let w = snd (fsp_ftrunc vec fd (fse_size x) w) in
           give_back (sr_tmp sr) entry True FILEBENCH_OK fs (snd (fsp_close vec fd w))
         else alloc_file_fill sr fd entry fs w
       else
         let ((r, fd), w) = fsp_open vec path (O_RDWR OR O_CREAT) 0x1A4 w in
         if r = FILEBENCH_ERROR then give_back (sr_tmp sr) entry False FILEBENCH_ERROR fs w
         else alloc_file_fill sr fd entry fs w)"

section \<open>Opening a file\<close>

text \<open>\<^verbatim>\<open>fileset_openfile\<close> on a platform with \<^verbatim>\<open>O_DIRECT\<close> and \<^verbatim>\<open>posix_fadvise\<close>; the result also has the
  descriptor.\<close>

definition fileset_openfile ::
  "'w surroundings \<Rightarrow> fileset_attr \<Rightarrow> ptr \<Rightarrow> uint32 \<Rightarrow> uint32 \<Rightarrow> uint32 \<Rightarrow> fileset \<Rightarrow> 'w \<Rightarrow>
    ((int \<times> int) \<times> fileset \<times> 'w) option" where
  "fileset_openfile sr at entry flag filemode attrs fs w =
     Option.bind (entry_path (sr_paths sr) at fs entry) (\<lambda>path.
       let vec = sr_vec sr;
           dname = trunc_dirname (strlcpy_str path MAXPATHLEN);
           (ret, w) = (if flag AND O_CREAT \<noteq> 0 \<and> fst (fsp_stat vec path w) \<noteq> 0
                       then fileset_mkdir vec (sr_strdup sr) dname 0x1ED w else (FILEBENCH_OK, w))
       in if ret = FILEBENCH_ERROR then Some ((FILEBENCH_ERROR, 0), fs, w)
          else
            let open_attrs = (if attrs AND FLOW_ATTR_DSYNC \<noteq> 0 then O_SYNC else 0) OR
                  (if attrs AND FLOW_ATTR_DIRECTIO \<noteq> 0 then O_DIRECT else 0);
                ((r, fd), w) = fsp_open vec path (flag OR open_attrs) filemode w;
                unbusy = (\<lambda>update ex incr ret. map_option (\<lambda>(fs, _). ((ret, fd), fs, w))
                            (fileset_unbusy (sr_tmp sr) entry update ex incr fs))
            in if r = FILEBENCH_ERROR then unbusy False False 0 FILEBENCH_ERROR
               else if attrs AND FLOW_ATTR_FADV_RANDOM \<noteq> 0 \<and> sr_fadvise sr fd w \<noteq> FILEBENCH_OK
               then unbusy False False 0 FILEBENCH_ERROR
               else if flag AND O_CREAT \<noteq> 0 then unbusy True True 1 FILEBENCH_OK
               else unbusy False False 1 FILEBENCH_OK)"

section \<open>Creating the fileset\<close>

text \<open>The value of \<^verbatim>\<open>randno\<close>: the product and the quotient are 64-bit unsigned, the result is stored
  in an \<^verbatim>\<open>int\<close>.\<close>

definition prealloc_randno :: "fbint \<Rightarrow> int" where
  "prealloc_randno preallocpercent =
     sint (ucast ((word_of_int RAND_MAX * (100 - preallocpercent)) div 100 :: fbint) :: uint32)"

fun picked :: "pick_result \<Rightarrow> ptr option" where
  "picked Blocked = None"
| "picked (Picked e) = Some e"

text \<open>
  The two allocation loops. Each round picks a free entry and draws a random number; \<open>skip\<close> is the
  condition on it under which the entry stays unallocated. The loops run in one thread, so a wait
  for an idle entry never ends (\<open>None\<close>). The result is the status, the number of entries
  pre-allocated, the rounds and the states.
\<close>

partial_function (option) create_loop ::
  "'w surroundings \<Rightarrow> uint32 \<Rightarrow> (int \<Rightarrow> bool) \<Rightarrow>
    (ptr \<Rightarrow> fileset \<Rightarrow> 'w \<Rightarrow> (int \<times> fileset \<times> 'w) option) \<Rightarrow> bool \<Rightarrow> nat \<Rightarrow> nat \<Rightarrow> fileset \<Rightarrow> 'w \<Rightarrow>
    (int \<times> nat \<times> nat \<times> fileset \<times> 'w) option" where
  "create_loop sr flags skip alloc reusing preallocated n fs w =
     Option.bind (fileset_pick (sr_random64 sr n) fs flags 0 0) (\<lambda>(r, fs).
     Option.bind (picked r) (\<lambda>entry.
       if entry = NULL then Some (FILEBENCH_OK, preallocated, n, fs, w)
       else if skip (sr_rand sr n) then
         Option.bind (fileset_unbusy (sr_tmp sr) entry True False 0 fs)
           (\<lambda>(fs, _). create_loop sr flags skip alloc reusing preallocated (n + 1) fs w)
       else
         let fs = set_flags (\<lambda>f. if reusing then f OR FSE_REUSING else f AND NOT FSE_REUSING) entry fs in
         Option.bind (alloc entry fs w) (\<lambda>(ret, fs, w).
           if ret = FILEBENCH_ERROR then Some (FILEBENCH_ERROR, preallocated + 1, n + 1, fs, w)
           else create_loop sr flags skip alloc reusing (preallocated + 1) (n + 1) fs w)))"

definition create_files_loop where
  "create_files_loop sr at reusing randno =
     create_loop sr (FILESET_PICKFREE OR FILESET_PICKFILE) (\<lambda>newrand. randno \<noteq> 0 \<and> newrand \<le> randno)
       (fileset_alloc_file sr at) reusing"

definition create_leafdirs_loop where
  "create_leafdirs_loop sr at reusing randno =
     create_loop sr (FILESET_PICKFREE OR FILESET_PICKLEAFDIR) (\<lambda>newrand. newrand < randno)
       (fileset_alloc_leafdir sr at) reusing"

definition fileset_dir :: "string \<Rightarrow> string \<Rightarrow> string" where
  "fileset_dir fileset_path fileset_name =
     strlcat_str (strlcat_str (strlcpy_str fileset_path MAXPATHLEN) ''/'' MAXPATHLEN)
       fileset_name MAXPATHLEN"

text \<open>The second half of \<^verbatim>\<open>fileset_create\<close>: the files and the leaf directories.\<close>

definition create_entries ::
  "'w surroundings \<Rightarrow> fileset_attr \<Rightarrow> bool \<Rightarrow> fileset \<Rightarrow> 'w \<Rightarrow> (int \<times> nat \<times> fileset \<times> 'w) option" where
  "create_entries sr at reusing fs w =
     (let randno = prealloc_randno (at_preallocpercent at) in
      Option.bind (fileset_pickreset (sr_tmp sr) fs FILESET_PICKFILE) (\<lambda>fs.
      Option.bind (create_files_loop sr at reusing randno 0 0 fs w) (\<lambda>(ret, preallocated, n, fs, w).
        if ret = FILEBENCH_ERROR then Some (FILEBENCH_ERROR, preallocated, fs, w)
        else
          Option.bind (fileset_pickreset (sr_tmp sr) fs FILESET_PICKLEAFDIR) (\<lambda>fs.
          map_option (\<lambda>(ret, preallocated, n, fs, w). (ret, preallocated, fs, w))
            (create_leafdirs_loop sr at reusing randno preallocated n fs w)))))"

text \<open>\<^verbatim>\<open>fileset_create\<close>; the result is the status, the number of pre-allocated entries and the states.\<close>

definition fileset_create ::
  "'w surroundings \<Rightarrow> fileset_attr \<Rightarrow> fileset \<Rightarrow> 'w \<Rightarrow> (int \<times> nat \<times> fileset \<times> 'w) option" where
  "fileset_create sr at fs w =
     (case (at_path at, at_name at) of
        (Some fileset_path, Some fileset_name) \<Rightarrow>
          if at_attrs at AND FILESET_IS_RAW_DEV \<noteq> 0 then Some (FILEBENCH_OK, 0, fs, w)
          else
            let vec = sr_vec sr;
                path = fileset_dir fileset_path fileset_name;
                reusing = (at_trust_tree at \<or>
                  (fst (fsp_stat vec path w) = 0 \<and> length path > 3 \<and> length fileset_path > 2 \<and> at_reuse at))
            in Option.bind
                 (if reusing then Some (FILEBENCH_OK, w)
                  else
                    let w = fsp_recur_rm vec path w;
                        w = snd (fileset_mkdir vec (sr_strdup sr) path 0x1ED w)
                    in fileset_create_subdirs vec (sr_strdup sr) (sr_paths sr) fs path w)
                 (\<lambda>(ret, w).
                    if ret = FILEBENCH_ERROR then Some (FILEBENCH_ERROR, 0, fs, w)
                    else create_entries sr at reusing fs w)
      | _ \<Rightarrow> Some (FILEBENCH_ERROR, 0, fs, w))"

definition fileset_delete_storage :: "'w fsplug_func \<Rightarrow> fileset_attr \<Rightarrow> 'w \<Rightarrow> 'w" where
  "fileset_delete_storage vec at w =
     (case (at_path at, at_name at) of
        (Some fileset_path, Some fileset_name) \<Rightarrow>
          if at_attrs at AND FILESET_IS_RAW_DEV \<noteq> 0 then w
          else fsp_recur_rm vec (fileset_dir fileset_path fileset_name) w
      | _ \<Rightarrow> w)"

text \<open>\<^verbatim>\<open>fileset_checkraw\<close>: the new attributes and the result; \<open>None\<close> when the process is shut down.\<close>

definition S_IFMT :: nat where "S_IFMT = 0xF000"
definition S_IFBLK :: nat where "S_IFBLK = 0x6000"

definition fileset_checkraw :: "'w fsplug_func \<Rightarrow> fileset_attr \<Rightarrow> 'w \<Rightarrow> (fileset_attr \<times> int) option" where
  "fileset_checkraw vec at w =
     (let at = at\<lparr>at_attrs := at_attrs at AND NOT FILESET_IS_RAW_DEV\<rparr> in
      case (at_path at, at_name at) of
        (Some pathname, Some setname) \<Rightarrow>
          let (r, sb) = fsp_stat vec (fileset_dir pathname setname) w in
          if r = 0 \<and> st_mode sb AND S_IFMT = S_IFBLK then
            let at = at\<lparr>at_attrs := at_attrs at OR FILESET_IS_RAW_DEV\<rparr> in
            if at_attrs at AND FILESET_IS_FILE = 0 then None else Some (at, 1)
          else Some (at, 0)
      | _ \<Rightarrow> None)"

end
