(* ===== verification/FB_Path_Props.thy ===== *)
theory FB_Path_Props
  imports FB_Path "HOL-Library.Sublist"
begin

text \<open>
  Correctness of the path handling: the path of an entry is the concatenation of the names on the
  way from the root, and \<^verbatim>\<open>fileset_mkdir\<close> makes every missing directory of a path.
\<close>

section \<open>The path of an entry\<close>

text \<open>The entries from an entry up to the root directory, which has no parent.\<close>

inductive parent_chain :: "(ptr \<Rightarrow> filesetentry) \<Rightarrow> ptr \<Rightarrow> ptr list \<Rightarrow> bool" for ents where
  root: "fse_parent (ents e) = NULL \<Longrightarrow> parent_chain ents e []"
| up: "fse_parent (ents e) = p \<Longrightarrow> p \<noteq> NULL \<Longrightarrow> parent_chain ents p es \<Longrightarrow> parent_chain ents e (e # es)"

inductive_simps parent_chain_simps:
  "parent_chain ents e []"
  "parent_chain ents e (d # es)"

definition entry_name :: "(ptr \<Rightarrow> filesetentry) \<Rightarrow> char_memory \<Rightarrow> ptr \<Rightarrow> string" where
  "entry_name ents paths e = path_string paths (the (fse_path (ents e)))"

definition full_path :: "(ptr \<Rightarrow> filesetentry) \<Rightarrow> char_memory \<Rightarrow> ptr list \<Rightarrow> string" where
  "full_path ents paths es = concat (map (\<lambda>e. CHR ''/'' # entry_name ents paths e) (rev es))"

lemma take_append_take: "take n (xs @ take n ys) = take n (xs @ ys)"
  by (simp add: min_def)

lemma take_join: "take n (take n (x # take n xs) @ take n ys) = take n (x # xs @ ys)"
  by (simp add: min_def take_Cons' split: nat.splits)

lemma resolve_loop_spec:
  assumes "parent_chain ents e es" "\<forall>d\<in>set es. fse_path (ents d) \<noteq> None"
  shows "resolve_loop ents paths e (take (MAXPATHLEN - 1) s) =
    Some (take (MAXPATHLEN - 1) (full_path ents paths es @ s))"
  using assms
proof (induction arbitrary: s rule: parent_chain.induct)
  case (root e)
  then show ?case by (subst resolve_loop.simps) (simp add: full_path_def)
next
  case (up e p es)
  let ?N = "MAXPATHLEN - 1"
  obtain q where q: "fse_path (ents e) = Some q" using up.prems by auto
  have "strlcpy_str (strlcat_str (strlcat_str ''/'' (path_string paths q) MAXPATHLEN)
      (take ?N s) MAXPATHLEN) MAXPATHLEN = take ?N (CHR ''/'' # entry_name ents paths e @ s)"
    by (simp add: strlcpy_str_def strlcat_str_def entry_name_def q take_append_take)
      (simp add: min_def take_Cons')
  then show ?case
    using up q by (subst resolve_loop.simps) (simp add: Let_def full_path_def)
qed

section \<open>Directories\<close>

definition slash_path :: "string list \<Rightarrow> string" where
  "slash_path ns = concat (map ((#) CHR ''/'') ns)"

definition component :: "string \<Rightarrow> bool" where
  "component n \<longleftrightarrow> n \<noteq> [] \<and> CHR ''/'' \<notin> set n"

lemma slash_path_simps [simp]: "slash_path [] = []" "slash_path (n # ns) = CHR ''/'' # n @ slash_path ns"
  "slash_path (ns @ ms) = slash_path ns @ slash_path ms"
  by (simp_all add: slash_path_def)

lemma slash_path_length: "\<forall>n\<in>set ns. component n \<Longrightarrow> 2 * length ns \<le> length (slash_path ns)"
proof (induction ns)
  case (Cons n ns)
  then have "1 \<le> length n" by (cases n) (auto simp: component_def)
  with Cons show ?case by simp
qed simp

lemma trunc_loop_slash:
  assumes "p \<noteq> []" "CHR ''/'' \<notin> set n"
  shows "trunc_loop (p @ CHR ''/'' # n) (length p + length n) = p"
  using assms(2)
proof (induction n rule: rev_induct)
  case Nil
  obtain k where k: "length p = Suc k" using assms(1) by (cases p) auto
  then show ?case by (simp add: Let_def nth_append)
next
  case (snoc x n)
  then have "x \<noteq> CHR ''/''" by auto
  with snoc show ?case by (simp add: Let_def nth_append)
qed

lemma trunc_dirname_slash:
  assumes "p \<noteq> []" "CHR ''/'' \<notin> set n"
  shows "trunc_dirname (p @ CHR ''/'' # n) = p"
  using trunc_loop_slash[OF assms] by (simp add: trunc_dirname_def Let_def)

lemma trunc_dirname_top: "CHR ''/'' \<notin> set n \<Longrightarrow> trunc_dirname (c # n) = [c]"
proof -
  assume "CHR ''/'' \<notin> set n"
  then have "trunc_loop (c # n) (length n) = [c]"
    by (induction n rule: rev_induct) (auto simp: Let_def nth_append)
  then show ?thesis by (simp add: trunc_dirname_def Let_def)
qed

lemma mkdir_collect_bound:
  "mkdir_collect ex sd p ds = Some r \<Longrightarrow> length r + 2 \<le> length ds + max 2 (length p)"
proof (induction ex sd p ds rule: mkdir_collect.induct)
  case (1 ex sd p ds)
  show ?case
  proof (cases "ex p \<or> length p < 3")
    case True
    then show ?thesis using "1.prems" by (subst (asm) mkdir_collect.simps) (auto split: if_splits)
  next
    case False
    then have "mkdir_collect ex sd (trunc_dirname p) (p # ds) = Some r" "sd (Suc (length ds))"
      using "1.prems" by (subst (asm) mkdir_collect.simps; simp split: if_splits)+
    moreover have "length (trunc_dirname p) < length p"
      using False by (intro length_trunc_dirname) auto
    ultimately show ?thesis using "1.IH" False by fastforce
  qed
qed

text \<open>The prefixes of a path that are collected: those below the closest directory that exists.\<close>

definition prefixes_from :: "nat \<Rightarrow> string list \<Rightarrow> string list" where
  "prefixes_from k ns = map (\<lambda>j. slash_path (take (Suc j) ns)) [k..<length ns]"

lemma prefixes_from_Suc:
  "k < length ns \<Longrightarrow> prefixes_from k ns = slash_path (take (Suc k) ns) # prefixes_from (Suc k) ns"
  by (simp add: prefixes_from_def upt_conv_Cons)

lemma mkdir_collect_spec:
  assumes "\<forall>n\<in>set ns. component n" "k \<le> length ns" "\<And>i. sd i"
    "ex (slash_path [hd ns]) \<or> 3 \<le> length (slash_path [hd ns])"
  obtains j where "mkdir_collect ex sd (slash_path (take k ns)) (prefixes_from k ns) =
      Some (prefixes_from j ns)"
    "j \<le> k" "j = 0 \<or> ex (slash_path (take j ns))"
  using assms(2)
proof (induction k arbitrary: thesis)
  case 0
  show ?case by (rule "0.prems"(1)[of 0]) (subst mkdir_collect.simps, simp, simp, simp)
next
  case (Suc k)
  let ?p = "slash_path (take (Suc k) ns)"
  show ?case
  proof (cases "ex ?p")
    case True
    then show ?thesis by (intro Suc.prems(1)[of "Suc k"]) (subst mkdir_collect.simps, simp, simp, simp)
  next
    case False
    have c: "\<forall>n\<in>set (take (Suc k) ns). component n" using assms(1) by (auto dest: in_set_takeD)
    have ns: "ns \<noteq> []" "k < length ns" using Suc.prems(2) by auto
    have t: "take (Suc k) ns = take k ns @ [ns ! k]" using ns(2) by (rule take_Suc_conv_app_nth)
    have l: "3 \<le> length ?p"
    proof (cases k)
      case 0
      then show ?thesis using assms(4) False ns by (cases ns) auto
    next
      case (Suc m)
      then show ?thesis using slash_path_length[OF c] ns(2) by simp
    qed
    have cn: "component (ns ! k)" using assms(1) ns(2) by simp
    show ?thesis
    proof (cases k)
      case 0
      have tp: "trunc_dirname ?p = ''/''" using cn t 0 by (simp add: trunc_dirname_top component_def)
      have "mkdir_collect ex sd ''/'' (prefixes_from 0 ns) = Some (prefixes_from 0 ns)"
        by (subst mkdir_collect.simps) simp
      moreover have "mkdir_collect ex sd ?p (prefixes_from (Suc k) ns) =
          mkdir_collect ex sd ''/'' (prefixes_from 0 ns)"
        using False l tp ns(2) assms(3) 0 by (subst mkdir_collect.simps) (simp add: prefixes_from_Suc)
      ultimately show ?thesis by (intro Suc.prems(1)[of 0]) simp_all
    next
      case (Suc m)
      have ne: "slash_path (take k ns) \<noteq> []" using ns Suc by (cases ns) auto
      have tp: "trunc_dirname ?p = slash_path (take k ns)"
        using trunc_dirname_slash[OF ne, of "ns ! k"] cn by (simp add: t component_def)
      obtain j where j: "mkdir_collect ex sd (slash_path (take k ns)) (prefixes_from k ns) =
          Some (prefixes_from j ns)" "j \<le> k" "j = 0 \<or> ex (slash_path (take j ns))"
        using Suc.IH ns(2) by (metis less_imp_le)
      have "mkdir_collect ex sd ?p (prefixes_from (Suc k) ns) =
          mkdir_collect ex sd (slash_path (take k ns)) (prefixes_from k ns)"
        using False l tp ns(2) assms(3) by (subst mkdir_collect.simps) (simp add: prefixes_from_Suc)
      with j show ?thesis by (intro Suc.prems(1)[of j]) simp_all
    qed
  qed
qed

text \<open>
  What the plug-in promises: the parent of a path that exists exists, making a directory keeps every
  path that exists, and succeeds for a name in the root or in a directory that exists.
\<close>

definition mkdir_law :: "'w fsplug_func \<Rightarrow> bool" where
  "mkdir_law vec \<longleftrightarrow>
     (\<forall>p n w. component n \<longrightarrow> p \<noteq> [] \<longrightarrow> fst (fsp_stat vec (p @ CHR ''/'' # n) w) = 0 \<longrightarrow>
        fst (fsp_stat vec p w) = 0) \<and>
     (\<forall>p q m w. fst (fsp_stat vec p w) = 0 \<longrightarrow> fst (fsp_stat vec p (snd (fsp_mkdir vec q m w))) = 0) \<and>
     (\<forall>p n m w. component n \<longrightarrow> p = [] \<or> fst (fsp_stat vec p w) = 0 \<longrightarrow>
        fst (fsp_stat vec (p @ CHR ''/'' # n) (snd (fsp_mkdir vec (p @ CHR ''/'' # n) m w))) = 0)"

lemma stat_parent:
  "mkdir_law vec \<Longrightarrow> component n \<Longrightarrow> p \<noteq> [] \<Longrightarrow> fst (fsp_stat vec (p @ CHR ''/'' # n) w) = 0 \<Longrightarrow>
     fst (fsp_stat vec p w) = 0"
  unfolding mkdir_law_def by blast

lemma mkdir_makes:
  "mkdir_law vec \<Longrightarrow> component n \<Longrightarrow> p = [] \<or> fst (fsp_stat vec p w) = 0 \<Longrightarrow>
     fst (fsp_stat vec (p @ CHR ''/'' # n) (snd (fsp_mkdir vec (p @ CHR ''/'' # n) m w))) = 0"
  unfolding mkdir_law_def by blast

lemma mkdir_keeps:
  "mkdir_law vec \<Longrightarrow> fst (fsp_stat vec p w) = 0 \<Longrightarrow>
     fst (fsp_stat vec p (fold (\<lambda>d w. snd (fsp_mkdir vec d m w)) ds w)) = 0"
  by (induction ds arbitrary: w) (auto simp: mkdir_law_def)

lemma stat_prefix:
  assumes law: "mkdir_law vec" and c: "\<forall>n\<in>set ns. component n" and k: "k \<le> length ns" "j < k"
    and s: "fst (fsp_stat vec (slash_path (take k ns)) w) = 0"
  shows "fst (fsp_stat vec (slash_path (take (Suc j) ns)) w) = 0"
  using k s
proof (induction k)
  case (Suc k)
  show ?case
  proof (cases "j = k")
    case False
    have t: "slash_path (take (Suc k) ns) = slash_path (take k ns) @ CHR ''/'' # ns ! k"
      using Suc.prems(1) by (simp add: take_Suc_conv_app_nth)
    have ne: "slash_path (take k ns) \<noteq> []" using Suc.prems False by (cases ns) (auto simp: take_Cons')
    have "fst (fsp_stat vec (slash_path (take k ns)) w) = 0"
      by (rule stat_parent[OF law, of "ns ! k"]) (use ne Suc.prems(1,3) c t in auto)
    then show ?thesis using Suc False by simp
  qed (use Suc in simp)
qed simp

lemma mkdir_fold:
  assumes law: "mkdir_law vec" and c: "\<forall>n\<in>set ns. component n"
    and k: "k \<le> length ns" "k = 0 \<or> fst (fsp_stat vec (slash_path (take k ns)) w) = 0"
    and j: "k \<le> j" "j < length ns"
  shows "fst (fsp_stat vec (slash_path (take (Suc j) ns))
    (fold (\<lambda>d w. snd (fsp_mkdir vec d m w)) (prefixes_from k ns) w)) = 0"
  using k j
proof (induction "length ns - k" arbitrary: k w)
  case (Suc x)
  let ?w = "snd (fsp_mkdir vec (slash_path (take (Suc k) ns)) m w)"
  have kl: "k < length ns" using Suc.hyps(2) by simp
  have t: "slash_path (take (Suc k) ns) = slash_path (take k ns) @ CHR ''/'' # ns ! k"
    by (simp add: take_Suc_conv_app_nth[OF kl])
  have made: "fst (fsp_stat vec (slash_path (take (Suc k) ns)) ?w) = 0"
    unfolding t by (rule mkdir_makes[OF law]) (use c kl Suc.prems(2) in auto)
  have p: "fold (\<lambda>d w. snd (fsp_mkdir vec d m w)) (prefixes_from k ns) w =
      fold (\<lambda>d w. snd (fsp_mkdir vec d m w)) (prefixes_from (Suc k) ns) ?w"
    by (simp only: prefixes_from_Suc[OF kl] fold_Cons o_apply)
  show ?case
  proof (cases "j = k")
    case True
    then show ?thesis unfolding p using mkdir_keeps[OF law made] by simp
  next
    case False
    then show ?thesis unfolding p using Suc made kl by (intro Suc.hyps(1)) auto
  qed
qed simp

section \<open>Properties\<close>

text \<open>C25: the path of an entry. When the parents of an entry lead up to the root directory,
  \<^verbatim>\<open>fileset_resolvepath\<close> returns, and its result is the names from the root down to the entry, each
  after a slash, cut off at \<^verbatim>\<open>MAXPATHLEN\<close> - 1 characters.\<close>

theorem fileset_resolvepath_correct:
  assumes "parent_chain ents e es" "\<forall>d\<in>set es. fse_path (ents d) \<noteq> None"
  shows "fileset_resolvepath ents paths e = Some (take (MAXPATHLEN - 1) (full_path ents paths es))"
  using resolve_loop_spec[OF assms, of paths "[]"]
  by (simp add: fileset_resolvepath_def strlcpy_str_def)

definition demo_paths :: char_memory where
  "demo_paths = \<lparr>cm_mem = (\<lambda>i. if i = 0 then CHR ''a'' else if i = 2 then CHR ''b'' else CHR 0x00), cm_ptr = 4\<rparr>"

definition demo_tree_ents :: "ptr \<Rightarrow> filesetentry" where
  "demo_tree_ents = (\<lambda>_. fse_zero)(8 := fse_zero\<lparr>fse_parent := 16, fse_path := Some 2\<rparr>,
     16 := fse_zero\<lparr>fse_parent := 24, fse_path := Some 0\<rparr>)"

theorem fileset_resolvepath_correct_witness:
  "fileset_resolvepath demo_tree_ents demo_paths 8 = Some ''/a/b''"
proof -
  have l: "p < p + MAXPATHLEN" "Suc p < p + MAXPATHLEN" for p by (simp_all add: MAXPATHLEN_def)
  have "[p..<p + MAXPATHLEN] = p # Suc p # [Suc (Suc p)..<p + MAXPATHLEN]" for p
    using upt_conv_Cons[OF l(1)[of p]] upt_conv_Cons[OF l(2)[of p]] by simp
  then have n: "path_string demo_paths p = [cm_mem demo_paths p]" if "p \<in> {0, 2}" for p
    using that by (auto simp: path_string_def demo_paths_def)
  have "parent_chain demo_tree_ents 8 [8, 16]"
    by (auto simp: parent_chain_simps demo_tree_ents_def fse_zero_def)
  then have "fileset_resolvepath demo_tree_ents demo_paths 8 =
      Some (take (MAXPATHLEN - 1) (full_path demo_tree_ents demo_paths [8, 16]))"
    by (rule fileset_resolvepath_correct) (simp add: demo_tree_ents_def fse_zero_def)
  then show ?thesis
    by (simp add: full_path_def entry_name_def demo_tree_ents_def fse_zero_def n)
      (simp add: demo_paths_def MAXPATHLEN_def)
qed


definition demo_vec :: "string list fsplug_func" where
  "demo_vec = \<lparr>fsp_open = (\<lambda>p _ _ w. ((0, 3), p # w)), fsp_write = (\<lambda>_ n w. (n, w)), fsp_ftrunc = (\<lambda>_ _ w. (0, w)),
     fsp_close = (\<lambda>_ w. (0, w)), fsp_mkdir = (\<lambda>p _ w. (0, p # w)),
     fsp_stat = (\<lambda>p w. (if \<exists>d\<in>set w. prefix p d then 0 else - 1, \<lparr>st_mode = 0, st_size = 0\<rparr>)),
     fsp_recur_rm = (\<lambda>p w. filter (\<lambda>d. \<not> prefix p d) w)\<rparr>"

lemma demo_vec_law: "mkdir_law demo_vec"
  by (auto simp: mkdir_law_def demo_vec_def dest: append_prefixD)


end
