(* ===== verification/FB_Workers.thy ===== *)
theory FB_Workers
  imports FB_Fileset_Props
begin

text \<open>
  The worker threads of a run: each thread picks entries and gives back the ones it holds, in any
  interleaving. The pool of entries is an interface with its laws; mutual exclusion is proved from
  the laws and holds for the filesets by interpretation.
\<close>

unbundle bit_operations_syntax

section \<open>Threads over a pool of entries\<close>

text \<open>One step of some thread: a pick that finds an entry, a pick that finds none, or giving back an
  entry the thread holds. A blocked pick changes nothing and is no step.\<close>

inductive worker_step ::
  "('r \<Rightarrow> bool) \<Rightarrow> ('r \<Rightarrow> 's \<Rightarrow> (pick_result \<times> 's) option) \<Rightarrow> ('g \<Rightarrow> ptr \<Rightarrow> 's \<Rightarrow> 's option) \<Rightarrow>
    's \<times> (nat \<Rightarrow> ptr set) \<Rightarrow> 's \<times> (nat \<Rightarrow> ptr set) \<Rightarrow> bool" for valid pick give where
  picked: "valid r \<Longrightarrow> pick r s = Some (Picked e, s') \<Longrightarrow> e \<noteq> NULL \<Longrightarrow>
    worker_step valid pick give (s, H) (s', H(i := insert e (H i)))"
| none: "valid r \<Longrightarrow> pick r s = Some (Picked NULL, s') \<Longrightarrow> worker_step valid pick give (s, H) (s', H)"
| given: "e \<in> H i \<Longrightarrow> give g e s = Some s' \<Longrightarrow> worker_step valid pick give (s, H) (s', H(i := H i - {e}))"

inductive_cases worker_stepE: "worker_step valid pick give x y"

locale entry_pool =
  fixes ok :: "'s \<Rightarrow> bool" and members :: "ptr set" and busy :: "'s \<Rightarrow> ptr \<Rightarrow> bool"
    and valid :: "'r \<Rightarrow> bool" and pick :: "'r \<Rightarrow> 's \<Rightarrow> (pick_result \<times> 's) option"
    and give :: "'g \<Rightarrow> ptr \<Rightarrow> 's \<Rightarrow> 's option"
  assumes pick_law: "ok s \<Longrightarrow> valid r \<Longrightarrow> \<exists>res s'. pick r s = Some (res, s') \<and> ok s' \<and>
      (case res of
         Blocked \<Rightarrow> s' = s \<and> (\<exists>d\<in>members. busy s d)
       | Picked e \<Rightarrow> if e = NULL then busy s' = busy s
           else e \<in> members \<and> \<not> busy s e \<and> busy s' = (busy s)(e := True))"
    and give_law: "ok s \<Longrightarrow> e \<in> members \<Longrightarrow>
      \<exists>s'. give g e s = Some s' \<and> ok s' \<and> busy s' = (busy s)(e := False)"
begin

definition exclusive :: "'s \<times> (nat \<Rightarrow> ptr set) \<Rightarrow> bool" where
  "exclusive x \<longleftrightarrow> ok (fst x) \<and> (\<Union>i. snd x i) = {d \<in> members. busy (fst x) d} \<and>
     (\<forall>i j. i \<noteq> j \<longrightarrow> snd x i \<inter> snd x j = {})"

lemma exclusive_pick:
  assumes "exclusive (s, H)" "valid r" "pick r s = Some (Picked e, s')" "e \<noteq> NULL"
  shows "exclusive (s', H(i := insert e (H i)))"
proof -
  have s: "ok s'" "e \<in> members" "\<not> busy s e" "busy s' = (busy s)(e := True)"
    using pick_law[of s r] assms by (auto simp: exclusive_def)
  have n: "e \<notin> H j" for j using assms(1) s(3) by (auto simp: exclusive_def)
  have U: "(\<Union>j. (H(i := insert e (H i))) j) = insert e (\<Union>j. H j)" by (auto split: if_splits)
  show ?thesis
    unfolding exclusive_def fst_conv snd_conv U using assms(1) s n by (auto simp: exclusive_def)
qed

lemma exclusive_give:
  assumes "exclusive (s, H)" "e \<in> H i" "give g e s = Some s'"
  shows "exclusive (s', H(i := H i - {e}))"
proof -
  have "e \<in> members" using assms(1,2) by (auto simp: exclusive_def)
  then have s: "ok s'" "busy s' = (busy s)(e := False)"
    using give_law[of s e g] assms by (auto simp: exclusive_def)
  have n: "e \<notin> H j" if "j \<noteq> i" for j using assms(1,2) that by (auto simp: exclusive_def)
  have U: "(\<Union>j. (H(i := H i - {e})) j) = (\<Union>j. H j) - {e}"
    using n by (auto split: if_splits) metis
  have dj: "(H(i := H i - {e})) j \<inter> (H(i := H i - {e})) k = {}" if "j \<noteq> k" for j k
    using assms(1) that unfolding exclusive_def by (fastforce split: if_splits)
  show ?thesis
    unfolding exclusive_def fst_conv snd_conv U using assms(1) s dj by (auto simp: exclusive_def)
qed

lemma exclusive_step: "worker_step valid pick give x y \<Longrightarrow> exclusive x \<Longrightarrow> exclusive y"
proof (induction rule: worker_step.induct)
  case (picked r s e s' H i)
  then show ?case using exclusive_pick by blast
next
  case (none r s s' H)
  then show ?case using pick_law[of s r] by (auto simp: exclusive_def)
next
  case (given e H i g s s')
  then show ?case using exclusive_give by blast
qed

lemma exclusive_run: "(worker_step valid pick give)\<^sup>*\<^sup>* x y \<Longrightarrow> exclusive x \<Longrightarrow> exclusive y"
  by (induction rule: rtranclp_induct) (auto intro: exclusive_step)

lemma blocked_held:
  assumes "exclusive (s, H)" "valid r" "pick r s = Some (Blocked, s')"
  shows "\<exists>i. H i \<noteq> {}"
proof -
  obtain d where "d \<in> members" "busy s d" using pick_law[of s r] assms by (auto simp: exclusive_def)
  then have "d \<in> (\<Union>i. H i)" using assms(1) by (auto simp: exclusive_def)
  then show ?thesis by blast
qed

end

section \<open>Filesets as pools\<close>

text \<open>A pick is described by the random number for a bound, the flags, the thread and the index; a
  give-back by the arguments of \<^verbatim>\<open>fileset_unbusy\<close>.\<close>

type_synonym pick_args = "(fbint \<Rightarrow> fbint) \<times> uint32 \<times> nat \<times> uint32"
type_synonym unbusy_args = "bool \<times> bool \<times> int"

definition all_entries :: "contents \<Rightarrow> ptr set" where
  "all_entries L = (\<Union>t. set (L t))"

definition fs_ok :: "ptr \<Rightarrow> ptr set \<Rightarrow> fileset \<Rightarrow> bool" where
  "fs_ok tmp M fs \<longleftrightarrow> (\<exists>L. fileset_inv tmp fs L \<and> all_entries L = M)"

definition pick_valid :: "pick_args \<Rightarrow> bool" where
  "pick_valid r = (case r of (_, flags, _, _) \<Rightarrow> flags AND FILESET_PICKMASK \<noteq> 3)"

definition pick_call :: "pick_args \<Rightarrow> fileset \<Rightarrow> (pick_result \<times> fileset) option" where
  "pick_call r fs = (case r of (random64, flags, tid, index) \<Rightarrow> fileset_pick random64 fs flags tid index)"

definition unbusy_call :: "ptr \<Rightarrow> unbusy_args \<Rightarrow> ptr \<Rightarrow> fileset \<Rightarrow> fileset option" where
  "unbusy_call tmp g e fs =
     (case g of (update_exist, new_exist_val, incr) \<Rightarrow>
        map_option fst (fileset_unbusy tmp e update_exist new_exist_val incr fs))"

lemma entries_all: "entries L ty \<subseteq> all_entries L" "set (L t) \<subseteq> all_entries L"
  by (auto simp: entries_def all_entries_def)

lemma all_entries_move:
  assumes "distinct (L s)" "e \<in> set (L s)"
  shows "all_entries (move_contents key e s d L) = all_entries L"
proof -
  have "x \<in> all_entries (move_contents key e s d L) \<longleftrightarrow> x \<in> all_entries L" for x
    using assms(2) by (auto simp: all_entries_def set_move_contents[of L s, OF assms(1)] split: if_splits)
  then show ?thesis by blast
qed

interpretation fsp: entry_pool "fs_ok tmp M" M FB_Fileset_Inv.busy pick_valid pick_call "unbusy_call tmp"
  for tmp M
proof
  fix fs r
  assume "fs_ok tmp M fs" and v: "pick_valid r"
  then obtain L where I: "fileset_inv tmp fs L" and M: "all_entries L = M" by (auto simp: fs_ok_def)
  obtain rnd flags tid index where r: "r = (rnd, flags, tid, index)" by (metis prod_cases4)
  obtain res fs' where P: "fileset_pick rnd fs flags tid index = Some (res, fs')" "pick_post tmp L flags fs res fs'"
    using pick_ok[OF I, of flags rnd tid index] v by (auto simp: r pick_valid_def)
  have "fs_ok tmp M fs'" using P(2) M by (auto simp: fs_ok_def pick_post_def)
  moreover have "case res of Blocked \<Rightarrow> fs' = fs \<and> (\<exists>d\<in>M. FB_Fileset_Inv.busy fs d)
      | Picked e \<Rightarrow> if e = NULL then FB_Fileset_Inv.busy fs' = FB_Fileset_Inv.busy fs
          else e \<in> M \<and> \<not> FB_Fileset_Inv.busy fs e \<and>
            FB_Fileset_Inv.busy fs' = (FB_Fileset_Inv.busy fs)(e := True)"
  proof (cases res)
    case Blocked
    then show ?thesis using P(2) M entries_all(1)[of L "pick_type flags"] by (auto simp: pick_post_def)
  next
    case (Picked e)
    then show ?thesis using P(2) M entries_all(2)[of L "pick_tree flags"]
      by (auto simp: pick_post_def rotor_step_def busy_def fun_eq_iff)
  qed
  ultimately show "\<exists>res fs'. pick_call r fs = Some (res, fs') \<and> fs_ok tmp M fs' \<and>
      (case res of Blocked \<Rightarrow> fs' = fs \<and> (\<exists>d\<in>M. FB_Fileset_Inv.busy fs d)
       | Picked e \<Rightarrow> if e = NULL then FB_Fileset_Inv.busy fs' = FB_Fileset_Inv.busy fs
          else e \<in> M \<and> \<not> FB_Fileset_Inv.busy fs e \<and>
            FB_Fileset_Inv.busy fs' = (FB_Fileset_Inv.busy fs)(e := True))"
    using P(1) by (auto simp: pick_call_def r)
next
  fix fs :: fileset and e :: ptr and g :: unbusy_args
  assume "fs_ok tmp M fs" "e \<in> M"
  then obtain L t where I: "fileset_inv tmp fs L" and M: "all_entries L = M" and e: "e \<in> set (L t)"
    by (auto simp: fs_ok_def all_entries_def)
  obtain u x k where g: "g = (u, x, k)" by (metis prod_cases3)
  obtain fs' sigs where U: "fileset_unbusy tmp e u x k fs = Some (fs', sigs)"
    "unbusy_post tmp L e t k (if u then target_tree t x else t) fs fs' sigs"
    using unbusy_ok[OF I e] by blast
  have "fs_ok tmp M fs'"
    using U(2) M all_entries_move[of L t, OF contents_distinct[OF I] e] unfolding unbusy_post_def fs_ok_def by blast
  moreover have "FB_Fileset_Inv.busy fs' = (FB_Fileset_Inv.busy fs)(e := False)"
    using U(2) by (auto simp: unbusy_post_def busy_def fun_eq_iff)
  ultimately show "\<exists>fs'. unbusy_call tmp g e fs = Some fs' \<and> fs_ok tmp M fs' \<and>
      FB_Fileset_Inv.busy fs' = (FB_Fileset_Inv.busy fs)(e := False)"
    using U(1) by (simp add: unbusy_call_def g)
qed

section \<open>Property\<close>

text \<open>C13: mutual exclusion. Whatever the interleaving of picks and give-backs of any number of
  threads, from a fileset where no entry is busy: the fileset invariant holds in every state that
  is reached, with the same entries; no two threads hold the same entry; the busy entries are
  exactly the ones that are held; the next pick of any thread and the next give-back of any held
  entry return; and a pick blocks only while some thread holds an entry.\<close>

theorem fileset_workers_exclusive:
  assumes I: "fileset_inv tmp fs\<^sub>0 L\<^sub>0" and idle: "\<forall>d\<in>all_entries L\<^sub>0. \<not> busy fs\<^sub>0 d"
    and run: "(worker_step pick_valid pick_call (unbusy_call tmp))\<^sup>*\<^sup>* (fs\<^sub>0, \<lambda>_. {}) (fs, H)"
  shows "(\<exists>L. fileset_inv tmp fs L \<and> all_entries L = all_entries L\<^sub>0) \<and>
    (\<forall>i j. i \<noteq> j \<longrightarrow> H i \<inter> H j = {}) \<and>
    (\<Union>i. H i) = {d \<in> all_entries L\<^sub>0. busy fs d} \<and>
    (\<forall>random64 flags tid index. flags AND FILESET_PICKMASK \<noteq> 3 \<longrightarrow>
       (\<exists>r fs'. fileset_pick random64 fs flags tid index = Some (r, fs') \<and> (r = Blocked \<longrightarrow> (\<exists>i. H i \<noteq> {})))) \<and>
    (\<forall>i. \<forall>e\<in>H i. \<forall>u x incr. fileset_unbusy tmp e u x incr fs \<noteq> None)"
proof -
  have "fsp.exclusive tmp (all_entries L\<^sub>0) (fs\<^sub>0, \<lambda>_. {})"
    using I idle by (auto simp: fsp.exclusive_def fs_ok_def)
  then have X: "fsp.exclusive tmp (all_entries L\<^sub>0) (fs, H)" by (rule fsp.exclusive_run[OF run])
  then obtain L where L: "fileset_inv tmp fs L" "all_entries L = all_entries L\<^sub>0"
    by (auto simp: fsp.exclusive_def fs_ok_def)
  have "\<exists>r fs'. fileset_pick random64 fs flags tid index = Some (r, fs') \<and> (r = Blocked \<longrightarrow> (\<exists>i. H i \<noteq> {}))"
    if "flags AND FILESET_PICKMASK \<noteq> 3" for random64 flags tid index
    using pick_ok[OF L(1) that, of random64 tid index]
      fsp.blocked_held[OF X, of "(random64, flags, tid, index)"] that
    by (auto simp: pick_valid_def pick_call_def)
  moreover have "fileset_unbusy tmp e u x incr fs \<noteq> None" if "e \<in> H i" for i e u x incr
  proof -
    have "e \<in> all_entries L" using X that unfolding L(2) by (auto simp: fsp.exclusive_def)
    then obtain t where "e \<in> set (L t)" by (auto simp: all_entries_def)
    then show ?thesis using unbusy_ok[OF L(1), of e t u x incr] by auto
  qed
  ultimately show ?thesis using X L by (auto simp: fsp.exclusive_def)
qed

theorem fileset_workers_exclusive_witness:
  "\<exists>fs. (worker_step pick_valid pick_call (unbusy_call 8))\<^sup>*\<^sup>* (demo_fileset, \<lambda>_. {}) (fs, (\<lambda>_. {})(3 := {64})) \<and>
     busy fs 64 \<and> fileset_unbusy 8 64 True True 0 fs \<noteq> None"
proof -
  let ?r = "(\<lambda>m. 0, FILESET_PICKFILE OR FILESET_PICKFREE, 0, 0)" and ?H = "(\<lambda>_. {})(3 := {64})"
  have f: "(FILESET_PICKFILE OR FILESET_PICKFREE) AND FILESET_PICKMASK \<noteq> 3"
    "pick_tree (FILESET_PICKFILE OR FILESET_PICKFREE) = fs_free_files"
    "pick_type (FILESET_PICKFILE OR FILESET_PICKFREE) = File"
    by (simp_all add: pick_type_def pick_tree_def pick_flag_defs)
  have E: "all_entries demo_contents = {64}" "entries demo_contents File = {64}"
    "set (demo_contents fs_free_files) = {64}"
    by (auto simp: all_entries_def entries_def demo_contents_def split: if_splits intro: exI[of _ fs_free_files])
  have nb: "\<not> busy demo_fileset 64" by (simp add: busy_def demo_fileset_def FSE_BUSY_def)
  obtain r fs where P: "pick_call ?r demo_fileset = Some (r, fs)" and
    "pick_post 8 demo_contents (FILESET_PICKFILE OR FILESET_PICKFREE) demo_fileset r fs"
    using pick_ok[OF demo_fileset_inv f(1), of "\<lambda>m. 0" 0 0] by (auto simp: pick_call_def)
  then have "r = Picked 64"
    using nb by (cases r) (auto simp: pick_post_def f E split: if_splits)
  then have "worker_step pick_valid pick_call (unbusy_call 8) (demo_fileset, \<lambda>_. {})
      (fs, (\<lambda>_. {})(3 := insert 64 {}))"
    using P f(1) by (intro worker_step.picked[of _ ?r]) (simp_all add: pick_valid_def)
  then have run: "(worker_step pick_valid pick_call (unbusy_call 8))\<^sup>*\<^sup>* (demo_fileset, \<lambda>_. {}) (fs, ?H)"
    by (rule r_into_rtranclp)
  have "(\<Union>i. ?H i) = {d \<in> all_entries demo_contents. busy fs d} \<and>
      (\<forall>i. \<forall>e\<in>?H i. \<forall>u x incr. fileset_unbusy 8 e u x incr fs \<noteq> None)"
    using fileset_workers_exclusive[OF demo_fileset_inv _ run] nb E by simp
  moreover have "64 \<in> (\<Union>i. ?H i)" "64 \<in> ?H 3" by auto
  ultimately show ?thesis using run by blast
qed

end
