(* ===== verification/FB_Create_Props.thy ===== *)
theory FB_Create_Props
  imports FB_Create FB_Path_Props FB_Workers
begin

text \<open>
  Correctness of the pre-allocation: one entry, the two loops, the whole of \<^verbatim>\<open>fileset_create\<close>, and
  what \<^verbatim>\<open>fileset_pickreset\<close> and \<^verbatim>\<open>fileset_openfile\<close> leave behind.
\<close>

unbundle bit_operations_syntax

section \<open>Paths stay\<close>

definition same_static :: "fileset \<Rightarrow> fileset \<Rightarrow> bool" where
  "same_static fs fs' \<longleftrightarrow> (\<forall>d. entry_static (fs_ents fs' d) = entry_static (fs_ents fs d))"

lemma resolve_loop_cong:
  assumes "resolve_loop ents paths e p = Some r"
    and "\<forall>d. fse_parent (ents' d) = fse_parent (ents d)" "\<forall>d. fse_path (ents' d) = fse_path (ents d)"
  shows "resolve_loop ents' paths e p = Some r"
proof -
  let ?P = "\<lambda>ents paths e p r. (\<forall>d. fse_parent (ents' d) = fse_parent (ents d)) \<longrightarrow>
    (\<forall>d. fse_path (ents' d) = fse_path (ents d)) \<longrightarrow> resolve_loop ents' paths e p = Some r"
  have "?P ents paths e p r"
  proof (rule resolve_loop.raw_induct[where P = ?P, OF _ assms(1)], intro impI, goal_cases)
    case (1 f ents paths e p r)
    then show ?case
      by (subst resolve_loop.simps) (auto simp: Let_def bind_eq_Some_conv split: if_splits)
  qed
  then show ?thesis using assms by blast
qed

lemma entry_path_static:
  "same_static fs fs' \<Longrightarrow> entry_path paths at fs e \<noteq> None \<Longrightarrow> entry_path paths at fs' e \<noteq> None"
  unfolding entry_path_def fileset_resolvepath_def
  using resolve_loop_cong[of "fs_ents fs" paths e "[]" _ "fs_ents fs'"]
  by (auto simp: same_static_def entry_static_def Let_def bind_eq_None_conv)

section \<open>One round\<close>

text \<open>The state after an entry has been picked and given back.\<close>

definition settled :: "ptr \<Rightarrow> contents \<Rightarrow> fileset \<Rightarrow> contents \<Rightarrow> fileset \<Rightarrow> bool" where
  "settled tmp L fs L' fs' \<longleftrightarrow> fileset_inv tmp fs' L' \<and> (\<forall>ty. entries L' ty = entries L ty) \<and>
     same_static fs fs' \<and> busy fs' = busy fs"

lemma settled_refl: "fileset_inv tmp fs L \<Longrightarrow> settled tmp L fs L fs"
  by (simp add: settled_def same_static_def)

lemma settled_trans:
  "settled tmp L fs L' fs' \<Longrightarrow> settled tmp L' fs' L'' fs'' \<Longrightarrow> settled tmp L fs L'' fs''"
  by (simp add: settled_def same_static_def)

lemma round_settled:
  assumes I: "fileset_inv tmp fs L" "fileset_inv tmp fs1 L" and e: "e \<in> set (L t)" "\<not> busy fs e"
    and p: "same_static fs fs1" "busy fs1 = (busy fs)(e := True)"
    and U: "unbusy_post tmp L e t 0 (target_tree t x) fs1 fs2 sigs"
  shows "settled tmp L fs (move_contents (fse_key (fs_ents fs1)) e t (target_tree t x) L) fs2"
proof -
  have ty: "tree_type t = tree_type (target_tree t x)" by (cases t) auto
  have "busy fs2 d = busy fs d" for d
    using U p(2) e(2) by (cases "d = e") (auto simp: unbusy_post_def busy_def fun_eq_iff)
  then show ?thesis
    using U p(1) entries_move[of L t, OF contents_distinct[OF I(1)] e(1) ty]
    by (auto simp: settled_def same_static_def unbusy_post_def fun_eq_iff)
qed

text \<open>Allocating an entry ends by giving it back, as existing exactly when the status is good.\<close>

definition outcomes :: "ptr \<Rightarrow> ptr \<Rightarrow> fileset \<Rightarrow> (int \<times> fileset \<times> 'w) option set" where
  "outcomes tmp e fs = (\<Union>w. {give_back tmp e True FILEBENCH_OK fs w, give_back tmp e False FILEBENCH_ERROR fs w})"

lemma outcomes_give_back [simp]:
  "give_back tmp e True FILEBENCH_OK fs w \<in> outcomes tmp e fs"
  "give_back tmp e False FILEBENCH_ERROR fs w \<in> outcomes tmp e fs"
  by (auto simp: outcomes_def)

lemma alloc_file_fill_outcomes: "alloc_file_fill sr fd e fs w \<in> outcomes (sr_tmp sr) e fs"
  by (simp add: alloc_file_fill_def Let_def split: prod.split)

lemma alloc_file_outcomes:
  "entry_path (sr_paths sr) at fs e \<noteq> None \<Longrightarrow> fileset_alloc_file sr at e fs w \<in> outcomes (sr_tmp sr) e fs"
  by (auto simp: fileset_alloc_file_def Let_def alloc_file_fill_outcomes split: prod.split)

lemma alloc_leafdir_outcomes:
  "entry_path (sr_paths sr) at fs e \<noteq> None \<Longrightarrow> fileset_alloc_leafdir sr at e fs w \<in> outcomes (sr_tmp sr) e fs"
  by (auto simp: fileset_alloc_leafdir_def split: prod.split)

lemma outcomes_post:
  assumes "r \<in> outcomes tmp e fs" "fileset_inv tmp fs L" "e \<in> set (L t)"
  obtains ret fs' w sigs where "r = Some (ret, fs', w)" "ret \<in> {FILEBENCH_OK, FILEBENCH_ERROR}"
    "unbusy_post tmp L e t 0 (target_tree t (ret = FILEBENCH_OK)) fs fs' sigs"
proof -
  obtain x ret w where r: "r = give_back tmp e x ret fs w" "ret \<in> {FILEBENCH_OK, FILEBENCH_ERROR}"
    "x \<longleftrightarrow> ret = FILEBENCH_OK"
    using assms(1) that unfolding outcomes_def status_defs by fastforce
  obtain fs' sigs where "fileset_unbusy tmp e True x 0 fs = Some (fs', sigs)"
    "unbusy_post tmp L e t 0 (if True then target_tree t x else t) fs fs' sigs"
    using unbusy_ok[OF assms(2,3)] by blast
  then show thesis using r by (intro that[of ret fs' w sigs]) (auto simp: give_back_def)
qed

section \<open>The loops\<close>

text \<open>The result of an allocation loop that starts with \<open>pre\<close> pre-allocated entries in round \<open>n\<close>: the
  free tree is empty, unless an allocation failed; every entry that was free exists or not, and the
  existing ones are the ones that were counted.\<close>

definition loop_post ::
  "ptr \<Rightarrow> fs_tree \<Rightarrow> (nat \<Rightarrow> bool) \<Rightarrow> contents \<Rightarrow> fileset \<Rightarrow> nat \<Rightarrow> nat \<Rightarrow> int \<Rightarrow> nat \<Rightarrow> nat \<Rightarrow> fileset \<Rightarrow> bool" where
  "loop_post tmp t skips L fs pre n ret pre' n' fs' \<longleftrightarrow>
     (\<exists>L'. settled tmp L fs L' fs' \<and> ret \<in> {FILEBENCH_OK, FILEBENCH_ERROR} \<and> pre \<le> pre' \<and> n \<le> n' \<and>
        (\<forall>u. tree_type u \<noteq> tree_type t \<longrightarrow> L' u = L u) \<and>
        (ret = FILEBENCH_OK \<longrightarrow> L' t = [] \<and> n' = n + length (L t) \<and>
           length (L' (target_tree t True)) = length (L (target_tree t True)) + (pre' - pre) \<and>
           length (L' (target_tree t False)) + (pre' - pre) = length (L (target_tree t False)) + length (L t)) \<and>
        ((\<forall>i. \<not> skips i) \<longrightarrow> ret = FILEBENCH_OK \<longrightarrow> pre' = pre + length (L t)) \<and>
        ((\<forall>i. skips i) \<longrightarrow> ret = FILEBENCH_OK \<and> pre' = pre))"

lemma move_lengths:
  assumes "distinct (L s)" "e \<in> set (L s)" "s \<noteq> d"
  shows "length (move_contents k e s d L t) =
    (if t = s then length (L s) - 1 else if t = d then length (L d) + 1 else length (L t))"
  using assms by (simp add: move_contents_def length_remove1)

lemma tree_type_target: "tree_type (target_tree t x) = tree_type t"
  by (cases t) auto

lemma loop_post_step:
  assumes S: "settled tmp L fs (move_contents k e t (target_tree t x) L) fs1"
    and e: "distinct (L t)" "e \<in> set (L t)" and t: "t \<in> {fs_free_files, fs_free_leaf_dirs}"
    and P: "loop_post tmp t skips (move_contents k e t (target_tree t x) L) fs1
      (pre + of_bool x) (Suc n) ret pre' n' fs'"
    and x: "x \<longleftrightarrow> \<not> skips n"
  shows "loop_post tmp t skips L fs pre n ret pre' n' fs'"
proof -
  let ?L = "move_contents k e t (target_tree t x) L"
  have ne: "t \<noteq> target_tree t x" "t \<noteq> target_tree t True" "t \<noteq> target_tree t False"
    "target_tree t True \<noteq> target_tree t False" using t by auto
  have len: "length (L t) > 0" using e(2) by (cases "L t") auto
  note m = move_lengths[of L t e "target_tree t x" k, OF e ne(1)]
  have l: "length (?L t) = length (L t) - 1"
    "length (?L (target_tree t True)) = length (L (target_tree t True)) + of_bool x"
    "length (?L (target_tree t False)) = length (L (target_tree t False)) + of_bool (\<not> x)"
    unfolding m using ne by (cases x; simp del: target_tree.simps)+
  obtain L' where L': "settled tmp ?L fs1 L' fs'" "ret \<in> {FILEBENCH_OK, FILEBENCH_ERROR}"
    "pre + of_bool x \<le> pre'" "Suc n \<le> n'"
    and other: "\<forall>u. tree_type u \<noteq> tree_type t \<longrightarrow> L' u = ?L u" and L5: "ret = FILEBENCH_OK \<longrightarrow> L' t = [] \<and> n' = Suc n + length (?L t) \<and>
       length (L' (target_tree t True)) = length (?L (target_tree t True)) + (pre' - (pre + of_bool x)) \<and>
       length (L' (target_tree t False)) + (pre' - (pre + of_bool x)) =
         length (?L (target_tree t False)) + length (?L t)"
    and L6: "(\<forall>i. \<not> skips i) \<longrightarrow> ret = FILEBENCH_OK \<longrightarrow> pre' = pre + of_bool x + length (?L t)"
    and L7: "(\<forall>i. skips i) \<longrightarrow> ret = FILEBENCH_OK \<and> pre' = pre + of_bool x"
    using P unfolding loop_post_def by blast
  show ?thesis
    unfolding loop_post_def
  proof (intro exI[of _ L'] conjI impI)
    show "settled tmp L fs L' fs'" by (rule settled_trans[OF S L'(1)])
    show "ret \<in> {FILEBENCH_OK, FILEBENCH_ERROR}" "pre \<le> pre'" "n \<le> n'" using L'(2-4) by auto
    show "\<forall>u. tree_type u \<noteq> tree_type t \<longrightarrow> L' u = L u"
      using other tree_type_target[of t x] by (auto simp: move_contents_def simp del: target_tree.simps)
    show "L' t = []" "n' = n + length (L t)" if "ret = FILEBENCH_OK" using L5 that l(1) len by auto
    show "length (L' (target_tree t True)) = length (L (target_tree t True)) + (pre' - pre)"
      if "ret = FILEBENCH_OK" using L'(3) L5 that l(2) by (cases x) simp_all
    show "length (L' (target_tree t False)) + (pre' - pre) = length (L (target_tree t False)) + length (L t)"
      if "ret = FILEBENCH_OK"
    proof -
      have "length (L' (target_tree t False)) + (pre' - (pre + of_bool x)) =
          length (L (target_tree t False)) + of_bool (\<not> x) + (length (L t) - 1)"
        using L5 that unfolding l by blast
      moreover obtain m where "length (L t) = Suc m" using len by (cases "length (L t)") auto
      ultimately show ?thesis using L'(3) by (cases x) auto
    qed
    show "pre' = pre + length (L t)" if "\<forall>i. \<not> skips i" "ret = FILEBENCH_OK"
      using L6 that l(1) len x by simp
    show "ret = FILEBENCH_OK" "pre' = pre" if "\<forall>i. skips i" using L7 that x by auto
  qed
qed

lemma loop_post_done: "fileset_inv tmp fs L \<Longrightarrow> L t = [] \<Longrightarrow> loop_post tmp t skips L fs pre n FILEBENCH_OK pre n fs"
  unfolding loop_post_def by (rule exI[of _ L]) (simp add: settled_refl)

lemma loop_post_rotor:
  assumes "rotor_step fs fs1" "loop_post tmp t skips L fs pre n ret pre' n' fs"
  shows "loop_post tmp t skips L fs pre n ret pre' n' fs1"
  using assms inv_rotor[OF assms(1)]
  by (fastforce simp: loop_post_def settled_def same_static_def rotor_step_def busy_def fun_eq_iff)

lemma loop_post_error:
  assumes "settled tmp L fs L' fs'" "\<not> skips n" "\<forall>u. tree_type u \<noteq> tree_type t \<longrightarrow> L' u = L u"
  shows "loop_post tmp t skips L fs pre n FILEBENCH_ERROR (Suc pre) (Suc n) fs'"
  unfolding loop_post_def using assms by (intro exI[of _ L']) (auto simp: status_defs)

text \<open>The flag set before an allocation does not matter for the invariant.\<close>

definition set_reusing :: "bool \<Rightarrow> ptr \<Rightarrow> fileset \<Rightarrow> fileset" where
  "set_reusing r e fs = set_flags (\<lambda>f. if r then f OR FSE_REUSING else f AND NOT FSE_REUSING) e fs"

lemma reusing_bit: "bit FSE_REUSING n \<longleftrightarrow> n = 5"
  using bit_flag[of 5 n] by (simp add: FSE_REUSING_def)

lemma set_reusing_ok:
  assumes I: "fileset_inv tmp fs L" and e: "e \<in> set (L t)"
  shows "fileset_inv tmp (set_reusing r e fs) L" "busy (set_reusing r e fs) = busy fs"
    "same_static fs (set_reusing r e fs)"
proof -
  have "entry_tree (if r then f OR FSE_REUSING else f AND NOT FSE_REUSING) = entry_tree f" for f
    by (intro entry_tree_cong) (auto simp: flag_simps reusing_bit)
  then show "fileset_inv tmp (set_reusing r e fs) L"
    unfolding set_reusing_def using fileset_invD(2)[OF I e]
    by (intro inv_stay[OF I e]) (auto simp: flag_simps reusing_bit)
  show "busy (set_reusing r e fs) = busy fs" "same_static fs (set_reusing r e fs)"
    by (auto simp: fun_eq_iff busy_def set_reusing_def flag_simps reusing_bit same_static_def entry_static_def)
qed

lemma create_loop_ok:
  assumes t: "t \<in> {fs_free_files, fs_free_leaf_dirs}"
    and fl: "flags AND FILESET_PICKMASK \<noteq> 3" "pick_tree flags = t"
    and I: "fileset_inv (sr_tmp sr) fs L"
    and idle: "\<forall>d\<in>entries L (tree_type t). \<not> busy fs d"
    and alloc: "\<And>e fs1 w. e \<in> entries L (tree_type t) \<Longrightarrow> same_static fs fs1 \<Longrightarrow> alloc e fs1 w \<in> outcomes (sr_tmp sr) e fs1"
  shows "\<exists>ret pre' n' fs' w'. create_loop sr flags skip alloc reusing pre n fs w = Some (ret, pre', n', fs', w') \<and>
    loop_post (sr_tmp sr) t (\<lambda>i. skip (sr_rand sr i)) L fs pre n ret pre' n' fs'"
  using I idle alloc
proof (induction "length (L t)" arbitrary: L fs pre n w rule: less_induct)
  case less
  let ?tmp = "sr_tmp sr" and ?skips = "\<lambda>i. skip (sr_rand sr i)"
  have ty: "pick_type flags = tree_type t" using pick_tree_type[of flags] fl(2) by simp
  obtain r fs1 where P: "fileset_pick (sr_random64 sr n) fs flags 0 0 = Some (r, fs1)"
    "pick_post ?tmp L flags fs r fs1"
    using pick_ok[OF less.prems(1) fl(1)] by blast
  obtain e where r: "r = Picked e"
    using P(2) less.prems(2) unfolding pick_post_def ty by (cases r) auto
  show ?case
  proof (cases "e = NULL")
    case True
    then have L: "L t = []" and R: "rotor_step fs fs1"
      using P(2) less.prems(2) in_entries[of _ L t] unfolding pick_post_def r fl(2)
      by (auto simp: neq_Nil_conv)
    have "loop_post ?tmp t ?skips L fs pre n FILEBENCH_OK pre n fs1"
      by (rule loop_post_rotor[OF R loop_post_done[where L = L and t = t, OF less.prems(1) L]])
    then show ?thesis using P(1) True by (subst create_loop.simps) (simp add: r)
  next
    case False
    have e: "e \<in> set (L t)" "\<not> busy fs e" and I1: "fileset_inv ?tmp fs1 L" and s1: "same_static fs fs1"
      and b1: "busy fs1 = (busy fs)(e := True)"
      using P(2) False unfolding pick_post_def r fl(2)
      by (auto simp: same_static_def busy_def fun_eq_iff)
    note d = contents_distinct[OF less.prems(1), of t]
    have step: "\<exists>ret pre' n' fs' w'. create_loop sr flags skip alloc reusing p (Suc n) fs2 w2 =
        Some (ret, pre', n', fs', w') \<and> loop_post ?tmp t ?skips L fs pre n ret pre' n' fs'"
      if S: "settled ?tmp L fs (move_contents k e t (target_tree t x) L) fs2"
        and x: "x \<longleftrightarrow> \<not> ?skips n" and p: "p = pre + of_bool x" for k x fs2 p and w2 :: 'a
    proof -
      let ?L = "move_contents k e t (target_tree t x) L"
      have ne: "t \<noteq> target_tree t x" using t by auto
      have "length (?L t) < length (L t)"
        using move_lengths[of L t e "target_tree t x" k, OF d e(1) ne] e(1) by (cases "L t") auto
      moreover have "fileset_inv ?tmp fs2 ?L" "\<forall>d\<in>entries ?L (tree_type t). \<not> busy fs2 d"
        using S less.prems(2) unfolding settled_def by auto
      moreover have "alloc d fs3 v \<in> outcomes ?tmp d fs3"
        if "d \<in> entries ?L (tree_type t)" "same_static fs2 fs3" for d fs3 v
        using less.prems(3)[of d fs3 v] that S by (auto simp: settled_def same_static_def)
      ultimately obtain ret pre' n' fs' w' where "create_loop sr flags skip alloc reusing p (Suc n) fs2 w2 =
          Some (ret, pre', n', fs', w')" "loop_post ?tmp t ?skips ?L fs2 p (Suc n) ret pre' n' fs'"
        using less.hyps[of ?L fs2 p "Suc n" w2] by blast
      then show ?thesis
        using loop_post_step[where skips = ?skips and n = n and L = L and t = t, OF S d e(1) t _ x]
        unfolding p by blast
    qed
    show ?thesis
    proof (cases "?skips n")
      case True
      obtain fs2 sigs where U: "fileset_unbusy ?tmp e True False 0 fs1 = Some (fs2, sigs)"
        "unbusy_post ?tmp L e t 0 (target_tree t False) fs1 fs2 sigs"
        using unbusy_ok[OF I1 e(1), of True False 0] by auto
      from step[OF round_settled[OF less.prems(1) I1 e s1 b1 U(2)], of pre w] show ?thesis
        using P(1) U(1) True False by (subst create_loop.simps) (simp add: r)
    next
      case ns: False
      let ?fs = "set_reusing reusing e fs1"
      note R = set_reusing_ok[OF I1 e(1), of reusing]
      have s2: "same_static fs ?fs" using s1 R(3) by (simp add: same_static_def)
      have "alloc e ?fs w \<in> outcomes ?tmp e ?fs"
        using less.prems(3)[OF _ s2] in_entries[of e L t] e(1) by blast
      then obtain ret fs2 w2 sigs where A: "alloc e ?fs w = Some (ret, fs2, w2)"
        "ret \<in> {FILEBENCH_OK, FILEBENCH_ERROR}"
        "unbusy_post ?tmp L e t 0 (target_tree t (ret = FILEBENCH_OK)) ?fs fs2 sigs"
        by (rule outcomes_post[OF _ R(1) e(1)])
      note S = round_settled[OF less.prems(1) R(1) e s2 _ A(3), unfolded R(2), OF b1]
      have L: "create_loop sr flags skip alloc reusing pre n fs w =
          (if ret = FILEBENCH_ERROR then Some (FILEBENCH_ERROR, Suc pre, Suc n, fs2, w2)
           else create_loop sr flags skip alloc reusing (Suc pre) (Suc n) fs2 w2)"
        using P(1) A(1) ns False by (subst create_loop.simps) (simp add: r set_reusing_def Let_def)
      show ?thesis
      proof (cases "ret = FILEBENCH_ERROR")
        case True
        have "loop_post ?tmp t ?skips L fs pre n FILEBENCH_ERROR (Suc pre) (Suc n) fs2"
          using tree_type_target[of t]
          by (intro loop_post_error[where skips = ?skips and n = n, OF S ns])
            (auto simp: move_contents_def simp del: target_tree.simps)
        then show ?thesis using L True by simp
      next
        case ok: False
        then have "ret = FILEBENCH_OK" using A(2) by simp
        with step[OF S, of "Suc pre" w2] ns L ok show ?thesis by simp
      qed
    qed
  qed
qed

section \<open>The whole creation\<close>

lemma prealloc_randno_eq:
  assumes "uint p \<le> 100"
  shows "prealloc_randno p = RAND_MAX * (100 - uint p) div 100"
proof -
  have b: "0 \<le> RAND_MAX * (100 - uint p)" "RAND_MAX * (100 - uint p) \<le> RAND_MAX * 100"
    using assms by (auto simp: RAND_MAX_def)
  have "uint (100 - p) = 100 - uint p" using assms by (simp add: uint_sub_if')
  moreover have "uint (word_of_int RAND_MAX :: fbint) = RAND_MAX" by (simp add: uint_word_of_int RAND_MAX_def)
  ultimately have "uint (word_of_int RAND_MAX * (100 - p) :: fbint) = RAND_MAX * (100 - uint p) mod 2 ^ 64"
    by (simp only: uint_word_ariths) simp
  moreover have "RAND_MAX * (100 - uint p) mod 2 ^ 64 = RAND_MAX * (100 - uint p)"
    using b(1) by (rule mod_pos_pos_trivial) (rule le_less_trans[OF b(2)], simp add: RAND_MAX_def)
  ultimately have m: "uint (word_of_int RAND_MAX * (100 - p) :: fbint) = RAND_MAX * (100 - uint p)" by simp
  let ?q = "RAND_MAX * (100 - uint p) div 100"
  have q: "?q \<le> RAND_MAX" "0 \<le> ?q" using b by auto
  have "ucast ((word_of_int RAND_MAX * (100 - p)) div 100 :: fbint) = (word_of_int ?q :: uint32)"
    by (simp add: ucast_eq uint_div_distrib m)
  moreover have "sint (word_of_int ?q :: uint32) = ?q"
    using q by (simp add: sint_sbintrunc' signed_take_bit_int_eq_self RAND_MAX_def del: div_mult_self1)
  ultimately show ?thesis unfolding prealloc_randno_def by simp
qed

lemma avl_first_empty: "trees_hold tmp fs L \<Longrightarrow> L t = [] \<Longrightarrow> avl_first (fs_trees fs t) (fs_nodes fs) = Some NULL"
  using avl.first_ok[OF trees_holdD] by fastforce

lemma pickreset_tree_empty:
  "trees_hold tmp fs L \<Longrightarrow> L src = [] \<Longrightarrow> pickreset_tree tmp src dst fs = Some fs"
  by (simp add: pickreset_tree_def avl_first_empty pickreset_loop.simps)

lemma pickreset_empty:
  assumes "fileset_inv tmp fs L"
  shows "L fs_noex_files = [] \<Longrightarrow> L fs_exist_files = [] \<Longrightarrow>
      fileset_pickreset tmp fs FILESET_PICKFILE = Some fs"
    "L fs_noex_leaf_dirs = [] \<Longrightarrow> L fs_exist_leaf_dirs = [] \<Longrightarrow>
      fileset_pickreset tmp fs FILESET_PICKLEAFDIR = Some fs"
  using pickreset_tree_empty[OF fileset_invD(1)[OF assms]]
  by (simp_all add: fileset_pickreset_def pick_flag_defs)

text \<open>A list linked by \<^verbatim>\<open>fse_nextoftype\<close>.\<close>

fun type_chain :: "(ptr \<Rightarrow> filesetentry) \<Rightarrow> ptr \<Rightarrow> ptr list \<Rightarrow> bool" where
  "type_chain ents p [] \<longleftrightarrow> p = NULL"
| "type_chain ents p (d # ds) \<longleftrightarrow> p = d \<and> d \<noteq> NULL \<and> type_chain ents (fse_nextoftype (ents d)) ds"

lemma create_subdirs_loop_total:
  assumes "type_chain ents p ds" "\<forall>d\<in>set ds. fileset_resolvepath ents paths d \<noteq> None"
  shows "\<exists>ret w'. create_subdirs_loop vec strdup ents paths root p w = Some (ret, w') \<and>
    ret \<in> {FILEBENCH_OK, FILEBENCH_ERROR}"
  using assms
proof (induction ds arbitrary: p w)
  case Nil
  then show ?case by (subst create_subdirs_loop.simps) simp
next
  case (Cons d ds)
  obtain q where q: "fileset_resolvepath ents paths d = Some q" using Cons.prems(2) by auto
  show ?case
    using Cons q by (subst create_subdirs_loop.simps) (auto simp: Let_def split: prod.split)
qed

lemma files_flags:
  "(FILESET_PICKFREE OR FILESET_PICKFILE) AND FILESET_PICKMASK \<noteq> 3"
  "pick_tree (FILESET_PICKFREE OR FILESET_PICKFILE) = fs_free_files"
  "(FILESET_PICKFREE OR FILESET_PICKLEAFDIR) AND FILESET_PICKMASK \<noteq> 3"
  "pick_tree (FILESET_PICKFREE OR FILESET_PICKLEAFDIR) = fs_free_leaf_dirs"
  by (simp_all add: pick_tree_def pick_type_def pick_flag_defs)

lemma create_files_ok:
  assumes I: "fileset_inv (sr_tmp sr) fs L" and idle: "\<forall>d\<in>entries L File. \<not> busy fs d"
    and paths: "\<forall>d\<in>entries L File. entry_path (sr_paths sr) at fs d \<noteq> None"
  obtains ret pre' n' fs' w' where
    "create_files_loop sr at reusing randno pre n fs w = Some (ret, pre', n', fs', w')"
    "loop_post (sr_tmp sr) fs_free_files (\<lambda>i. randno \<noteq> 0 \<and> sr_rand sr i \<le> randno) L fs pre n ret pre' n' fs'"
proof -
  have t: "fs_free_files \<in> {fs_free_files, fs_free_leaf_dirs}" by simp
  have a: "fileset_alloc_file sr at e fs1 w \<in> outcomes (sr_tmp sr) e fs1"
    if "e \<in> entries L (tree_type fs_free_files)" "same_static fs fs1" for e fs1 w
    by (rule alloc_file_outcomes, rule entry_path_static[OF that(2)]) (use that paths in auto)
  show thesis
    using create_loop_ok[where alloc = "fileset_alloc_file sr at", OF t files_flags(1,2) I _ a,
        where skip = "\<lambda>x. randno \<noteq> 0 \<and> x \<le> randno" and reusing = reusing and pre = pre and n = n and w = w]
      idle that by (auto simp: create_files_loop_def)
qed

lemma create_leafdirs_ok:
  assumes I: "fileset_inv (sr_tmp sr) fs L" and idle: "\<forall>d\<in>entries L Leafdir. \<not> busy fs d"
    and paths: "\<forall>d\<in>entries L Leafdir. entry_path (sr_paths sr) at fs d \<noteq> None"
  obtains ret pre' n' fs' w' where
    "create_leafdirs_loop sr at reusing randno pre n fs w = Some (ret, pre', n', fs', w')"
    "loop_post (sr_tmp sr) fs_free_leaf_dirs (\<lambda>i. sr_rand sr i < randno) L fs pre n ret pre' n' fs'"
proof -
  have t: "fs_free_leaf_dirs \<in> {fs_free_files, fs_free_leaf_dirs}" by simp
  have a: "fileset_alloc_leafdir sr at e fs1 w \<in> outcomes (sr_tmp sr) e fs1"
    if "e \<in> entries L (tree_type fs_free_leaf_dirs)" "same_static fs fs1" for e fs1 w
    by (rule alloc_leafdir_outcomes, rule entry_path_static[OF that(2)]) (use that paths in auto)
  show thesis
    using create_loop_ok[where alloc = "fileset_alloc_leafdir sr at", OF t files_flags(3,4) I _ a,
        where skip = "\<lambda>x. x < randno" and reusing = reusing and pre = pre and n = n and w = w]
      idle that by (auto simp: create_leafdirs_loop_def)
qed

section \<open>Properties\<close>

text \<open>A fileset as \<^verbatim>\<open>fileset_populate\<close> leaves it: every file and leaf directory is free, none is busy, and
  every entry has a path.\<close>

definition fresh_fileset :: "'w surroundings \<Rightarrow> fileset_attr \<Rightarrow> fileset \<Rightarrow> contents \<Rightarrow> bool" where
  "fresh_fileset sr at fs L \<longleftrightarrow> fileset_inv (sr_tmp sr) fs L \<and>
     (\<forall>ty. \<forall>d\<in>entries L ty. \<not> busy fs d) \<and>
     (\<forall>t\<in>{fs_noex_files, fs_exist_files, fs_noex_leaf_dirs, fs_exist_leaf_dirs}. L t = []) \<and>
     (\<forall>ty. \<forall>d\<in>entries L ty. entry_path (sr_paths sr) at fs d \<noteq> None) \<and>
     (\<exists>ds. type_chain (fs_ents fs) (fs_dirlist fs) ds \<and>
        (\<forall>d\<in>set ds. fileset_resolvepath (fs_ents fs) (sr_paths sr) d \<noteq> None))"

text \<open>The two loops on a fresh fileset, as \<^verbatim>\<open>fileset_create\<close> runs them.\<close>

lemma create_files_fresh:
  assumes "fresh_fileset sr at fs L"
  obtains ret pre n fs1 w1 L1 where
    "create_files_loop sr at reusing randno 0 0 fs w = Some (ret, pre, n, fs1, w1)"
    "settled (sr_tmp sr) L fs L1 fs1" "ret \<in> {FILEBENCH_OK, FILEBENCH_ERROR}"
    "\<forall>u. tree_type u \<noteq> File \<longrightarrow> L1 u = L u"
    "ret = FILEBENCH_OK \<longrightarrow> L1 fs_free_files = [] \<and> length (L1 fs_exist_files) = pre \<and>
       (randno = 0 \<longrightarrow> L1 fs_noex_files = []) \<and>
       ((\<forall>i. randno \<noteq> 0 \<and> sr_rand sr i \<le> randno) \<longrightarrow> L1 fs_exist_files = [])"
proof -
  have A: "fileset_inv (sr_tmp sr) fs L" "\<forall>d\<in>entries L File. \<not> busy fs d"
    "\<forall>d\<in>entries L File. entry_path (sr_paths sr) at fs d \<noteq> None"
    and e: "L fs_exist_files = []" "L fs_noex_files = []"
    using assms by (auto simp: fresh_fileset_def)
  obtain ret pre n fs1 w1 where F: "create_files_loop sr at reusing randno 0 0 fs w = Some (ret, pre, n, fs1, w1)"
    "loop_post (sr_tmp sr) fs_free_files (\<lambda>i. randno \<noteq> 0 \<and> sr_rand sr i \<le> randno) L fs 0 0 ret pre n fs1"
    by (rule create_files_ok[OF A])
  let ?skips = "\<lambda>i. randno \<noteq> 0 \<and> sr_rand sr i \<le> randno"
  obtain L1 where L1: "settled (sr_tmp sr) L fs L1 fs1" "ret \<in> {FILEBENCH_OK, FILEBENCH_ERROR}"
    "\<forall>u. tree_type u \<noteq> tree_type fs_free_files \<longrightarrow> L1 u = L u"
    and K: "ret = FILEBENCH_OK \<longrightarrow> L1 fs_free_files = [] \<and> n = 0 + length (L fs_free_files) \<and>
      length (L1 (target_tree fs_free_files True)) = length (L (target_tree fs_free_files True)) + (pre - 0) \<and>
      length (L1 (target_tree fs_free_files False)) + (pre - 0) =
        length (L (target_tree fs_free_files False)) + length (L fs_free_files)"
    and a: "(\<forall>i. \<not> ?skips i) \<longrightarrow> ret = FILEBENCH_OK \<longrightarrow> pre = 0 + length (L fs_free_files)"
    and b: "(\<forall>i. ?skips i) \<longrightarrow> ret = FILEBENCH_OK \<and> pre = 0"
    using F(2) unfolding loop_post_def by blast
  show thesis
  proof (rule that[OF F(1) L1(1,2)])
    show "\<forall>u. tree_type u \<noteq> File \<longrightarrow> L1 u = L u" using L1(3) by simp
    show "ret = FILEBENCH_OK \<longrightarrow> L1 fs_free_files = [] \<and> length (L1 fs_exist_files) = pre \<and>
       (randno = 0 \<longrightarrow> L1 fs_noex_files = []) \<and> ((\<forall>i. ?skips i) \<longrightarrow> L1 fs_exist_files = [])"
      using K a b e by (cases "randno = 0") auto
  qed
qed

lemma create_leafdirs_fresh:
  assumes "fresh_fileset sr at fs L" "settled (sr_tmp sr) L fs L1 fs1" "\<forall>u. tree_type u \<noteq> File \<longrightarrow> L1 u = L u"
  obtains ret pre' n' fs2 w2 L2 where
    "create_leafdirs_loop sr at reusing randno pre n fs1 w1 = Some (ret, pre', n', fs2, w2)"
    "settled (sr_tmp sr) L1 fs1 L2 fs2" "ret \<in> {FILEBENCH_OK, FILEBENCH_ERROR}"
    "\<forall>u. tree_type u \<noteq> Leafdir \<longrightarrow> L2 u = L1 u"
    "ret = FILEBENCH_OK \<longrightarrow> L2 fs_free_leaf_dirs = [] \<and> pre' = pre + length (L2 fs_exist_leaf_dirs) \<and>
       ((\<forall>i. \<not> sr_rand sr i < randno) \<longrightarrow> L2 fs_noex_leaf_dirs = [])"
proof -
  have A: "fileset_inv (sr_tmp sr) fs1 L1" "\<forall>d\<in>entries L1 Leafdir. \<not> busy fs1 d"
    "\<forall>d\<in>entries L1 Leafdir. entry_path (sr_paths sr) at fs1 d \<noteq> None"
    and e: "L1 fs_exist_leaf_dirs = []" "L1 fs_noex_leaf_dirs = []"
    using assms entry_path_static[of fs fs1] by (auto simp: fresh_fileset_def settled_def)
  obtain ret pre' n' fs2 w2 where F: "create_leafdirs_loop sr at reusing randno pre n fs1 w1 = Some (ret, pre', n', fs2, w2)"
    "loop_post (sr_tmp sr) fs_free_leaf_dirs (\<lambda>i. sr_rand sr i < randno) L1 fs1 pre n ret pre' n' fs2"
    by (rule create_leafdirs_ok[OF A])
  obtain L2 where L2: "settled (sr_tmp sr) L1 fs1 L2 fs2" "ret \<in> {FILEBENCH_OK, FILEBENCH_ERROR}" "pre \<le> pre'"
    "\<forall>u. tree_type u \<noteq> tree_type fs_free_leaf_dirs \<longrightarrow> L2 u = L1 u"
    and K: "ret = FILEBENCH_OK \<longrightarrow> L2 fs_free_leaf_dirs = [] \<and> n' = n + length (L1 fs_free_leaf_dirs) \<and>
      length (L2 (target_tree fs_free_leaf_dirs True)) = length (L1 (target_tree fs_free_leaf_dirs True)) + (pre' - pre) \<and>
      length (L2 (target_tree fs_free_leaf_dirs False)) + (pre' - pre) =
        length (L1 (target_tree fs_free_leaf_dirs False)) + length (L1 fs_free_leaf_dirs)"
    and a: "(\<forall>i. \<not> sr_rand sr i < randno) \<longrightarrow> ret = FILEBENCH_OK \<longrightarrow> pre' = pre + length (L1 fs_free_leaf_dirs)"
    using F(2) unfolding loop_post_def by blast
  show thesis
  proof (rule that[OF F(1) L2(1,2)])
    show "\<forall>u. tree_type u \<noteq> Leafdir \<longrightarrow> L2 u = L1 u" using L2(4) by simp
    show "ret = FILEBENCH_OK \<longrightarrow> L2 fs_free_leaf_dirs = [] \<and> pre' = pre + length (L2 fs_exist_leaf_dirs) \<and>
       ((\<forall>i. \<not> sr_rand sr i < randno) \<longrightarrow> L2 fs_noex_leaf_dirs = [])"
      using K a e L2(3) by auto
  qed
qed

text \<open>The directories are made, or the tree is re-used.\<close>

lemma create_dirs_total:
  assumes "fresh_fileset sr at fs L"
  obtains ret w' where
    "(if reusing then Some (FILEBENCH_OK, w) else fileset_create_subdirs vec strdup (sr_paths sr) fs p v) = Some (ret, w')"
    "ret \<in> {FILEBENCH_OK, FILEBENCH_ERROR}"
proof (cases reusing)
  case False
  obtain ds where "type_chain (fs_ents fs) (fs_dirlist fs) ds"
    "\<forall>d\<in>set ds. fileset_resolvepath (fs_ents fs) (sr_paths sr) d \<noteq> None"
    using assms by (auto simp: fresh_fileset_def)
  from create_subdirs_loop_total[OF this, of vec strdup p v] False that show thesis
    by (auto simp: fileset_create_subdirs_def)
qed (use that in simp)


definition demo_sr :: "string list surroundings" where
  "demo_sr = \<lparr>sr_tmp = 8, sr_vec = demo_vec, sr_paths = demo_paths, sr_strdup = (\<lambda>_. True), sr_malloc = (\<lambda>_. True),
     sr_random64 = (\<lambda>_ _. 0), sr_rand = (\<lambda>_. 17), sr_fadvise = (\<lambda>_ _. 0)\<rparr>"

definition demo_at :: fileset_attr where
  "demo_at = \<lparr>at_path = Some ''/tmp'', at_name = Some ''set'', at_attrs = 0, at_trust_tree = False,
     at_reuse = False, at_readonly = False, at_preallocpercent = 100\<rparr>"

lemma demo_entries: "entries demo_contents ty = (if ty = File then {64} else {})"
  by (auto simp: entries_def demo_contents_def split: if_splits intro: exI[of _ fs_free_files])

lemma demo_entry_path: "entry_path (sr_paths demo_sr) demo_at demo_fileset 64 = Some ''/tmp/set''"
  by (simp add: entry_path_def demo_at_def demo_fileset_def fse_zero_def fileset_resolvepath_def
      resolve_loop.simps strlcpy_str_def strlcat_str_def MAXPATHLEN_def)

lemma demo_fresh: "fresh_fileset demo_sr demo_at demo_fileset demo_contents"
proof -
  have "\<not> busy demo_fileset 64" by (simp add: busy_def demo_fileset_def FSE_BUSY_def)
  moreover have "fs_dirlist demo_fileset = NULL" by (simp add: demo_fileset_def)
  moreover have "\<forall>t\<in>{fs_noex_files, fs_exist_files, fs_noex_leaf_dirs, fs_exist_leaf_dirs}. demo_contents t = []"
    by (simp add: demo_contents_def)
  moreover have "sr_tmp demo_sr = 8" by (simp add: demo_sr_def)
  ultimately show ?thesis
    using demo_fileset_inv demo_entry_path unfolding fresh_fileset_def
    by (auto simp: demo_entries intro!: exI[of _ "[]"])
qed


text \<open>The sizes of the writes that fill a file.\<close>

definition alloc_blocks :: "int \<Rightarrow> int list" where
  "alloc_blocks n = (if n \<le> 0 then [] else replicate (nat (n div FILE_ALLOC_BLOCK)) FILE_ALLOC_BLOCK @
     (if n mod FILE_ALLOC_BLOCK = 0 then [] else [n mod FILE_ALLOC_BLOCK]))"

lemma alloc_blocks_sum: "0 \<le> n \<Longrightarrow> sum_list (alloc_blocks n) = n"
  by (auto simp: alloc_blocks_def sum_list_replicate FILE_ALLOC_BLOCK_def minus_mult_div_eq_mod [symmetric])

lemma alloc_blocks_step:
  assumes "0 < n"
  shows "alloc_blocks n = min n FILE_ALLOC_BLOCK # alloc_blocks (n - min n FILE_ALLOC_BLOCK)"
proof (cases "n < FILE_ALLOC_BLOCK")
  case True
  then show ?thesis using assms by (simp add: alloc_blocks_def)
next
  case False
  let ?m = "n - FILE_ALLOC_BLOCK"
  have d: "n div FILE_ALLOC_BLOCK = ?m div FILE_ALLOC_BLOCK + 1" "n mod FILE_ALLOC_BLOCK = ?m mod FILE_ALLOC_BLOCK"
    using div_add_self2[of FILE_ALLOC_BLOCK ?m] mod_add_self2[of ?m FILE_ALLOC_BLOCK]
    by (simp_all add: FILE_ALLOC_BLOCK_def)
  have p: "0 \<le> ?m div FILE_ALLOC_BLOCK" using False by (simp add: FILE_ALLOC_BLOCK_def)
  show ?thesis
  proof (cases "?m = 0")
    case True
    then show ?thesis by (simp add: alloc_blocks_def FILE_ALLOC_BLOCK_def)
  next
    case m: False
    then show ?thesis using assms False p unfolding alloc_blocks_def d by (simp add: nat_add_distrib)
  qed
qed

lemma alloc_write_loop_complete:
  "(\<And>n w. fst (fsp_write vec fd n w) = n) \<Longrightarrow> alloc_write_loop vec fd fsize seek w =
    (True, fold (\<lambda>n w. snd (fsp_write vec fd n w)) (alloc_blocks (fsize - seek)) w)"
proof (induction vec fd fsize seek w rule: alloc_write_loop.induct)
  case (1 vec fd fsize seek w)
  show ?case
  proof (cases "seek < fsize")
    case True
    let ?n = "min (fsize - seek) FILE_ALLOC_BLOCK"
    have "alloc_write_loop vec fd fsize seek w =
        alloc_write_loop vec fd fsize (seek + ?n) (snd (fsp_write vec fd ?n w))"
      using True "1.prems"[of ?n w]
      by (subst alloc_write_loop.simps) (auto simp: Let_def split: prod.split)
    also have "\<dots> = (True, fold (\<lambda>n w. snd (fsp_write vec fd n w)) (alloc_blocks (fsize - (seek + ?n)))
        (snd (fsp_write vec fd ?n w)))"
      by (rule "1.IH"[OF True refl refl prod.collapse]) (use "1.prems" in simp_all)
    also have "fsize - (seek + ?n) = fsize - seek - ?n" by simp
    finally show ?thesis using alloc_blocks_step[of "fsize - seek"] True by simp
  next
    case False
    then show ?thesis by (subst alloc_write_loop.simps) (simp add: alloc_blocks_def)
  qed
qed

text \<open>C26: \<^verbatim>\<open>fileset_alloc_file\<close> of an entry with a path always returns, with success or an error, keeps the
  invariant and makes the entry idle; it ends in the tree of existing entries exactly on success.
  When the file is made anew, memory is there and the writes are complete, it succeeds, and the
  writes are blocks of at most a mebibyte that add up to the size of the file.\<close>

theorem fileset_alloc_file_correct:
  assumes I: "fileset_inv (sr_tmp sr) fs L" and e: "e \<in> set (L t)"
    and path: "entry_path (sr_paths sr) at fs e = Some path" and size: "fse_size (fs_ents fs e) = n" "0 \<le> n"
  shows "\<exists>ret fs' w'. fileset_alloc_file sr at e fs w = Some (ret, fs', w') \<and>
    ret \<in> {FILEBENCH_OK, FILEBENCH_ERROR} \<and> \<not> busy fs' e \<and>
    fileset_inv (sr_tmp sr) fs'
      (move_contents (fse_key (fs_ents fs)) e t (target_tree t (ret = FILEBENCH_OK)) L) \<and>
    (\<forall>fd w1. fse_flags (fs_ents fs e) AND FSE_REUSING = 0 \<and>
       fsp_open (sr_vec sr) path (O_RDWR OR O_CREAT) 0x1A4 w = ((0, fd), w1) \<and> sr_malloc sr w1 \<and>
       (\<forall>m v. fst (fsp_write (sr_vec sr) fd m v) = m) \<longrightarrow>
       ret = FILEBENCH_OK \<and>
       w' = snd (fsp_close (sr_vec sr) fd (fold (\<lambda>m v. snd (fsp_write (sr_vec sr) fd m v)) (alloc_blocks n) w1)) \<and>
       sum_list (alloc_blocks n) = n \<and> (\<forall>m\<in>set (alloc_blocks n). 0 < m \<and> m \<le> FILE_ALLOC_BLOCK))"
proof -
  have "fileset_alloc_file sr at e fs w \<in> outcomes (sr_tmp sr) e fs"
    using path by (intro alloc_file_outcomes) simp
  then obtain ret fs' w' sigs where A: "fileset_alloc_file sr at e fs w = Some (ret, fs', w')"
    "ret \<in> {FILEBENCH_OK, FILEBENCH_ERROR}"
    "unbusy_post (sr_tmp sr) L e t 0 (target_tree t (ret = FILEBENCH_OK)) fs fs' sigs"
    by (rule outcomes_post[OF _ I e])
  have blocks: "\<forall>m\<in>set (alloc_blocks n). 0 < m \<and> m \<le> FILE_ALLOC_BLOCK"
  proof -
    have "n mod FILE_ALLOC_BLOCK \<noteq> 0 \<Longrightarrow> 0 < n mod FILE_ALLOC_BLOCK"
      using pos_mod_sign[of FILE_ALLOC_BLOCK n] by (simp add: FILE_ALLOC_BLOCK_def)
    moreover have "n mod FILE_ALLOC_BLOCK \<le> FILE_ALLOC_BLOCK"
      using pos_mod_bound[of FILE_ALLOC_BLOCK n] by (simp add: FILE_ALLOC_BLOCK_def)
    ultimately show ?thesis by (auto simp: alloc_blocks_def FILE_ALLOC_BLOCK_def)
  qed
  have "ret = FILEBENCH_OK \<and> w' = snd (fsp_close (sr_vec sr) fd
      (fold (\<lambda>m v. snd (fsp_write (sr_vec sr) fd m v)) (alloc_blocks n) w1))"
    if c: "fse_flags (fs_ents fs e) AND FSE_REUSING = 0"
      "fsp_open (sr_vec sr) path (O_RDWR OR O_CREAT) 0x1A4 w = ((0, fd), w1)" "sr_malloc sr w1"
      "\<forall>m v. fst (fsp_write (sr_vec sr) fd m v) = m" for fd w1
  proof -
    have "fileset_alloc_file sr at e fs w = give_back (sr_tmp sr) e True FILEBENCH_OK fs (snd (fsp_close (sr_vec sr) fd
        (fold (\<lambda>m v. snd (fsp_write (sr_vec sr) fd m v)) (alloc_blocks n) w1)))"
      using c path size alloc_write_loop_complete[of "sr_vec sr" fd n 0 w1]
      by (simp add: fileset_alloc_file_def alloc_file_fill_def status_defs Let_def split: prod.split)
    with A(1) have "give_back (sr_tmp sr) e True FILEBENCH_OK fs (snd (fsp_close (sr_vec sr) fd
        (fold (\<lambda>m v. snd (fsp_write (sr_vec sr) fd m v)) (alloc_blocks n) w1))) = Some (ret, fs', w')" by simp
    then show ?thesis unfolding give_back_def by fastforce
  qed
  then show ?thesis
    using A blocks alloc_blocks_sum[OF size(2)] unfolding unbusy_post_def by blast
qed

theorem fileset_alloc_file_correct_witness:
  "\<exists>fs' w'. fileset_alloc_file demo_sr demo_at 64 demo_fileset [] = Some (FILEBENCH_OK, fs', w') \<and> \<not> busy fs' 64"
proof -
  have e: "64 \<in> set (demo_contents fs_free_files)" by (simp add: demo_contents_def)
  have z: "fse_size (fs_ents demo_fileset 64) = 0" "fse_flags (fs_ents demo_fileset 64) AND FSE_REUSING = 0"
    by (simp_all add: demo_fileset_def fse_zero_def FSE_REUSING_def)
  have s: "sr_tmp demo_sr = 8" "sr_malloc demo_sr = (\<lambda>_. True)" "sr_vec demo_sr = demo_vec"
    by (simp_all add: demo_sr_def)
  have v: "fsp_open demo_vec p f m w = ((0, 3), p # w)" "fst (fsp_write demo_vec fd n v) = n" for p f m w fd n v
    by (simp_all add: demo_vec_def)
  from fileset_alloc_file_correct[where sr = demo_sr and w = "[]", unfolded s(1), OF demo_fileset_inv e
      demo_entry_path[unfolded s(1)] z(1)]
  show ?thesis using z(2) v unfolding s by fastforce
qed

section \<open>Resetting\<close>

lemma avl_walk_offset: "avl_offset t = avl_offset t' \<Longrightarrow> avl_walk t h d left = avl_walk t' h d left"
  by (simp add: avl_walk_def Let_def)

lemma pickreset_tree_first:
  assumes I: "fileset_inv tmp fs L" and L: "L s = a # xs" "L d = []"
    and sd: "(s, d) \<in> {(fs_noex_files, fs_free_files), (fs_noex_leaf_dirs, fs_free_leaf_dirs),
      (fs_exist_files, fs_free_files), (fs_exist_leaf_dirs, fs_free_leaf_dirs)}"
  obtains fs' where "pickreset_tree tmp s d fs = Some fs'" "fileset_inv tmp fs' (L(s := xs, d := [a]))"
proof -
  let ?F = "\<lambda>e. e\<lparr>fse_flags := fse_flags e OR FSE_FREE, fse_open_cnt := 0\<rparr>"
  have a: "a \<in> set (L s)" using L by simp
  have ty: "tree_type s = tree_type d" "s \<noteq> d" using sd by auto
  have et: "entry_tree (fse_flags (fs_ents fs a) OR FSE_FREE) = Some d"
    using fileset_invD(2)[OF I a] sd by (auto simp: entry_tree_bits flag_simps split: if_splits)
  obtain T h where M: "fileset_move_entry tmp s d a (upd_entry ?F a fs) =
      Some ((upd_entry ?F a fs)\<lparr>fs_trees := T, fs_nodes := h\<rparr>)"
    and I1: "fileset_inv tmp ((upd_entry ?F a fs)\<lparr>fs_trees := T, fs_nodes := h\<rparr>)
      (move_contents (fse_key (fs_ents fs)) a s d L)"
    by (rule inv_move[where F = ?F, OF I a ty]) (use et in \<open>auto simp: flag_simps\<close>)
  let ?fs = "(upd_entry ?F a fs)\<lparr>fs_trees := T, fs_nodes := h\<rparr>"
  have c: "move_contents (fse_key (fs_ents fs)) a s d L = L(s := xs, d := [a])"
    using L ty(2) by (simp add: move_contents_def fun_eq_iff)
  have nn: "a \<noteq> NULL"
    using avl.held_valid[OF trees_holdD[OF fileset_invD(1)[OF I]] a] avl.valid_nonnull by blast
  have fam: "avl_family (fse_key (fs_ents ?fs)) FSE_LINK_OFFSET tmp (T t) h ((L(s := xs, d := [a])) t)" for t
    using trees_holdD[OF fileset_invD(1)[OF I1], of t] unfolding c by simp
  have "avl_walk (T d) h a True = Some (hd0 [])"
    using avl.succ_ok[of _ _ _ "T d" h "[]" a "[]"] fam[of d] by simp
  moreover have "avl_offset (T s) = avl_offset (T d)"
    using fam[of s] fam[of d] by (simp add: avl_family_def)
  ultimately have W: "avl_walk (T s) h a True = Some NULL" using avl_walk_offset[of "T s" "T d" h a True] by simp
  have "avl_first (fs_trees fs s) (fs_nodes fs) = Some a"
    using avl.first_ok[OF trees_holdD[OF fileset_invD(1)[OF I], of s]] L by simp
  then have "pickreset_tree tmp s d fs = Some ?fs"
    using M W nn by (simp add: pickreset_tree_def pickreset_loop.simps)
  then show thesis using I1 unfolding c by (rule that)
qed

text \<open>C36: \<^verbatim>\<open>fileset_pickreset\<close> is meant to make every file free again. With no free and no existing file it
  frees only the first of the files that do not exist: the loop follows the links of the entry it
  has just moved, which are those of the other tree. The others stay where they are. When every
  file is free already it changes nothing.\<close>

theorem fileset_pickreset_first_only:
  assumes I: "fileset_inv tmp fs L" and e: "L fs_exist_files = []"
  shows "(L fs_noex_files = [] \<longrightarrow> fileset_pickreset tmp fs FILESET_PICKFILE = Some fs) \<and>
    (\<forall>a xs. L fs_noex_files = a # xs \<and> L fs_free_files = [] \<longrightarrow>
       (\<exists>fs'. fileset_pickreset tmp fs FILESET_PICKFILE = Some fs' \<and>
          fileset_inv tmp fs' (L(fs_noex_files := xs, fs_free_files := [a]))))"
proof (intro conjI impI allI)
  assume "L fs_noex_files = []"
  then show "fileset_pickreset tmp fs FILESET_PICKFILE = Some fs" using pickreset_empty(1)[OF I] e by simp
next
  fix a xs
  assume L: "L fs_noex_files = a # xs \<and> L fs_free_files = []"
  obtain fs' where F: "pickreset_tree tmp fs_noex_files fs_free_files fs = Some fs'"
    "fileset_inv tmp fs' (L(fs_noex_files := xs, fs_free_files := [a]))"
    using pickreset_tree_first[OF I, of fs_noex_files a xs fs_free_files] L by blast
  have "pickreset_tree tmp fs_exist_files fs_free_files fs' = Some fs'"
    using pickreset_tree_empty[OF fileset_invD(1)[OF F(2)]] e by simp
  then show "\<exists>fs'. fileset_pickreset tmp fs FILESET_PICKFILE = Some fs' \<and>
      fileset_inv tmp fs' (L(fs_noex_files := xs, fs_free_files := [a]))"
    using F by (simp add: fileset_pickreset_def pick_flag_defs)
qed

text \<open>A fileset with two files that do not exist.\<close>

definition demo_two :: fileset where
  "demo_two = demo_fileset\<lparr>
     fs_trees := (\<lambda>t. if t = fs_noex_files
         then \<lparr>avl_root = 80, avl_offset = 16, avl_numnodes_fld = 2, avl_size = 96\<rparr>
         else \<lparr>avl_root = 0, avl_offset = 16, avl_numnodes_fld = 0, avl_size = 96\<rparr>),
     fs_nodes := (fs_nodes demo_fileset)(
       80 := \<lparr>avl_child = (\<lambda>c. if c then 176 else 0), avl_parent = 0, avl_child_index = False, avl_balance = 1\<rparr>,
       176 := \<lparr>avl_child = (\<lambda>c. 0), avl_parent = 80, avl_child_index = True, avl_balance = 0\<rparr>),
     fs_ents := (\<lambda>_. fse_zero)(64 := fse_zero\<lparr>fse_fileset := 8\<rparr>, 160 := fse_zero\<lparr>fse_index := 1, fse_fileset := 8\<rparr>),
     fs_idle_files := 2\<rparr>"

definition demo_two_contents :: contents where
  "demo_two_contents = (\<lambda>t. if t = fs_noex_files then [64, 160] else [])"

lemma demo_two_inv: "fileset_inv 8 demo_two demo_two_contents"
proof -
  let ?k = "fse_key (fs_ents demo_two)"
  have E: "entries demo_two_contents ty = (if ty = File then {64, 160} else {})" for ty
    by (auto simp: entries_def demo_two_contents_def split: if_splits intro: exI[of _ fs_noex_files])
  have k: "?k 64 = 0" "?k 160 = 1" by (simp_all add: fse_key_def demo_two_def fse_zero_def)
  have "avl_rep (fs_trees demo_two fs_noex_files) (fs_nodes demo_two) (Node Leaf 80 1 (Node Leaf 176 0 Leaf))"
    by (auto simp: avl_rep_def focus_def demo_two_def)
  then have two: "avl_family ?k 16 8 (fs_trees demo_two fs_noex_files) (fs_nodes demo_two) [64, 160]"
    unfolding avl_family_def avl_holds_def
    by (auto simp: demo_two_def tdata_def sorted_keys_def fse_key_def fse_zero_def AVL_NODE2DATA_def avl_object_def AVL_DATA2NODE_def
        intro!: exI[of _ "Node Leaf 80 1 (Node Leaf 176 0 Leaf)"])
  have none: "avl_family ?k 16 8 (fs_trees demo_two t) (fs_nodes demo_two) []" if "t \<noteq> fs_noex_files" for t
    unfolding avl_family_def avl_holds_def using that
    by (auto simp: demo_two_def tdata_def sorted_keys_def intro!: exI[of _ Leaf] avl_rep_empty)
  have T: "trees_hold 8 demo_two demo_two_contents"
    using two none by (simp add: trees_hold_def demo_two_contents_def FSE_LINK_OFFSET_def)
  have B: "\<not> busy demo_two d" for d
    by (simp add: busy_def demo_two_def fse_zero_def)
  have "{d :: ptr. d = 64 \<or> d = 160} = {64, 160}" by auto
  then have c2: "card {d :: ptr. d = 64 \<or> d = 160} = 2" by simp
  have F: "fs_idle_files demo_two = 2" "fs_idle_dirs demo_two = 0" "fs_idle_leafdirs demo_two = 0"
    "fs_filelist demo_two = 64" "fs_dirlist demo_two = 0" "fs_leafdirlist demo_two = 0"
    by (simp_all add: demo_two_def demo_fileset_def)
  have "idle_count ty demo_two = int (card {d \<in> entries demo_two_contents ty. \<not> busy demo_two d}) \<and>
      (type_list ty demo_two = NULL \<longleftrightarrow> entries demo_two_contents ty = {})" for ty
    unfolding E using B F by (cases ty) (simp_all add: c2)
  moreover have "entry_tree 0 = Some fs_noex_files" by (simp add: entry_tree_def fse_flag_defs)
  then have "\<forall>t. \<forall>d\<in>set (demo_two_contents t).
      entry_tree (fse_flags (fs_ents demo_two d)) = Some t \<and> fse_fileset (fs_ents demo_two d) \<noteq> NULL"
    by (auto simp: demo_two_contents_def demo_two_def fse_zero_def split: if_splits)
  moreover have "inj_on ?k (entries demo_two_contents ty)" for ty by (simp add: E k)
  ultimately show ?thesis using T unfolding fileset_inv_def by blast
qed

theorem fileset_pickreset_first_only_witness:
  "\<exists>fs'. fileset_pickreset 8 demo_two FILESET_PICKFILE = Some fs' \<and>
     fileset_inv 8 fs' (\<lambda>t. if t = fs_noex_files then [160] else if t = fs_free_files then [64] else [])"
proof -
  have "demo_two_contents(fs_noex_files := [160], fs_free_files := [64]) =
      (\<lambda>t. if t = fs_noex_files then [160] else if t = fs_free_files then [64] else [])"
    by (auto simp: demo_two_contents_def)
  then show ?thesis
    using fileset_pickreset_first_only[OF demo_two_inv] by (auto simp: demo_two_contents_def)
qed



end
