(* ===== verification/LDB_Coding.thy ===== *)
theory LDB_Coding
  imports FB_Prelude
begin

text \<open>
  The encodings of \<^verbatim>\<open>leveldb-1.22/util/coding.cc\<close> and \<^verbatim>\<open>coding.h\<close>: little-endian 32 and 64 bit
  integers, variable-length integers and length-prefixed strings.  A buffer or
  \<^verbatim>\<open>std::string\<close> is the list of its bytes.  A decoder takes the bytes from \<^verbatim>\<open>p\<close> up to \<^verbatim>\<open>limit\<close>; it
  returns the value with the bytes that are left, and \<^const>\<open>None\<close> is \<^verbatim>\<open>nullptr\<close> or \<^verbatim>\<open>false\<close>.
\<close>

unbundle bit_operations_syntax

section \<open>Definitions\<close>

type_synonym byte = "8 word"
type_synonym uint64 = "64 word"
type_synonym slice = "byte list"

text \<open>
  On a little-endian machine the code copies the bytes of the word (\<^verbatim>\<open>memcpy\<close>); on a big-endian one
  it writes them one by one.  Both store the low byte first, and that is what is defined here.
\<close>

definition EncodeFixed32 :: "uint32 \<Rightarrow> byte list" where
  "EncodeFixed32 value =
     [ucast (value AND 0xff), ucast (drop_bit 8 value AND 0xff),
      ucast (drop_bit 16 value AND 0xff), ucast (drop_bit 24 value AND 0xff)]"

definition EncodeFixed64 :: "uint64 \<Rightarrow> byte list" where
  "EncodeFixed64 value =
     [ucast (value AND 0xff), ucast (drop_bit 8 value AND 0xff),
      ucast (drop_bit 16 value AND 0xff), ucast (drop_bit 24 value AND 0xff),
      ucast (drop_bit 32 value AND 0xff), ucast (drop_bit 40 value AND 0xff),
      ucast (drop_bit 48 value AND 0xff), ucast (drop_bit 56 value AND 0xff)]"

definition PutFixed32 :: "byte list \<Rightarrow> uint32 \<Rightarrow> byte list" where
  "PutFixed32 dst value = dst @ EncodeFixed32 value"

definition PutFixed64 :: "byte list \<Rightarrow> uint64 \<Rightarrow> byte list" where
  "PutFixed64 dst value = dst @ EncodeFixed64 value"

definition EncodeVarint32 :: "uint32 \<Rightarrow> byte list" where
  "EncodeVarint32 v =
     (let B = 128 in
      if v < push_bit 7 1 then [ucast v]
      else if v < push_bit 14 1 then
        [ucast (v OR B), ucast (drop_bit 7 v)]
      else if v < push_bit 21 1 then
        [ucast (v OR B), ucast (drop_bit 7 v OR B), ucast (drop_bit 14 v)]
      else if v < push_bit 28 1 then
        [ucast (v OR B), ucast (drop_bit 7 v OR B), ucast (drop_bit 14 v OR B),
         ucast (drop_bit 21 v)]
      else
        [ucast (v OR B), ucast (drop_bit 7 v OR B), ucast (drop_bit 14 v OR B),
         ucast (drop_bit 21 v OR B), ucast (drop_bit 28 v)])"

definition PutVarint32 :: "byte list \<Rightarrow> uint32 \<Rightarrow> byte list" where
  "PutVarint32 dst v = dst @ EncodeVarint32 v"

text \<open>The loop of \<^verbatim>\<open>EncodeVarint64\<close>, at any width.\<close>

function varint_bytes :: "'a::len word \<Rightarrow> byte list" where
  "varint_bytes v =
     (if unat v \<ge> 128 then ucast (v OR 128) # varint_bytes (drop_bit 7 v) else [ucast v])"
  by pat_completeness auto
termination
  by (relation "measure unat") (auto simp: unat_drop_bit_eq drop_bit_nat_def)

declare varint_bytes.simps [simp del]

definition EncodeVarint64 :: "uint64 \<Rightarrow> byte list" where
  "EncodeVarint64 v = varint_bytes v"

definition PutVarint64 :: "byte list \<Rightarrow> uint64 \<Rightarrow> byte list" where
  "PutVarint64 dst v = dst @ EncodeVarint64 v"

text \<open>\<^verbatim>\<open>value.size()\<close> is a \<^verbatim>\<open>size_t\<close>: the call narrows it to 32 bits.\<close>

definition PutLengthPrefixedSlice :: "byte list \<Rightarrow> slice \<Rightarrow> byte list" where
  "PutLengthPrefixedSlice dst value = PutVarint32 dst (of_nat (length value)) @ value"

function VarintLength_from :: "uint64 \<Rightarrow> nat \<Rightarrow> nat" where
  "VarintLength_from v len =
     (if v \<ge> 128 then VarintLength_from (drop_bit 7 v) (len + 1) else len)"
  by pat_completeness auto
termination
  by (relation "measure (\<lambda>(v, n). unat v)")
    (auto simp: unat_drop_bit_eq drop_bit_nat_def word_le_nat_alt)

declare VarintLength_from.simps [simp del]

definition VarintLength :: "uint64 \<Rightarrow> nat" where
  "VarintLength v = VarintLength_from v 1"

definition DecodeFixed32 :: "byte list \<Rightarrow> uint32" where
  "DecodeFixed32 ptr =
     ucast (ptr ! 0) OR push_bit 8 (ucast (ptr ! 1)) OR push_bit 16 (ucast (ptr ! 2))
     OR push_bit 24 (ucast (ptr ! 3))"

definition DecodeFixed64 :: "byte list \<Rightarrow> uint64" where
  "DecodeFixed64 ptr =
     (let lo = ucast (DecodeFixed32 ptr); hi = ucast (DecodeFixed32 (drop 4 ptr)) in
      push_bit 32 hi OR lo)"

text \<open>
  The loop of the two varint decoders: \<^verbatim>\<open>maxshift\<close> is the greatest shift it tries (28 or 63).
\<close>

fun varint_loop :: "nat \<Rightarrow> nat \<Rightarrow> 'a::len word \<Rightarrow> byte list \<Rightarrow> ('a word \<times> byte list) option" where
  "varint_loop maxshift shift result [] = None"
| "varint_loop maxshift shift result (b # p) =
     (if shift > maxshift then None
      else let byte = ucast b in
        if byte AND 128 \<noteq> 0
        then varint_loop maxshift (shift + 7) (result OR push_bit shift (byte AND 127)) p
        else Some (result OR push_bit shift byte, p))"

definition GetVarint32PtrFallback :: "byte list \<Rightarrow> (uint32 \<times> byte list) option" where
  "GetVarint32PtrFallback p = varint_loop 28 0 0 p"

definition GetVarint32Ptr :: "byte list \<Rightarrow> (uint32 \<times> byte list) option" where
  "GetVarint32Ptr p =
     (case p of
        b # q \<Rightarrow> (let result = ucast b in
                 if result AND 128 = (0 :: uint32) then Some (result, q)
                 else GetVarint32PtrFallback p)
      | [] \<Rightarrow> GetVarint32PtrFallback p)"

definition GetVarint32 :: "slice \<Rightarrow> (uint32 \<times> slice) option" where
  "GetVarint32 input =
     (case GetVarint32Ptr input of None \<Rightarrow> None | Some (value, q) \<Rightarrow> Some (value, q))"

definition GetVarint64Ptr :: "byte list \<Rightarrow> (uint64 \<times> byte list) option" where
  "GetVarint64Ptr p = varint_loop 63 0 0 p"

definition GetVarint64 :: "slice \<Rightarrow> (uint64 \<times> slice) option" where
  "GetVarint64 input =
     (case GetVarint64Ptr input of None \<Rightarrow> None | Some (value, q) \<Rightarrow> Some (value, q))"

text \<open>The two overloads: on a pointer and a limit, and on a slice that is advanced.\<close>

definition GetLengthPrefixedSlice_ptr :: "byte list \<Rightarrow> (slice \<times> byte list) option" where
  "GetLengthPrefixedSlice_ptr p =
     (case GetVarint32Ptr p of
        None \<Rightarrow> None
      | Some (len, q) \<Rightarrow>
          if unat len > length q then None
          else Some (take (unat len) q, drop (unat len) q))"

definition GetLengthPrefixedSlice :: "slice \<Rightarrow> (slice \<times> slice) option" where
  "GetLengthPrefixedSlice input =
     (case GetVarint32 input of
        Some (len, input') \<Rightarrow>
          if length input' \<ge> unat len then Some (take (unat len) input', drop (unat len) input')
          else None
      | None \<Rightarrow> None)"

section \<open>Fixed-width integers\<close>

lemma byte_mask: "(0xff :: 'a::len word) = mask 8"
  by (simp add: mask_eq_exp_minus_1)

lemma length_EncodeFixed [simp]:
  "length (EncodeFixed32 v) = 4" "length (EncodeFixed64 w) = 8"
  by (simp_all add: EncodeFixed32_def EncodeFixed64_def)

text \<open>One byte of an encoding, put back in its place.\<close>

lemma bit_byte_at:
  "bit (push_bit k (ucast (ucast (drop_bit k v AND 0xff) :: byte)) :: 'b::len word) n
     \<longleftrightarrow> k \<le> n \<and> n < k + 8 \<and> n < LENGTH('b) \<and> bit (v :: 'a::len word) n"
  by (auto simp: byte_mask bit_simps dest: bit_imp_le_length)

lemma bit_byte_at_0:
  "bit (ucast (ucast (v AND 0xff) :: byte) :: 'b::len word) n
     \<longleftrightarrow> n < 8 \<and> n < LENGTH('b) \<and> bit (v :: 'a::len word) n"
  using bit_byte_at [where k = 0 and v = v and 'b = 'b] by simp

lemma DecodeFixed32_Cons:
  "DecodeFixed32 (a # b # c # d # p) = ucast a OR push_bit 8 (ucast b) OR push_bit 16 (ucast c)
     OR push_bit 24 (ucast d)"
  by (simp add: DecodeFixed32_def)

lemma DecodeFixed32_bytes:
  "DecodeFixed32 (ucast (v AND 0xff) # ucast (drop_bit 8 v AND 0xff)
     # ucast (drop_bit 16 v AND 0xff) # ucast (drop_bit 24 v AND 0xff) # rest)
   = ucast (v :: 'a::len word)"
  by (rule bit_word_eqI, simp only: DecodeFixed32_Cons bit_or_iff bit_byte_at bit_byte_at_0)
    (auto simp: bit_ucast_iff)

lemma DecodeFixed32_Encode [simp]: "DecodeFixed32 (EncodeFixed32 v @ rest) = v"
  by (simp add: EncodeFixed32_def DecodeFixed32_bytes)

lemma DecodeFixed64_Encode [simp]: "DecodeFixed64 (EncodeFixed64 v @ rest) = v"
proof -
  have "push_bit 32 (ucast (ucast (drop_bit 32 v) :: uint32)) OR ucast (ucast v :: uint32) = v"
    by (rule bit_word_eqI) (auto simp: bit_simps)
  then show ?thesis
    using DecodeFixed32_bytes [of "drop_bit 32 v" rest]
    by (simp add: DecodeFixed64_def EncodeFixed64_def DecodeFixed32_bytes drop_bit_drop_bit)
qed

text \<open>Arrays of 32-bit words, as the restart array of a block and the offset array of a filter block.\<close>

abbreviation fixed32_array :: "nat list \<Rightarrow> byte list" where
  "fixed32_array rs \<equiv> concat (map (\<lambda>r. EncodeFixed32 (of_nat r)) rs)"

lemma foldl_PutFixed32: "foldl (\<lambda>dst r. PutFixed32 dst (of_nat r)) buf rs = buf @ fixed32_array rs"
  by (induction rs arbitrary: buf) (simp_all add: PutFixed32_def)

lemma length_fixed32_array: "length (fixed32_array rs) = 4 * length rs"
  by (induction rs) simp_all

lemma drop_fixed32_array:
  "j < length rs \<Longrightarrow> \<exists>rest. drop (4 * j) (fixed32_array rs @ ys) = EncodeFixed32 (of_nat (rs ! j)) @ rest"
proof (induction rs arbitrary: j)
  case (Cons r rs)
  then show ?case by (cases j) auto
qed simp

section \<open>Variable-length integers\<close>

lemma bit_masks:
  "bit (128 :: int) n \<longleftrightarrow> n = 7" "bit (127 :: int) n \<longleftrightarrow> n < 7"
proof -
  have "(128 :: int) = 2 ^ 7" "(127 :: int) = mask 7" by (simp_all add: mask_eq_exp_minus_1)
  then show "bit (128 :: int) n \<longleftrightarrow> n = 7" "bit (127 :: int) n \<longleftrightarrow> n < 7"
    by (simp_all only: bit_exp_iff bit_mask_iff possible_bit_int) auto
qed

lemma and_128_iff: "7 < LENGTH('a) \<Longrightarrow> (x :: 'a::len word) AND 128 = 0 \<longleftrightarrow> \<not> bit x 7"
  by (subst bit_eq_iff) (auto simp: bit_simps bit_masks)

lemma unat_bound: "unat (v :: 'a::len word) < 2 ^ LENGTH('a)"
  by (rule unsigned_less)

lemma unat_less_bit: "unat (v :: 'a::len word) < 2 ^ n \<Longrightarrow> n \<le> m \<Longrightarrow> \<not> bit v m"
proof
  assume a: "unat v < 2 ^ n" "n \<le> m" "bit v m"
  then have "take_bit n (unat v) = unat v"
    by (simp add: take_bit_nat_eq_self)
  then have "bit (take_bit n (unat v)) m" using a by (simp add: bit_unsigned_iff)
  with a show False by (simp add: bit_take_bit_iff)
qed

lemma varint_split:
  "(ucast (ucast (v OR 128) :: byte) AND 127) OR push_bit 7 (drop_bit 7 v) = (v :: 'a::len word)"
proof (rule bit_word_eqI)
  fix n assume "n < LENGTH('a)"
  then show "bit ((ucast (ucast (v OR 128) :: byte) AND 127) OR push_bit 7 (drop_bit 7 v)) n
    = bit v n" by (cases "n < 7") (auto simp: bit_simps bit_masks)
qed

lemma varint_join:
  "push_bit s (ucast (ucast (v OR 128) :: byte) AND 127) OR push_bit (7 + s) (drop_bit 7 v)
     = push_bit s (v :: 'a::len word)"
  using arg_cong [OF varint_split [of v], of "push_bit s"]
  by (simp only: push_bit_or push_bit_push_bit add.commute)

lemma varint_decode:
  fixes v result :: "'a::len word"
  assumes "\<And>k. 7 * k < LENGTH('a) \<Longrightarrow> 7 * k \<le> maxshift"
    and "unat v < 2 ^ (LENGTH('a) - 7 * k)" and "7 * k < LENGTH('a)" and "7 < LENGTH('a)"
  shows "varint_loop maxshift (7 * k) result (varint_bytes v @ rest)
           = Some (result OR push_bit (7 * k) v, rest)"
  using assms(2,3)
proof (induction v arbitrary: k result rule: varint_bytes.induct)
  case (1 v)
  have L: "7 < LENGTH('a)" by (rule assms)
  have k: "7 * k \<le> maxshift" using assms(1) 1 by blast
  show ?case
  proof (cases "unat v \<ge> 128")
    case True
    have "(2::nat) ^ 7 < 2 ^ (LENGTH('a) - 7 * k)" using True 1(2) by simp
    then have "7 < LENGTH('a) - 7 * k" by (rule power_less_imp_less_exp [rotated]) simp
    then have k': "7 * Suc k < LENGTH('a)" by simp
    have "LENGTH('a) - 7 * k = 7 + (LENGTH('a) - 7 * Suc k)" using k' by simp
    then have "unat v < 2 ^ 7 * 2 ^ (LENGTH('a) - 7 * Suc k)" using 1(2) by (metis power_add)
    then have small: "unat (drop_bit 7 v) < 2 ^ (LENGTH('a) - 7 * Suc k)"
      by (simp add: unat_drop_bit_eq drop_bit_nat_def div_less_iff_less_mult mult.commute)
    have eq: "(result OR push_bit (7 * k) (ucast (ucast (v OR 128) :: byte) AND 127))
               OR push_bit (7 + 7 * k) (drop_bit 7 v) = result OR push_bit (7 * k) v"
      using varint_join [of "7 * k" v] by (simp only: or.assoc)
    have "bit (ucast (ucast (v OR 128) :: byte) :: 'a word) 7"
      using L by (simp add: bit_simps bit_masks)
    then have more: "ucast (ucast (v OR 128) :: byte) AND 128 \<noteq> (0 :: 'a word)"
      using L by (simp add: and_128_iff)
    show ?thesis
      using 1(1) [OF True small k', of "result OR push_bit (7 * k) (ucast (ucast (v OR 128) :: byte) AND 127)"]
        k True more
      by (subst varint_bytes.simps) (simp add: eq add.commute [of "7 * k"] del: push_bit_and)
  next
    case False
    then have v: "n < 7" if "bit v n" for n
      using unat_less_bit [of v 7 n] that by fastforce
    have eq: "ucast (ucast v :: byte) = v"
      by (rule bit_word_eqI) (use v in \<open>fastforce simp: bit_simps\<close>)
    have "\<not> bit v 7" using v [of 7] by blast
    then show ?thesis using False k L
      by (subst varint_bytes.simps) (simp add: eq and_128_iff)
  qed
qed

lemma GetVarint64_Put [simp]: "GetVarint64 (EncodeVarint64 v @ rest) = Some (v, rest)"
  using varint_decode [of 63 v 0 0 rest] unat_bound [of v]
  by (auto simp: GetVarint64_def GetVarint64Ptr_def EncodeVarint64_def)

lemma varint_bytes_shift:
  "unat v \<ge> 128 \<Longrightarrow> varint_bytes v = ucast (v OR 128) # varint_bytes (drop_bit 7 v)"
  "unat v < 128 \<Longrightarrow> varint_bytes v = [ucast v]"
  by (simp_all add: varint_bytes.simps [of v])

lemma EncodeVarint32_loop: "EncodeVarint32 v = varint_bytes v"
proof -
  have d: "unat (drop_bit n v) = unat v div 2 ^ n" for n
    by (simp add: unat_drop_bit_eq drop_bit_nat_def)
  have b: "unat v < 2 ^ 32" using unat_bound [of v] by simp
  have c: "v < push_bit 7 1 \<longleftrightarrow> unat v < 2 ^ 7" "v < push_bit 14 1 \<longleftrightarrow> unat v < 2 ^ 14"
    "v < push_bit 21 1 \<longleftrightarrow> unat v < 2 ^ 21" "v < push_bit 28 1 \<longleftrightarrow> unat v < 2 ^ 28"
    by (simp_all add: word_less_nat_alt push_bit_eq_mult)
  consider "unat v < 2 ^ 7" | "2 ^ 7 \<le> unat v" "unat v < 2 ^ 14"
    | "2 ^ 14 \<le> unat v" "unat v < 2 ^ 21" | "2 ^ 21 \<le> unat v" "unat v < 2 ^ 28"
    | "2 ^ 28 \<le> unat v" by linarith
  then show ?thesis
    by cases (use b in \<open>simp_all only: EncodeVarint32_def c Let_def\<close>,
        simp_all add: varint_bytes.simps d drop_bit_drop_bit less_eq_div_iff_mult_less_eq)
qed

lemma GetVarint32Ptr_fast: "GetVarint32Ptr p = GetVarint32PtrFallback p"
  by (cases p) (simp_all add: GetVarint32Ptr_def GetVarint32PtrFallback_def Let_def)

lemma GetVarint32Ptr_Encode [simp]: "GetVarint32Ptr (EncodeVarint32 v @ rest) = Some (v, rest)"
proof -
  have "7 * k \<le> 28" if "7 * k < (32::nat)" for k using that by presburger
  then show ?thesis using varint_decode [of 28 v 0 0 rest] unat_bound [of v]
    by (simp add: GetVarint32Ptr_fast GetVarint32PtrFallback_def EncodeVarint32_loop)
qed

lemma GetVarint32_Put [simp]: "GetVarint32 (EncodeVarint32 v @ rest) = Some (v, rest)"
  by (simp add: GetVarint32_def)

lemma VarintLength_from_loop: "VarintLength_from v n + 1 = n + length (varint_bytes v)"
  by (induction v n rule: VarintLength_from.induct)
    (subst VarintLength_from.simps, subst varint_bytes.simps, simp add: word_le_nat_alt)

lemma VarintLength_is_length: "VarintLength v = length (EncodeVarint64 v)"
  using VarintLength_from_loop [of v 1] by (simp add: VarintLength_def EncodeVarint64_def)

lemma varint_length_bound:
  fixes v :: "'a::len word"
  shows "unat v < 2 ^ (7 * Suc k) \<Longrightarrow> length (varint_bytes v) \<le> Suc k"
proof (induction v arbitrary: k rule: varint_bytes.induct)
  case (1 v)
  show ?case
  proof (cases "unat v \<ge> 128")
    case True
    then obtain j where k: "k = Suc j" using 1(2) by (cases k) auto
    have "unat (drop_bit 7 v) < 2 ^ (7 * Suc j)"
      using 1(2) by (simp add: k unat_drop_bit_eq drop_bit_nat_def div_less_iff_less_mult power_add)
    then show ?thesis using 1(1) [OF True, of j] True by (simp add: varint_bytes_shift k)
  qed (simp add: varint_bytes_shift)
qed

lemma varint_nonempty [simp]: "varint_bytes v \<noteq> []"
  by (subst varint_bytes.simps) simp

lemma varint_bytes_ucast: "varint_bytes (ucast (v :: uint32) :: uint64) = varint_bytes v"
proof (induction v rule: varint_bytes.induct)
  case (1 v)
  have u: "unat (ucast v :: uint64) = unat v"
    using unat_bound [of v] by (simp add: unsigned_ucast_eq take_bit_nat_eq_self)
  have d: "drop_bit 7 (ucast v :: uint64) = ucast (drop_bit 7 v)"
    by (rule bit_word_eqI) (auto simp: bit_simps dest: bit_imp_le_length)
  have c: "(ucast ((ucast v :: uint64) OR 128) :: byte) = ucast (v OR 128)"
    "(ucast (ucast v :: uint64) :: byte) = ucast v"
    by (rule bit_word_eqI, auto simp: bit_simps)+
  show ?case
  proof (cases "unat v \<ge> 128")
    case True
    then have "unat (ucast v :: uint64) \<ge> 128" by (simp only: u)
    then show ?thesis using 1 [OF True] True by (simp only: varint_bytes_shift d c)
  next
    case False
    then have "unat v < 128" "unat (ucast v :: uint64) < 128" by (simp_all only: u)
    then show ?thesis by (simp only: varint_bytes_shift c)
  qed
qed

lemma varint_loop_shorter:
  "varint_loop m s r p = Some (v, q) \<Longrightarrow> length q < length p"
  by (induction m s r p rule: varint_loop.induct) (fastforce simp: Let_def split: if_splits)+

section \<open>Length-prefixed strings\<close>

lemma GetLengthPrefixedSlice_ptr_eq: "GetLengthPrefixedSlice_ptr p = GetLengthPrefixedSlice p"
  by (auto simp: GetLengthPrefixedSlice_ptr_def GetLengthPrefixedSlice_def GetVarint32_def
      split: option.splits)

lemma GetLengthPrefixedSlice_Put:
  assumes "length s < 2 ^ 32"
  shows "GetLengthPrefixedSlice (PutLengthPrefixedSlice [] s @ rest) = Some (s, rest)"
  using assms by (simp add: PutLengthPrefixedSlice_def PutVarint32_def GetLengthPrefixedSlice_def
      unat_of_nat take_bit_nat_eq_self take_bit_nat_def)

lemma PutLengthPrefixedSlice_append:
  "PutLengthPrefixedSlice dst s = dst @ PutLengthPrefixedSlice [] s"
  by (simp add: PutLengthPrefixedSlice_def PutVarint32_def)

lemma GetLengthPrefixedSlice_shorter:
  "GetLengthPrefixedSlice p = Some (s, q) \<Longrightarrow> length q < length p"
  by (auto simp: GetLengthPrefixedSlice_def GetVarint32_def GetVarint32Ptr_fast
      GetVarint32PtrFallback_def dest!: varint_loop_shorter split: option.splits if_splits)

section \<open>Properties\<close>

text \<open>C28: Every encoder is inverted by its decoder, whatever bytes follow: the fixed-width and the
  variable-length integers come back with exactly the following bytes left, and so does a
  length-prefixed string whose length fits the 32-bit prefix, through both overloads.\<close>

theorem coding_roundtrip:
  assumes "length s < 2 ^ 32"
  shows "DecodeFixed32 (PutFixed32 [] v @ rest) = v \<and>
         DecodeFixed64 (PutFixed64 [] w @ rest) = w \<and>
         GetVarint32 (PutVarint32 [] v @ rest) = Some (v, rest) \<and>
         GetVarint64 (PutVarint64 [] w @ rest) = Some (w, rest) \<and>
         GetLengthPrefixedSlice (PutLengthPrefixedSlice [] s @ rest) = Some (s, rest) \<and>
         GetLengthPrefixedSlice_ptr (PutLengthPrefixedSlice [] s @ rest) = Some (s, rest)"
  using assms by (simp_all add: PutFixed32_def PutFixed64_def PutVarint32_def PutVarint64_def
      GetLengthPrefixedSlice_ptr_eq GetLengthPrefixedSlice_Put)

theorem coding_roundtrip_witness:
  "length [1, 2, 3 :: byte] < 2 ^ 32
   \<and> GetVarint32 (PutVarint32 [] 300 @ [7]) = Some (300, [7])
   \<and> GetLengthPrefixedSlice (PutLengthPrefixedSlice [] [1, 2, 3] @ [9]) = Some ([1, 2, 3], [9])"
  using coding_roundtrip [of "[1, 2, 3]" 300 "[7]" 0] coding_roundtrip [of "[1, 2, 3]" 0 "[9]" 0]
  by simp

text \<open>C29: The unrolled \<^verbatim>\<open>EncodeVarint32\<close> writes the bytes of the loop of \<^verbatim>\<open>EncodeVarint64\<close> on the
  same number, at most the 5 bytes of the buffer in \<^verbatim>\<open>PutVarint32\<close>; \<^verbatim>\<open>EncodeVarint64\<close> writes at
  most the 10 of \<^verbatim>\<open>PutVarint64\<close>; and \<^verbatim>\<open>VarintLength\<close> is the number of bytes written.\<close>

theorem varint_encoders_agree:
  "EncodeVarint32 v = EncodeVarint64 (ucast v) \<and> length (EncodeVarint32 v) \<in> {1..5}
   \<and> length (EncodeVarint64 w) \<in> {1..10} \<and> VarintLength w = length (EncodeVarint64 w)"
  using varint_length_bound [of v 4] varint_length_bound [of w 9] unat_bound [of v] unat_bound [of w]
  by (simp add: EncodeVarint32_loop EncodeVarint64_def VarintLength_is_length Suc_le_eq
      varint_bytes_ucast)

end
