(* ===== verification/LDB_Comparator.thy ===== *)
theory LDB_Comparator
  imports LDB_Coding
begin

text \<open>
  The order of keys: \<^verbatim>\<open>Slice::compare\<close>, the bytewise comparator of \<^verbatim>\<open>util/comparator.cc\<close>, and the
  internal keys of \<^verbatim>\<open>db/dbformat.cc\<close> and \<^verbatim>\<open>dbformat.h\<close>, which carry a sequence number and a type
  after the user key and are ordered by decreasing sequence number.
\<close>

section \<open>Definitions\<close>

text \<open>\<^verbatim>\<open>memcmp\<close> on buffers of the same length; only the sign of its result is specified.\<close>

fun memcmp :: "byte list \<Rightarrow> byte list \<Rightarrow> int" where
  "memcmp (x # xs) (y # ys) = (if x = y then memcmp xs ys else if x < y then -1 else 1)"
| "memcmp _ _ = 0"

definition Slice_compare :: "slice \<Rightarrow> slice \<Rightarrow> int" where
  "Slice_compare a b =
     (let min_len = (if length a < length b then length a else length b);
          r = memcmp (take min_len a) (take min_len b)
      in if r = 0 then if length a < length b then -1 else if length a > length b then 1 else r
         else r)"

text \<open>The interface \<^verbatim>\<open>Comparator\<close>.\<close>

record comparator =
  Compare :: "slice \<Rightarrow> slice \<Rightarrow> int"
  FindShortestSeparator :: "slice \<Rightarrow> slice \<Rightarrow> slice"
  FindShortSuccessor :: "slice \<Rightarrow> slice"

fun diff_index :: "slice \<Rightarrow> slice \<Rightarrow> nat" where
  "diff_index (x # xs) (y # ys) = (if x = y then Suc (diff_index xs ys) else 0)"
| "diff_index _ _ = 0"

definition bytewise_FindShortestSeparator :: "slice \<Rightarrow> slice \<Rightarrow> slice" where
  "bytewise_FindShortestSeparator start limit =
     (let min_length = min (length start) (length limit); i = diff_index start limit in
      if i \<ge> min_length then start
      else let diff_byte = start ! i in
        if diff_byte < 0xff \<and> unat diff_byte + 1 < unat (limit ! i)
        then take (i + 1) (start[i := diff_byte + 1])
        else start)"

text \<open>The loop over the key keeps its \<^verbatim>\<open>0xff\<close> bytes and stops at the first other one.\<close>

fun bytewise_FindShortSuccessor :: "slice \<Rightarrow> slice" where
  "bytewise_FindShortSuccessor [] = []"
| "bytewise_FindShortSuccessor (b # key) =
     (if b \<noteq> 0xff then [b + 1] else b # bytewise_FindShortSuccessor key)"

definition BytewiseComparator :: comparator where
  "BytewiseComparator = \<lparr>Compare = Slice_compare, FindShortestSeparator = bytewise_FindShortestSeparator,
     FindShortSuccessor = bytewise_FindShortSuccessor\<rparr>"

subsection \<open>Internal keys\<close>

datatype ValueType = kTypeDeletion | kTypeValue

fun type_code :: "ValueType \<Rightarrow> uint64" where
  "type_code kTypeDeletion = 0"
| "type_code kTypeValue = 1"

definition kValueTypeForSeek :: ValueType where "kValueTypeForSeek = kTypeValue"

definition kMaxSequenceNumber :: uint64 where
  "kMaxSequenceNumber = push_bit 56 1 - 1"

record ParsedInternalKey =
  pk_user_key :: slice
  pk_sequence :: uint64
  pk_type :: ValueType

definition PackSequenceAndType :: "uint64 \<Rightarrow> ValueType \<Rightarrow> uint64" where
  "PackSequenceAndType seq t = push_bit 8 seq OR type_code t"

definition AppendInternalKey :: "byte list \<Rightarrow> ParsedInternalKey \<Rightarrow> byte list" where
  "AppendInternalKey result key =
     PutFixed64 (result @ pk_user_key key) (PackSequenceAndType (pk_sequence key) (pk_type key))"

definition ExtractUserKey :: "slice \<Rightarrow> slice" where
  "ExtractUserKey internal_key = take (length internal_key - 8) internal_key"

text \<open>On failure the result is left undefined.\<close>

definition ParseInternalKey :: "slice \<Rightarrow> ParsedInternalKey option" where
  "ParseInternalKey internal_key =
     (let n = length internal_key in
      if n < 8 then None
      else let num = DecodeFixed64 (drop (n - 8) internal_key);
               c = num AND 0xff;
               key = (\<lambda>t. \<lparr>pk_user_key = take (n - 8) internal_key, pk_sequence = drop_bit 8 num, pk_type = t\<rparr>)
           in if c = 0 then Some (key kTypeDeletion) else if c = 1 then Some (key kTypeValue) else None)"

definition internal_Compare :: "comparator \<Rightarrow> slice \<Rightarrow> slice \<Rightarrow> int" where
  "internal_Compare user akey bkey =
     (let r = Compare user (ExtractUserKey akey) (ExtractUserKey bkey) in
      if r = 0 then
        let anum = DecodeFixed64 (drop (length akey - 8) akey);
            bnum = DecodeFixed64 (drop (length bkey - 8) bkey)
        in if anum > bnum then -1 else if anum < bnum then 1 else r
      else r)"

definition internal_FindShortestSeparator :: "comparator \<Rightarrow> slice \<Rightarrow> slice \<Rightarrow> slice" where
  "internal_FindShortestSeparator user start limit =
     (let user_start = ExtractUserKey start; user_limit = ExtractUserKey limit;
          tmp = FindShortestSeparator user user_start user_limit
      in if length tmp < length user_start \<and> Compare user user_start tmp < 0
         then PutFixed64 tmp (PackSequenceAndType kMaxSequenceNumber kValueTypeForSeek)
         else start)"

definition internal_FindShortSuccessor :: "comparator \<Rightarrow> slice \<Rightarrow> slice" where
  "internal_FindShortSuccessor user key =
     (let user_key = ExtractUserKey key; tmp = FindShortSuccessor user user_key
      in if length tmp < length user_key \<and> Compare user user_key tmp < 0
         then PutFixed64 tmp (PackSequenceAndType kMaxSequenceNumber kValueTypeForSeek)
         else key)"

definition InternalKeyComparator :: "comparator \<Rightarrow> comparator" where
  "InternalKeyComparator user = \<lparr>Compare = internal_Compare user,
     FindShortestSeparator = internal_FindShortestSeparator user,
     FindShortSuccessor = internal_FindShortSuccessor user\<rparr>"

text \<open>The key for looking up a user key at a snapshot: the memtable key and, in it, the internal key.\<close>

definition LookupKey :: "slice \<Rightarrow> uint64 \<Rightarrow> slice \<times> slice" where
  "LookupKey user_key s =
     (let klength = EncodeVarint32 (of_nat (length user_key + 8));
          internal = user_key @ EncodeFixed64 (PackSequenceAndType s kValueTypeForSeek)
      in (klength @ internal, internal))"

section \<open>The contract of a comparator\<close>

text \<open>What the users of keys rely on: a total order of the valid keys, separators that lie in
  between and successors that do not lie below.\<close>

locale key_order =
  fixes valid :: "slice \<Rightarrow> bool" and c :: comparator
  assumes compare_0: "valid a \<Longrightarrow> valid b \<Longrightarrow> Compare c a b = 0 \<longleftrightarrow> a = b"
    and compare_swap: "valid a \<Longrightarrow> valid b \<Longrightarrow> Compare c a b < 0 \<longleftrightarrow> Compare c b a > 0"
    and compare_trans: "valid a \<Longrightarrow> valid b \<Longrightarrow> valid d \<Longrightarrow>
      Compare c a b < 0 \<Longrightarrow> Compare c b d < 0 \<Longrightarrow> Compare c a d < 0"
    and separator: "valid a \<Longrightarrow> valid b \<Longrightarrow> Compare c a b < 0 \<Longrightarrow>
      valid (FindShortestSeparator c a b) \<and> Compare c a (FindShortestSeparator c a b) \<le> 0
      \<and> Compare c (FindShortestSeparator c a b) b < 0"
    and separator_same: "valid a \<Longrightarrow> FindShortestSeparator c a a = a"
    and successor: "valid a \<Longrightarrow> valid (FindShortSuccessor c a) \<and> Compare c a (FindShortSuccessor c a) \<le> 0"
begin

lemma compare_refl: "valid a \<Longrightarrow> Compare c a a = 0"
  by (simp add: compare_0)

lemma compare_le_trans:
  assumes "valid a" "valid b" "valid d" "Compare c a b \<le> 0" "Compare c b d < 0"
  shows "Compare c a d < 0"
  using assms compare_trans [of a b d] compare_0 [of a b] by (cases "Compare c a b = 0") auto

lemma compare_total: "valid a \<Longrightarrow> valid b \<Longrightarrow> Compare c a b < 0 \<or> a = b \<or> Compare c b a < 0"
  using compare_0 [of a b] compare_swap [of b a] by linarith

end

section \<open>The bytewise order\<close>

lemma memcmp_prefix: "length a \<le> length b \<Longrightarrow> memcmp a (take (length a) b) = memcmp a b"
  by (induction a b rule: memcmp.induct) auto

lemma memcmp_prefix': "length b \<le> length a \<Longrightarrow> memcmp (take (length b) a) b = memcmp a b"
  by (induction a b rule: memcmp.induct) auto

lemma Slice_compare_simps [simp]:
  "Slice_compare [] [] = 0" "Slice_compare [] (y # ys) = -1" "Slice_compare (x # xs) [] = 1"
  "Slice_compare (x # xs) (y # ys) = (if x = y then Slice_compare xs ys else if x < y then -1 else 1)"
  by (auto simp: Slice_compare_def Let_def)

lemma Slice_compare_0: "Slice_compare a b = 0 \<longleftrightarrow> a = b"
  by (induction a b rule: list_induct2') auto

lemma Slice_compare_refl [simp]: "Slice_compare a a = 0"
  by (simp add: Slice_compare_0)

lemma Slice_compare_swap: "Slice_compare a b < 0 \<longleftrightarrow> Slice_compare b a > 0"
  by (induction a b rule: list_induct2') auto

lemma Slice_compare_trans: "Slice_compare a b < 0 \<Longrightarrow> Slice_compare b d < 0 \<Longrightarrow> Slice_compare a d < 0"
proof (induction a b arbitrary: d rule: list_induct2')
  case (4 x xs y ys)
  then show ?case by (cases d) (auto split: if_splits)
next
  case (2 x xs)
  then show ?case by simp
next
  case (3 y ys)
  then show ?case by (cases d) auto
qed simp

lemma separator_Cons:
  "bytewise_FindShortestSeparator (x # a) (x # b) = x # bytewise_FindShortestSeparator a b"
  by (auto simp: bytewise_FindShortestSeparator_def Let_def)

lemma byte_Suc: "x < (0xff :: byte) \<Longrightarrow> unat (x + 1) = unat x + 1"
  by (simp add: unat_word_ariths word_less_nat_alt)

lemma byte_less_Suc: "x \<noteq> (0xff :: byte) \<Longrightarrow> x < x + 1"
proof -
  assume "x \<noteq> 0xff"
  then have "x < 0xff" using unat_bound [of x] by (simp add: word_less_nat_alt word_unat_eq_iff)
  then show "x < x + 1" by (simp add: word_less_nat_alt byte_Suc)
qed

lemma bytewise_separator:
  "Slice_compare a b < 0 \<Longrightarrow> Slice_compare a (bytewise_FindShortestSeparator a b) \<le> 0
     \<and> Slice_compare (bytewise_FindShortestSeparator a b) b < 0"
proof (induction a b rule: list_induct2')
  case (4 x xs y ys)
  show ?case
  proof (cases "x = y")
    case True
    then show ?thesis using 4 by (simp add: separator_Cons)
  next
    case False
    then have lt: "x < y" using 4(2) by (simp split: if_splits)
    show ?thesis
    proof (cases "x < 0xff \<and> unat x + 1 < unat y")
      case True
      then have "x < x + 1" "x + 1 < y" by (simp_all add: word_less_nat_alt byte_Suc)
      then show ?thesis using True False lt
        by (simp add: bytewise_FindShortestSeparator_def less_imp_neq)
    next
      case False
      then have "bytewise_FindShortestSeparator (x # xs) (y # ys) = x # xs"
        using \<open>x \<noteq> y\<close> by (auto simp: bytewise_FindShortestSeparator_def)
      then show ?thesis using 4(2) by (simp add: Slice_compare_0)
    qed
  qed
qed (simp_all add: bytewise_FindShortestSeparator_def Slice_compare_0)

lemma bytewise_separator_same: "bytewise_FindShortestSeparator a a = a"
  by (induction a) (simp_all add: separator_Cons, simp add: bytewise_FindShortestSeparator_def)

lemma bytewise_successor: "Slice_compare a (bytewise_FindShortSuccessor a) \<le> 0"
  by (induction a) (auto simp: byte_less_Suc)

interpretation bytewise: key_order "\<lambda>_. True" BytewiseComparator
proof
  fix a b d :: slice
  show "Compare BytewiseComparator a b = 0 \<longleftrightarrow> a = b"
    "Compare BytewiseComparator a b < 0 \<longleftrightarrow> Compare BytewiseComparator b a > 0"
    by (simp_all add: BytewiseComparator_def Slice_compare_0 flip: Slice_compare_swap)
  show "Compare BytewiseComparator a b < 0 \<Longrightarrow> Compare BytewiseComparator b d < 0
      \<Longrightarrow> Compare BytewiseComparator a d < 0"
    using Slice_compare_trans by (simp add: BytewiseComparator_def)
  show "Compare BytewiseComparator a b < 0 \<Longrightarrow> True
      \<and> Compare BytewiseComparator a (FindShortestSeparator BytewiseComparator a b) \<le> 0
      \<and> Compare BytewiseComparator (FindShortestSeparator BytewiseComparator a b) b < 0"
    using bytewise_separator by (simp add: BytewiseComparator_def)
  show "FindShortestSeparator BytewiseComparator a a = a"
    by (simp add: BytewiseComparator_def bytewise_separator_same)
  show "True \<and> Compare BytewiseComparator a (FindShortSuccessor BytewiseComparator a) \<le> 0"
    by (simp add: BytewiseComparator_def bytewise_successor)
qed

section \<open>Internal keys\<close>

lemma EncodeFixed32_Decode: "EncodeFixed32 (DecodeFixed32 [a, b, c, d]) = [a, b, c, d]"
proof -
  have "ucast (DecodeFixed32 [a, b, c, d] AND 0xff) = a"
    "ucast (drop_bit 8 (DecodeFixed32 [a, b, c, d]) AND 0xff) = b"
    "ucast (drop_bit 16 (DecodeFixed32 [a, b, c, d]) AND 0xff) = c"
    "ucast (drop_bit 24 (DecodeFixed32 [a, b, c, d]) AND 0xff) = d"
    by (rule bit_word_eqI, auto simp: DecodeFixed32_Cons bit_simps byte_mask dest: bit_imp_le_length)+
  then show ?thesis by (simp add: EncodeFixed32_def)
qed

lemma DecodeFixed32_inj:
  assumes "DecodeFixed32 p = DecodeFixed32 q" "4 \<le> length p" "4 \<le> length q"
  shows "take 4 p = take 4 q"
proof -
  have "take 4 r = EncodeFixed32 (DecodeFixed32 r)" if "4 \<le> length r" for r
  proof -
    obtain a b c d s where "r = a # b # c # d # s"
      using \<open>4 \<le> length r\<close> by (cases r; cases "tl r"; cases "tl (tl r)"; cases "tl (tl (tl r))") auto
    then show ?thesis using EncodeFixed32_Decode [of a b c d] by (simp add: DecodeFixed32_Cons)
  qed
  then show ?thesis using assms by metis
qed

lemma DecodeFixed64_inj:
  assumes "DecodeFixed64 p = DecodeFixed64 q" "length p = 8" "length q = 8"
  shows "p = q"
proof -
  have lo: "ucast (DecodeFixed64 r) = DecodeFixed32 r"
    "ucast (drop_bit 32 (DecodeFixed64 r)) = DecodeFixed32 (drop 4 r)" for r
    by (rule bit_word_eqI, auto simp: DecodeFixed64_def Let_def bit_simps dest: bit_imp_le_length)+
  have "take 4 p = take 4 q"
    by (rule DecodeFixed32_inj) (use lo(1) [of p] lo(1) [of q] assms in simp_all)
  moreover have "take 4 (drop 4 p) = take 4 (drop 4 q)"
    by (rule DecodeFixed32_inj) (use lo(2) [of p] lo(2) [of q] assms in simp_all)
  ultimately have "take 4 p @ drop 4 p = take 4 q @ drop 4 q" using assms(2,3) by simp
  then show ?thesis by simp
qed

abbreviation tag :: "slice \<Rightarrow> uint64" where
  "tag k \<equiv> DecodeFixed64 (drop (length k - 8) k)"

lemma internal_key_eq:
  assumes "8 \<le> length a" "8 \<le> length b" "ExtractUserKey a = ExtractUserKey b" "tag a = tag b"
  shows "a = b"
proof -
  have "drop (length a - 8) a = drop (length b - 8) b"
    using assms by (intro DecodeFixed64_inj) simp_all
  then show ?thesis using assms(3) by (metis ExtractUserKey_def append_take_drop_id)
qed

lemma length_PutFixed64 [simp]: "length (PutFixed64 u t) = length u + 8"
  by (simp add: PutFixed64_def)

lemma ExtractUserKey_Put [simp]: "ExtractUserKey (PutFixed64 u t) = u" "tag (PutFixed64 u t) = t"
  using DecodeFixed64_Encode [of t "[]"] by (simp_all add: ExtractUserKey_def PutFixed64_def)

text \<open>If the user keys are ordered, so are the internal keys.\<close>

lemma internal_key_order:
  assumes "key_order (\<lambda>_. True) user"
  shows "key_order (\<lambda>k. 8 \<le> length k) (InternalKeyComparator user)"
proof -
  note u0 = key_order.compare_0 [OF assms TrueI TrueI]
    and usw = key_order.compare_swap [OF assms TrueI TrueI]
    and utr = key_order.compare_trans [OF assms TrueI TrueI TrueI]
  have C: "Compare (InternalKeyComparator user) a b < 0 \<longleftrightarrow>
      Compare user (ExtractUserKey a) (ExtractUserKey b) < 0
      \<or> ExtractUserKey a = ExtractUserKey b \<and> tag a > tag b" for a b
    using u0 [of "ExtractUserKey a" "ExtractUserKey b"]
    by (auto simp: InternalKeyComparator_def internal_Compare_def Let_def)
  have C': "Compare (InternalKeyComparator user) a b > 0 \<longleftrightarrow>
      Compare user (ExtractUserKey a) (ExtractUserKey b) > 0
      \<or> ExtractUserKey a = ExtractUserKey b \<and> tag a < tag b" for a b
    using u0 [of "ExtractUserKey a" "ExtractUserKey b"]
    by (auto simp: InternalKeyComparator_def internal_Compare_def Let_def)
  show ?thesis
  proof
    fix a b d :: slice
    assume a: "8 \<le> length a"
    show "Compare (InternalKeyComparator user) a b = 0 \<longleftrightarrow> a = b" if "8 \<le> length b"
      using internal_key_eq [OF a that] u0
      by (auto simp: InternalKeyComparator_def internal_Compare_def Let_def)
    show "Compare (InternalKeyComparator user) a b < 0 \<longleftrightarrow> Compare (InternalKeyComparator user) b a > 0"
      using usw by (auto simp: C C')
    show "Compare (InternalKeyComparator user) a d < 0"
      if "Compare (InternalKeyComparator user) a b < 0" "Compare (InternalKeyComparator user) b d < 0"
      using that utr [of "ExtractUserKey a" "ExtractUserKey b" "ExtractUserKey d"] by (auto simp: C)
    show "FindShortestSeparator (InternalKeyComparator user) a a = a"
      using key_order.separator_same [OF assms]
      by (simp add: InternalKeyComparator_def internal_FindShortestSeparator_def)
    have refl: "Compare (InternalKeyComparator user) a a = 0"
      using u0 by (simp add: InternalKeyComparator_def internal_Compare_def)
    show "8 \<le> length (FindShortSuccessor (InternalKeyComparator user) a)
        \<and> Compare (InternalKeyComparator user) a (FindShortSuccessor (InternalKeyComparator user) a) \<le> 0"
    proof -
      let ?t = "FindShortSuccessor user (ExtractUserKey a)"
      have "FindShortSuccessor (InternalKeyComparator user) a
          = (if length ?t < length (ExtractUserKey a) \<and> Compare user (ExtractUserKey a) ?t < 0
             then PutFixed64 ?t (PackSequenceAndType kMaxSequenceNumber kValueTypeForSeek) else a)"
        by (simp add: InternalKeyComparator_def internal_FindShortSuccessor_def Let_def)
      then show ?thesis using a refl by (auto simp: C intro: less_imp_le)
    qed
    assume b: "8 \<le> length b" and ab: "Compare (InternalKeyComparator user) a b < 0"
    let ?s = "FindShortestSeparator (InternalKeyComparator user) a b"
    let ?tmp = "FindShortestSeparator user (ExtractUserKey a) (ExtractUserKey b)"
    have s: "?s = (if length ?tmp < length (ExtractUserKey a) \<and> Compare user (ExtractUserKey a) ?tmp < 0
        then PutFixed64 ?tmp (PackSequenceAndType kMaxSequenceNumber kValueTypeForSeek) else a)"
      by (simp add: InternalKeyComparator_def internal_FindShortestSeparator_def Let_def)
    show "8 \<le> length ?s \<and> Compare (InternalKeyComparator user) a ?s \<le> 0
        \<and> Compare (InternalKeyComparator user) ?s b < 0"
    proof (cases "length ?tmp < length (ExtractUserKey a) \<and> Compare user (ExtractUserKey a) ?tmp < 0")
      case True
      then have "ExtractUserKey a \<noteq> ExtractUserKey b"
        using key_order.separator_same [OF assms] by force
      then have "Compare user (ExtractUserKey a) (ExtractUserKey b) < 0" using ab by (simp add: C)
      then have "Compare user ?tmp (ExtractUserKey b) < 0"
        using key_order.separator [OF assms] by blast
      then show ?thesis using True
        by (auto simp: s C intro: less_imp_le)
    qed (use a refl ab s in auto)
  qed
qed

text \<open>The order of the keys in the tables of a database with the default comparator.\<close>

interpretation internal: key_order "\<lambda>k. 8 \<le> length k" "InternalKeyComparator BytewiseComparator"
  by (rule internal_key_order) (rule bytewise.key_order_axioms)

lemma type_code_bit: "bit (type_code t) n \<longleftrightarrow> n = 0 \<and> t = kTypeValue"
  by (cases t) (simp_all add: bit_1_iff)

lemma PackSequenceAndType_unpack:
  assumes "seq \<le> kMaxSequenceNumber"
  shows "drop_bit 8 (PackSequenceAndType seq t) = seq" "PackSequenceAndType seq t AND 0xff = type_code t"
proof -
  have "unat seq < 2 ^ 56" using assms by (simp add: kMaxSequenceNumber_def push_bit_eq_mult word_le_nat_alt)
  then have small: "n < 56" if "bit seq n" for n using unat_less_bit [of seq 56 n] that by fastforce
  show "drop_bit 8 (PackSequenceAndType seq t) = seq" "PackSequenceAndType seq t AND 0xff = type_code t"
    by (rule bit_word_eqI, use small in \<open>force simp: PackSequenceAndType_def bit_simps type_code_bit byte_mask\<close>)+
qed

section \<open>Properties\<close>

text \<open>C32: The keys of the tables are totally ordered by \<^verbatim>\<open>InternalKeyComparator\<close> over the bytewise
  comparator: only equal keys compare equal, the comparison is antisymmetric and transitive, keys of
  the same user key are ordered by decreasing sequence number and type; the separator of two keys is
  not below the first and strictly below the second, and the successor of a key is not below it.\<close>

theorem internal_comparator_total_order:
  fixes a b d :: slice
  defines "cmp \<equiv> Compare (InternalKeyComparator BytewiseComparator)"
    and "sep \<equiv> FindShortestSeparator (InternalKeyComparator BytewiseComparator) a b"
    and "suc \<equiv> FindShortSuccessor (InternalKeyComparator BytewiseComparator) a"
  assumes "8 \<le> length a" "8 \<le> length b" "8 \<le> length d"
  shows "(cmp a b = 0 \<longleftrightarrow> a = b) \<and> (cmp a b < 0 \<longleftrightarrow> cmp b a > 0)
    \<and> (cmp a b < 0 \<longrightarrow> cmp b d < 0 \<longrightarrow> cmp a d < 0)
    \<and> (ExtractUserKey a = ExtractUserKey b \<longrightarrow> (cmp a b < 0 \<longleftrightarrow> tag a > tag b))
    \<and> (cmp a b < 0 \<longrightarrow> 8 \<le> length sep \<and> cmp a sep \<le> 0 \<and> cmp sep b < 0)
    \<and> 8 \<le> length suc \<and> cmp a suc \<le> 0"
proof -
  have "cmp a b < 0 \<longleftrightarrow> tag a > tag b" if "ExtractUserKey a = ExtractUserKey b"
    using that by (simp add: cmp_def InternalKeyComparator_def internal_Compare_def BytewiseComparator_def Let_def)
  then show ?thesis
    using internal.compare_0 [OF assms(4,5)] internal.compare_swap [OF assms(4,5)]
      internal.compare_trans [OF assms(4-6)] internal.separator [OF assms(4,5)] internal.successor [OF assms(4)]
    unfolding cmp_def sep_def suc_def by blast
qed

theorem internal_comparator_total_order_witness:
  "let a = PutFixed64 [1] (PackSequenceAndType 7 kTypeValue); b = PutFixed64 [1] (PackSequenceAndType 5 kTypeValue)
   in 8 \<le> length a \<and> 8 \<le> length b
      \<and> (Compare (InternalKeyComparator BytewiseComparator) a b < 0 \<longleftrightarrow>
           Compare (InternalKeyComparator BytewiseComparator) b a > 0)"
  using internal_comparator_total_order [of "PutFixed64 [1] (PackSequenceAndType 7 kTypeValue)"
      "PutFixed64 [1] (PackSequenceAndType 5 kTypeValue)" "PutFixed64 [] 0"]
  by (simp add: Let_def)

text \<open>C33: An internal key parses back to the user key, sequence number and type it was made of; and
  the internal key of a lookup key parses to the user key with the sequence number of the snapshot.\<close>

theorem internal_key_roundtrip:
  assumes "pk_sequence k \<le> kMaxSequenceNumber" "s \<le> kMaxSequenceNumber"
  shows "ParseInternalKey (AppendInternalKey [] k) = Some k
    \<and> ParseInternalKey (snd (LookupKey u s)) = Some \<lparr>pk_user_key = u, pk_sequence = s, pk_type = kTypeValue\<rparr>"
proof -
  have P: "ParseInternalKey (PutFixed64 u (PackSequenceAndType q t))
      = Some \<lparr>pk_user_key = u, pk_sequence = q, pk_type = t\<rparr>" if "q \<le> kMaxSequenceNumber" for u q t
    using PackSequenceAndType_unpack [OF that, of t] ExtractUserKey_Put [of u "PackSequenceAndType q t"]
    by (cases t) (simp_all add: ParseInternalKey_def ExtractUserKey_def Let_def)
  show ?thesis
    using P [OF assms(1), of "pk_user_key k" "pk_type k"] P [OF assms(2), of u kTypeValue]
    by (simp add: AppendInternalKey_def LookupKey_def kValueTypeForSeek_def Let_def PutFixed64_def)
qed

theorem internal_key_roundtrip_witness:
  "(7 :: uint64) \<le> kMaxSequenceNumber
   \<and> ParseInternalKey (AppendInternalKey [] \<lparr>pk_user_key = [1, 2], pk_sequence = 7, pk_type = kTypeDeletion\<rparr>)
     = Some \<lparr>pk_user_key = [1, 2], pk_sequence = 7, pk_type = kTypeDeletion\<rparr>"
proof -
  have m: "(7 :: uint64) \<le> kMaxSequenceNumber" by (simp add: kMaxSequenceNumber_def push_bit_eq_mult word_le_nat_alt)
  then show ?thesis
    using internal_key_roundtrip [of "\<lparr>pk_user_key = [1, 2], pk_sequence = 7, pk_type = kTypeDeletion\<rparr>" 7 "[]"]
    by simp
qed

end
