(* ===== verification/LDB_Env.thy ===== *)
theory LDB_Env
  imports LDB_Coding "HOL-Library.Monad_Syntax"
begin

text \<open>
  The file classes of \<^verbatim>\<open>leveldb-1.22/util/env_posix.cc\<close>: \<^verbatim>\<open>PosixWritableFile\<close> with one write buffer
  per thread, \<^verbatim>\<open>PosixSequentialFile\<close>, \<^verbatim>\<open>PosixRandomAccessFile\<close> and \<^verbatim>\<open>PosixMmapReadableFile\<close>.  The
  system calls (and the \<^verbatim>\<open>fs_*\<close> calls that replace them when \<^verbatim>\<open>JL_LIBCFS\<close> is defined) are not part
  of the sources: they are the record \<^verbatim>\<open>os_calls\<close> of functions on a world.  An operation is a
  function to an option: \<^const>\<open>None\<close> means that it does not return normally, because a loop runs
  forever, an exception is thrown or the process exits.  The flag \<^verbatim>\<open>libcfs\<close> says whether
  \<^verbatim>\<open>JL_LIBCFS\<close> is defined, where the two builds differ in more than the name of a call.
\<close>

section \<open>Definitions\<close>

text \<open>\<^verbatim>\<open>leveldb::Status\<close>: a code with the two parts of its message.\<close>

datatype status =
  OK | NotFound string string | Corruption string string | NotSupported string string
| InvalidArgument string string | IOError string string

text \<open>Each call returns its result, \<^verbatim>\<open>errno\<close> and the new world.\<close>

record 'w os_calls =
  os_write :: "'w \<Rightarrow> int \<Rightarrow> slice \<Rightarrow> int \<times> int \<times> 'w"
  os_read :: "'w \<Rightarrow> int \<Rightarrow> nat \<Rightarrow> int \<times> int \<times> slice \<times> 'w"
  os_pread :: "'w \<Rightarrow> int \<Rightarrow> nat \<Rightarrow> uint64 \<Rightarrow> int \<times> int \<times> slice \<times> 'w"
  os_open :: "'w \<Rightarrow> string \<Rightarrow> int \<times> int \<times> 'w"
  os_close :: "'w \<Rightarrow> int \<Rightarrow> int \<times> int \<times> 'w"
  os_fsync :: "'w \<Rightarrow> int \<Rightarrow> int \<times> int \<times> 'w"
  os_strerror :: "int \<Rightarrow> string"

definition EINTR :: int where "EINTR = 4"
definition ENOENT :: int where "ENOENT = 2"
definition EINVAL :: int where "EINVAL = 22"

definition kWritableFileBufferSize :: nat where
  "kWritableFileBufferSize = 65536"

definition PosixError :: "('w, 'z) os_calls_scheme \<Rightarrow> string \<Rightarrow> int \<Rightarrow> status" where
  "PosixError os ctxt error_number =
     (if error_number = ENOENT then NotFound ctxt (os_strerror os error_number)
      else IOError ctxt (os_strerror os error_number))"

subsection \<open>PosixWritableFile\<close>

text \<open>
  \<^verbatim>\<open>buf_map_\<close> and \<^verbatim>\<open>pos_map_\<close> together: for every thread that has used the file, the bytes
  \<^verbatim>\<open>[0, pos)\<close> of its buffer.  Memory allocation is taken to succeed.
\<close>

record posix_wfile =
  pw_bufs :: "nat \<Rightarrow> slice option"
  pw_fd :: int
  pw_filename :: string

definition Basename :: "string \<Rightarrow> string" where
  "Basename filename = rev (takeWhile (\<lambda>c. c \<noteq> CHR ''/'') (rev filename))"

definition Dirname :: "string \<Rightarrow> string" where
  "Dirname filename =
     (if CHR ''/'' \<notin> set filename then ''.''
      else take (length filename - length (Basename filename) - 1) filename)"

definition IsManifest :: "string \<Rightarrow> bool" where
  "IsManifest filename \<longleftrightarrow> take 8 (Basename filename) = ''MANIFEST''"

definition new_PosixWritableFile :: "string \<Rightarrow> int \<Rightarrow> posix_wfile" where
  "new_PosixWritableFile filename fd =
     \<lparr>pw_bufs = (\<lambda>_. None), pw_fd = fd, pw_filename = filename\<rparr>"

definition GetCurThreadBuf :: "nat \<Rightarrow> posix_wfile \<Rightarrow> slice \<times> posix_wfile" where
  "GetCurThreadBuf cur_id f =
     (case pw_bufs f cur_id of
        None \<Rightarrow> ([], f\<lparr>pw_bufs := (pw_bufs f)(cur_id \<mapsto> [])\<rparr>)
      | Some buf \<Rightarrow> (buf, f))"

partial_function (option) WriteUnbuffered ::
  "('w, 'z) os_calls_scheme \<Rightarrow> int \<Rightarrow> string \<Rightarrow> slice \<Rightarrow> 'w \<Rightarrow> (status \<times> 'w) option" where
  "WriteUnbuffered os fd filename data w =
     (if data = [] then Some (OK, w)
      else case os_write os w fd data of
        (write_result, errno, w') \<Rightarrow>
          if write_result < 0 then
            if errno = EINTR then WriteUnbuffered os fd filename data w'
            else Some (PosixError os filename errno, w')
          else WriteUnbuffered os fd filename (drop (nat write_result) data) w')"

definition FlushBuffer ::
  "('w, 'z) os_calls_scheme \<Rightarrow> nat \<Rightarrow> posix_wfile \<Rightarrow> 'w \<Rightarrow> (status \<times> posix_wfile \<times> 'w) option" where
  "FlushBuffer os t f w =
     (let (cur_buf, f) = GetCurThreadBuf t f in
      do { (status, w) \<leftarrow> WriteUnbuffered os (pw_fd f) (pw_filename f) cur_buf w;
           Some (status, f\<lparr>pw_bufs := (pw_bufs f)(t \<mapsto> [])\<rparr>, w) })"

text \<open>
  \<^verbatim>\<open>Append\<close> fits as much as possible into the buffer; what is left is handled by the rest of the
  function.  With \<^verbatim>\<open>JL_LIBCFS\<close> a large write goes through a fresh buffer that the data is never copied to,
  and ends in an exception.
\<close>

definition Append_overflow :: "bool \<Rightarrow> ('w, 'z) os_calls_scheme \<Rightarrow> nat \<Rightarrow> posix_wfile \<Rightarrow> slice \<Rightarrow> 'w
    \<Rightarrow> (status \<times> posix_wfile \<times> 'w) option" where
  "Append_overflow libcfs os t f write_data w =
     do { (status, f, w) \<leftarrow> FlushBuffer os t f w;
          if status \<noteq> OK then Some (status, f, w)
          else if length write_data < kWritableFileBufferSize
          then Some (OK, f\<lparr>pw_bufs := (pw_bufs f)(t \<mapsto> write_data)\<rparr>, w)
          else if libcfs then None
          else do {
            (status, w) \<leftarrow> WriteUnbuffered os (pw_fd f) (pw_filename f) write_data w;
            Some (status, f, w) } }"

definition Append :: "bool \<Rightarrow> ('w, 'z) os_calls_scheme \<Rightarrow> nat \<Rightarrow> posix_wfile \<Rightarrow> slice \<Rightarrow> 'w
    \<Rightarrow> (status \<times> posix_wfile \<times> 'w) option" where
  "Append libcfs os t f data w =
     (let (cur_buf, f) = GetCurThreadBuf t f;
          copy_size = min (length data) (kWritableFileBufferSize - length cur_buf);
          f = f\<lparr>pw_bufs := (pw_bufs f)(t \<mapsto> cur_buf @ take copy_size data)\<rparr>;
          write_data = drop copy_size data
      in if write_data = [] then Some (OK, f, w)
         else Append_overflow libcfs os t f write_data w)"

definition Close ::
  "('w, 'z) os_calls_scheme \<Rightarrow> nat \<Rightarrow> posix_wfile \<Rightarrow> 'w \<Rightarrow> (status \<times> posix_wfile \<times> 'w) option" where
  "Close os t f w =
     do { (status, f, w) \<leftarrow> FlushBuffer os t f w;
          let (close_result, errno, w) = os_close os w (pw_fd f);
              status = (if close_result < 0 \<and> status = OK then PosixError os (pw_filename f) errno
                        else status)
          in Some (status, f\<lparr>pw_fd := -1\<rparr>, w) }"

definition Flush ::
  "('w, 'z) os_calls_scheme \<Rightarrow> nat \<Rightarrow> posix_wfile \<Rightarrow> 'w \<Rightarrow> (status \<times> posix_wfile \<times> 'w) option" where
  "Flush os t f w = FlushBuffer os t f w"

text \<open>The destructor: it closes the file if needed and frees the buffer of the current thread,
  which must exist.\<close>

definition delete_PosixWritableFile ::
  "('w, 'z) os_calls_scheme \<Rightarrow> nat \<Rightarrow> posix_wfile \<Rightarrow> 'w \<Rightarrow> (posix_wfile \<times> 'w) option" where
  "delete_PosixWritableFile os t f w =
     do { (f, w) \<leftarrow> (if pw_fd f \<ge> 0 then map_option snd (Close os t f w) else Some (f, w));
          if pw_bufs f t = None then None
          else Some (f\<lparr>pw_bufs := (pw_bufs f)(t := None)\<rparr>, w) }"

definition SyncFd :: "('w, 'z) os_calls_scheme \<Rightarrow> int \<Rightarrow> string \<Rightarrow> 'w \<Rightarrow> status \<times> 'w" where
  "SyncFd os fd fd_path w =
     (let (r, errno, w) = os_fsync os w fd in
      (if r = 0 then OK else PosixError os fd_path errno, w))"

definition SyncDirIfManifest :: "('w, 'z) os_calls_scheme \<Rightarrow> posix_wfile \<Rightarrow> 'w \<Rightarrow> status \<times> 'w" where
  "SyncDirIfManifest os f w =
     (if \<not> IsManifest (pw_filename f) then (OK, w)
      else let dirname = Dirname (pw_filename f); (fd, errno, w) = os_open os w dirname in
        if fd < 0 then (PosixError os dirname errno, w)
        else let (status, w) = SyncFd os fd dirname w; (_, _, w) = os_close os w fd
             in (status, w))"

definition Sync ::
  "('w, 'z) os_calls_scheme \<Rightarrow> nat \<Rightarrow> posix_wfile \<Rightarrow> 'w \<Rightarrow> (status \<times> posix_wfile \<times> 'w) option" where
  "Sync os t f w =
     (let (status, w) = SyncDirIfManifest os f w in
      if status \<noteq> OK then Some (status, f, w)
      else do {
        (status, f, w) \<leftarrow> FlushBuffer os t f w;
        if status \<noteq> OK then Some (status, f, w)
        else let (status, w) = SyncFd os (pw_fd f) (pw_filename f) w in Some (status, f, w) })"

subsection \<open>PosixSequentialFile and PosixRandomAccessFile\<close>

text \<open>
  With \<^verbatim>\<open>JL_LIBCFS\<close> the result of the read is kept in an unsigned \<^verbatim>\<open>size_t\<close>: the test for a
  negative value is never true, and a failed read yields a slice of \<^verbatim>\<open>2^64 - 1\<close> bytes at the 32 KB
  scratch buffer, which is \<^const>\<open>None\<close> here.
\<close>

partial_function (option) PosixSequentialFile_Read ::
  "bool \<Rightarrow> ('w, 'z) os_calls_scheme \<Rightarrow> int \<Rightarrow> string \<Rightarrow> nat \<Rightarrow> 'w \<Rightarrow> (status \<times> slice \<times> 'w) option" where
  "PosixSequentialFile_Read libcfs os fd filename n w =
     (case os_read os w fd n of
        (read_size, errno, bytes, w') \<Rightarrow>
          if read_size < 0 then
            if libcfs then None
            else if errno = EINTR then PosixSequentialFile_Read libcfs os fd filename n w'
            else Some (PosixError os filename errno, [], w')
          else Some (OK, take (nat read_size) bytes, w'))"

text \<open>\<^verbatim>\<open>Skip\<close> prints a message and exits, in both builds.\<close>

definition PosixSequentialFile_Skip :: "uint64 \<Rightarrow> 'w \<Rightarrow> (status \<times> 'w) option" where
  "PosixSequentialFile_Skip n w = None"

text \<open>A random-access file keeps its descriptor, or opens the file on every read.  A failed read
  throws.\<close>

definition PosixRandomAccessFile_Read ::
  "('w, 'z) os_calls_scheme \<Rightarrow> int option \<Rightarrow> string \<Rightarrow> uint64 \<Rightarrow> nat \<Rightarrow> 'w
    \<Rightarrow> (status \<times> slice \<times> 'w) option" where
  "PosixRandomAccessFile_Read os permanent_fd filename offset n w =
     (let (fd, errno, w) = (case permanent_fd of
                              Some fd \<Rightarrow> (fd, 0, w) | None \<Rightarrow> os_open os w filename) in
      if permanent_fd = None \<and> fd < 0 then Some (PosixError os filename errno, [], w)
      else let (read_size, errno, bytes, w) = os_pread os w fd n offset in
        if read_size < 0 then None
        else let (_, _, w) = (if permanent_fd = None then os_close os w fd else (0, 0, w))
             in Some (OK, take (nat read_size) bytes, w))"

definition PosixMmapReadableFile_Read ::
  "('w, 'z) os_calls_scheme \<Rightarrow> slice \<Rightarrow> string \<Rightarrow> uint64 \<Rightarrow> uint64 \<Rightarrow> status \<times> slice" where
  "PosixMmapReadableFile_Read os region filename offset n =
     (if offset + n > of_nat (length region) then (PosixError os filename EINVAL, [])
      else (OK, take (unat n) (drop (unat offset) region)))"

section \<open>What the system calls promise\<close>

text \<open>
  \<^verbatim>\<open>write(2)\<close> on a file opened by \<^verbatim>\<open>NewWritableFile\<close> or \<^verbatim>\<open>NewAppendableFile\<close>: it appends a prefix
  of the data, the length of which it returns, or fails and changes nothing.
\<close>

definition write_appends :: "('w, 'z) os_calls_scheme \<Rightarrow> int \<Rightarrow> ('w \<Rightarrow> slice) \<Rightarrow> bool" where
  "write_appends os fd content \<longleftrightarrow>
     (\<forall>w d r e w'. os_write os w fd d = (r, e, w') \<longrightarrow>
        (if r < 0 then content w' = content w
         else r \<le> int (length d) \<and> content w' = content w @ take (nat r) d))"

text \<open>
  A write is not interrupted, and does not write nothing, forever: each such call uses up some of
  a budget.
\<close>

definition write_progresses :: "('w, 'z) os_calls_scheme \<Rightarrow> int \<Rightarrow> ('w \<Rightarrow> nat) \<Rightarrow> bool" where
  "write_progresses os fd budget \<longleftrightarrow>
     (\<forall>w d r e w'. d \<noteq> [] \<longrightarrow> os_write os w fd d = (r, e, w') \<longrightarrow>
        r = 0 \<or> (r < 0 \<and> e = EINTR) \<longrightarrow> budget w' < budget w)"

section \<open>The buffer of a thread\<close>

text \<open>The bytes a thread has appended and not yet written.\<close>

definition buf_of :: "nat \<Rightarrow> posix_wfile \<Rightarrow> slice" where
  "buf_of t f = (case pw_bufs f t of None \<Rightarrow> [] | Some buf \<Rightarrow> buf)"

lemma buf_of_update [simp]:
  "buf_of t (f\<lparr>pw_bufs := (pw_bufs f)(u \<mapsto> b)\<rparr>) = (if t = u then b else buf_of t f)"
  "buf_of t (f\<lparr>pw_fd := n\<rparr>) = buf_of t f"
  by (simp_all add: buf_of_def)

lemma GetCurThreadBuf_eq:
  obtains f' where "GetCurThreadBuf t f = (buf_of t f, f')" "pw_bufs f' t = Some (buf_of t f)"
    "\<And>u. buf_of u f' = buf_of u f" "pw_fd f' = pw_fd f" "pw_filename f' = pw_filename f"
proof (cases "pw_bufs f t")
  case None
  then show ?thesis
    using that [of "f\<lparr>pw_bufs := (pw_bufs f)(t \<mapsto> [])\<rparr>"]
    by (simp add: GetCurThreadBuf_def buf_of_def [of t f])
next
  case (Some b)
  then show ?thesis using that [of f] by (simp add: GetCurThreadBuf_def buf_of_def [of t f])
qed

section \<open>Writing\<close>

lemma WriteUnbuffered_content:
  assumes "write_appends os fd content" "WriteUnbuffered os fd filename data w = Some r"
  shows "\<exists>n \<le> length data. content (snd r) = content w @ take n data \<and> (fst r = OK \<longrightarrow> n = length data)"
proof -
  let ?Q = "\<lambda>data w r. \<exists>n \<le> length data. content (snd r) = content w @ take n data \<and>
    (fst r = OK \<longrightarrow> n = length (data :: slice))"
  let ?P = "\<lambda>os fd filename data w r. write_appends os fd content \<longrightarrow> ?Q data w r"
  have "?P os fd filename data w r"
  proof (rule WriteUnbuffered.raw_induct [where P = ?P, OF _ assms(2)], intro impI, goal_cases)
    case (1 W os fd filename data w r)
    note IH = 1(1) [rule_format, OF _ 1(3)] and R = 1(2) and ok = 1(3)
    show ?case
    proof (cases "data = []")
      case False
      obtain k e w' where wr: "os_write os w fd data = (k, e, w')" by (metis surj_pair)
      note law = ok [unfolded write_appends_def, rule_format, OF wr]
      consider "k < 0" "e = EINTR" | "k < 0" "e \<noteq> EINTR" | "k \<ge> 0" by linarith
      then show ?thesis
      proof cases
        case 1
        then have "?Q data w' r" using R False wr by (intro IH) simp
        then show ?thesis using law 1 by simp
      next
        case 2
        then have r: "r = (PosixError os filename e, w')" using R False wr by simp
        then show ?thesis using law 2 by (intro exI [of _ 0]) (simp add: PosixError_def)
      next
        case 3
        then have "?Q (drop (nat k) data) w' r" using R False wr by (intro IH) simp
        then obtain n where n: "n \<le> length data - nat k"
          "content (snd r) = content w' @ take n (drop (nat k) data)"
          "fst r = OK \<longrightarrow> n = length data - nat k" by auto
        have "nat k \<le> length data" using law 3 by (simp add: nat_le_iff)
        then show ?thesis using n law 3
          by (intro exI [of _ "nat k + n"]) (auto simp: take_add)
      qed
    qed (use R in auto)
  qed
  then show ?thesis using assms(1) by blast
qed

lemma FlushBuffer_OK:
  assumes "write_appends os (pw_fd f) content" "FlushBuffer os t f w = Some (OK, f', w')"
  shows "content w' = content w @ buf_of t f" "buf_of t f' = []" "pw_fd f' = pw_fd f"
    "\<And>u. u \<noteq> t \<Longrightarrow> buf_of u f' = buf_of u f"
proof -
  obtain f1 where f1: "GetCurThreadBuf t f = (buf_of t f, f1)" "pw_fd f1 = pw_fd f"
    "\<And>u. buf_of u f1 = buf_of u f" using GetCurThreadBuf_eq by metis
  have wr: "WriteUnbuffered os (pw_fd f) (pw_filename f1) (buf_of t f) w = Some (OK, w')"
    and f': "f' = f1\<lparr>pw_bufs := (pw_bufs f1)(t \<mapsto> [])\<rparr>"
    using assms(2) f1 by (auto simp: FlushBuffer_def bind_eq_Some_conv)
  show "content w' = content w @ buf_of t f" using WriteUnbuffered_content [OF assms(1) wr] by auto
  show "buf_of t f' = []" "pw_fd f' = pw_fd f" "\<And>u. u \<noteq> t \<Longrightarrow> buf_of u f' = buf_of u f"
    by (simp_all add: f' f1)
qed

lemma Append_overflow_OK:
  assumes "write_appends os (pw_fd f) content"
    and "Append_overflow libcfs os t f data w = Some (OK, f', w')"
  shows "content w' @ buf_of t f' = content w @ buf_of t f @ data"
    "length (buf_of t f') \<le> kWritableFileBufferSize" "pw_fd f' = pw_fd f"
    "\<And>u. u \<noteq> t \<Longrightarrow> buf_of u f' = buf_of u f"
proof -
  obtain s f1 w1 where F: "FlushBuffer os t f w = Some (s, f1, w1)"
    using assms(2) by (auto simp: Append_overflow_def bind_eq_Some_conv)
  moreover from this have "s = OK" using assms(2) by (auto simp: Append_overflow_def split: if_splits)
  ultimately have F: "FlushBuffer os t f w = Some (OK, f1, w1)" by simp
  note flush = FlushBuffer_OK [OF assms(1) F]
  have "(f' = f1\<lparr>pw_bufs := (pw_bufs f1)(t \<mapsto> data)\<rparr> \<and> w' = w1 \<and> length data < kWritableFileBufferSize)
    \<or> (f' = f1 \<and> content w' = content w1 @ data)"
    using assms(2) F WriteUnbuffered_content [of os "pw_fd f1" content] assms(1) flush
    by (fastforce simp: Append_overflow_def bind_eq_Some_conv split: if_splits)
  then show "content w' @ buf_of t f' = content w @ buf_of t f @ data"
    "length (buf_of t f') \<le> kWritableFileBufferSize" "pw_fd f' = pw_fd f"
    "\<And>u. u \<noteq> t \<Longrightarrow> buf_of u f' = buf_of u f"
    using flush by auto
qed

lemma Append_split:
  obtains f1 n where "n \<le> length data"
    "Append libcfs os t f data w = (if n = length data then Some (OK, f1, w)
       else Append_overflow libcfs os t f1 (drop n data) w)"
    "buf_of t f1 = buf_of t f @ take n data" "pw_fd f1 = pw_fd f"
    "n = min (length data) (kWritableFileBufferSize - length (buf_of t f))"
    "\<And>u. u \<noteq> t \<Longrightarrow> buf_of u f1 = buf_of u f"
proof -
  obtain f1 where f1: "GetCurThreadBuf t f = (buf_of t f, f1)" "pw_fd f1 = pw_fd f"
    "\<And>u. buf_of u f1 = buf_of u f" using GetCurThreadBuf_eq by metis
  define n where "n = min (length data) (kWritableFileBufferSize - length (buf_of t f))"
  let ?f2 = "f1\<lparr>pw_bufs := (pw_bufs f1)(t \<mapsto> buf_of t f @ take n data)\<rparr>"
  have "Append libcfs os t f data w = (if n = length data then Some (OK, ?f2, w)
       else Append_overflow libcfs os t ?f2 (drop n data) w)"
    by (auto simp: Append_def Let_def f1 n_def min_def)
  then show ?thesis using that [of n ?f2] f1 by (auto simp: n_def)
qed

lemma Append_OK:
  assumes "write_appends os (pw_fd f) content" "Append libcfs os t f data w = Some (OK, f', w')"
    and "length (buf_of t f) \<le> kWritableFileBufferSize"
  shows "content w' @ buf_of t f' = content w @ buf_of t f @ data"
    "length (buf_of t f') \<le> kWritableFileBufferSize" "pw_fd f' = pw_fd f"
    "\<And>u. u \<noteq> t \<Longrightarrow> buf_of u f' = buf_of u f"
proof -
  obtain f1 n where A: "n \<le> length data"
    "Append libcfs os t f data w = (if n = length data then Some (OK, f1, w)
       else Append_overflow libcfs os t f1 (drop n data) w)"
    "buf_of t f1 = buf_of t f @ take n data" "pw_fd f1 = pw_fd f"
    "n = min (length data) (kWritableFileBufferSize - length (buf_of t f))"
    "\<And>u. u \<noteq> t \<Longrightarrow> buf_of u f1 = buf_of u f"
    using Append_split [of data libcfs os t f w] by blast
  have "content w' @ buf_of t f' = content w @ buf_of t f @ data
    \<and> length (buf_of t f') \<le> kWritableFileBufferSize \<and> pw_fd f' = pw_fd f
    \<and> (\<forall>u. u \<noteq> t \<longrightarrow> buf_of u f' = buf_of u f)"
  proof (cases "n = length data")
    case True
    then have "f' = f1" "w' = w" using assms(2) A(2) by simp_all
    then show ?thesis using A(3-6) True assms(3) by (simp add: min_def split: if_splits)
  next
    case False
    then have R: "Append_overflow libcfs os t f1 (drop n data) w = Some (OK, f', w')"
      using assms(2) A(2) by simp
    show ?thesis using Append_overflow_OK [OF _ R] assms(1) A(3,4,6) by simp
  qed
  then show "content w' @ buf_of t f' = content w @ buf_of t f @ data"
    "length (buf_of t f') \<le> kWritableFileBufferSize" "pw_fd f' = pw_fd f"
    "\<And>u. u \<noteq> t \<Longrightarrow> buf_of u f' = buf_of u f" by blast+
qed

text \<open>Data that fits the buffer is never refused.\<close>

lemma Append_fits:
  assumes "length (buf_of t f) + length data \<le> kWritableFileBufferSize"
  shows "\<exists>f'. Append libcfs os t f data w = Some (OK, f', w)"
  using Append_split [of data libcfs os t f w] assms by (metis le_diff_conv2 min.absorb1 add.commute add_leD1)

section \<open>The operations return\<close>

lemma WriteUnbuffered_returns:
  assumes "write_progresses os fd budget"
  shows "\<exists>r. WriteUnbuffered os fd filename data w = Some r"
proof (induction "(length data, budget w)" arbitrary: data w rule: wf_induct_rule [OF wf_lex_prod [OF wf_less wf_less]])
  case (1 data w)
  show ?case
  proof (cases "data = []")
    case False
    obtain k e w' where wr: "os_write os w fd data = (k, e, w')" by (metis surj_pair)
    note law = assms [unfolded write_progresses_def, rule_format, OF False wr]
    consider "k < 0" "e = EINTR" | "k < 0" "e \<noteq> EINTR" | "k \<ge> 0" by linarith
    then show ?thesis
    proof cases
      case 1
      then have "\<exists>r. WriteUnbuffered os fd filename data w' = Some r" using law by (intro "1.hyps") simp
      then show ?thesis using False wr 1 by (subst WriteUnbuffered.simps) simp
    next
      case 2
      then show ?thesis using False wr by (subst WriteUnbuffered.simps) simp
    next
      case 3
      have "\<exists>r. WriteUnbuffered os fd filename (drop (nat k) data) w' = Some r"
        using law 3 False by (intro "1.hyps", cases "k = 0") auto
      then show ?thesis using False wr 3 by (subst WriteUnbuffered.simps) simp
    qed
  qed (subst WriteUnbuffered.simps, simp)
qed

lemma FlushBuffer_returns:
  assumes "write_progresses os (pw_fd f) budget"
  shows "\<exists>s f' w'. FlushBuffer os t f w = Some (s, f', w') \<and> pw_fd f' = pw_fd f"
proof -
  obtain f1 where f1: "GetCurThreadBuf t f = (buf_of t f, f1)" "pw_fd f1 = pw_fd f"
    using GetCurThreadBuf_eq by metis
  obtain s w' where "WriteUnbuffered os (pw_fd f) (pw_filename f1) (buf_of t f) w = Some (s, w')"
    using WriteUnbuffered_returns [OF assms] by (metis surj_pair)
  then show ?thesis using f1 by (simp add: FlushBuffer_def)
qed

lemma Append_returns:
  assumes "write_progresses os (pw_fd f) budget"
  shows "\<exists>r. Append False os t f data w = Some r"
proof -
  obtain f1 n where A: "Append False os t f data w = (if n = length data then Some (OK, f1, w)
       else Append_overflow False os t f1 (drop n data) w)" "pw_fd f1 = pw_fd f"
    using Append_split [of data False os t f w] by blast
  obtain s f2 w2 where F: "FlushBuffer os t f1 w = Some (s, f2, w2)" "pw_fd f2 = pw_fd f"
    using FlushBuffer_returns [of os f1 budget t w] assms A(2) by auto
  obtain s' w3 where "WriteUnbuffered os (pw_fd f) (pw_filename f2) (drop n data) w2 = Some (s', w3)"
    using WriteUnbuffered_returns [OF assms] by (metis surj_pair)
  then show ?thesis using A F by (auto simp: Append_overflow_def)
qed

section \<open>The contract of a writable file\<close>

text \<open>
  What a client of \<^verbatim>\<open>WritableFile\<close> relies on.  The view of a file is what has been appended to it
  so far; the pending bytes are the part of it that is still in memory.
\<close>

locale writable_file =
  fixes append :: "'s \<Rightarrow> slice \<Rightarrow> (status \<times> 's) option"
    and flush :: "'s \<Rightarrow> (status \<times> 's) option"
    and valid :: "'s \<Rightarrow> bool"
    and view pending :: "'s \<Rightarrow> slice"
  assumes append_OK: "valid s \<Longrightarrow> append s d = Some (OK, s') \<Longrightarrow> valid s' \<and> view s' = view s @ d"
    and flush_OK: "valid s \<Longrightarrow> flush s = Some (OK, s') \<Longrightarrow> valid s' \<and> view s' = view s \<and> pending s' = []"
    and append_small: "valid s \<Longrightarrow> pending s = [] \<Longrightarrow> length d \<le> 6 \<Longrightarrow> \<exists>s'. append s d = Some (OK, s')"

abbreviation posix_append where
  "posix_append libcfs os t \<equiv> (\<lambda>(f, w) d. Append libcfs os t f d w)"

abbreviation posix_flush where
  "posix_flush os t \<equiv> (\<lambda>(f, w). Flush os t f w)"

definition posix_valid :: "int \<Rightarrow> nat \<Rightarrow> posix_wfile \<times> 'w \<Rightarrow> bool" where
  "posix_valid fd t = (\<lambda>(f, w). pw_fd f = fd \<and> length (buf_of t f) \<le> kWritableFileBufferSize)"

definition posix_view :: "('w \<Rightarrow> slice) \<Rightarrow> nat \<Rightarrow> posix_wfile \<times> 'w \<Rightarrow> slice" where
  "posix_view content t = (\<lambda>(f, w). content w @ buf_of t f)"

definition posix_pending :: "nat \<Rightarrow> posix_wfile \<times> 'w \<Rightarrow> slice" where
  "posix_pending t = (\<lambda>(f, w). buf_of t f)"

lemmas posix_file_defs = posix_valid_def posix_view_def posix_pending_def

lemma posix_writable_file:
  fixes os :: "('w, 'z) os_calls_scheme"
  assumes "write_appends os fd content"
  shows "writable_file (posix_append libcfs os t) (posix_flush os t) (posix_valid fd t)
           (posix_view content t) (posix_pending t)"
proof
  fix s s' :: "posix_wfile \<times> 'w" and d
  obtain f w where s: "s = (f, w)" by (cases s)
  obtain f' w' where s': "s' = (f', w')" by (cases s')
  show "posix_valid fd t s' \<and> posix_view content t s' = posix_view content t s @ d"
    if "posix_valid fd t s" "posix_append libcfs os t s d = Some (OK, s')"
    using Append_OK [of os f content libcfs t d w f' w'] assms that
    by (simp add: s s' posix_file_defs)
  show "posix_valid fd t s' \<and> posix_view content t s' = posix_view content t s \<and> posix_pending t s' = []"
    if "posix_valid fd t s" "posix_flush os t s = Some (OK, s')"
    using FlushBuffer_OK [of os f content t w f' w'] assms that
    by (simp add: s s' posix_file_defs Flush_def)
  show "\<exists>s'. posix_append libcfs os t s d = Some (OK, s')"
    if "posix_valid fd t s" "posix_pending t s = []" "length d \<le> 6"
    using Append_fits [of t f d libcfs os w] that
    by (auto simp: s posix_file_defs kWritableFileBufferSize_def)
qed

text \<open>A system whose files are lists of bytes and whose calls succeed.\<close>

definition plain_os :: "slice os_calls" where
  "plain_os = \<lparr>os_write = (\<lambda>w fd d. (int (length d), 0, w @ d)),
     os_read = (\<lambda>w fd n. (int (min n (length w)), 0, take n w, drop n w)),
     os_pread = (\<lambda>w fd n off. (int (length (take n (drop (unat off) w))), 0, take n (drop (unat off) w), w)),
     os_open = (\<lambda>w p. (3, 0, w)), os_close = (\<lambda>w fd. (0, 0, w)), os_fsync = (\<lambda>w fd. (0, 0, w)),
     os_strerror = (\<lambda>e. ''error'')\<rparr>"

lemma plain_os_appends: "write_appends plain_os fd (\<lambda>w. w)"
  by (auto simp: write_appends_def plain_os_def)

lemma plain_os_progresses: "write_progresses plain_os fd (\<lambda>w. 0)"
  by (auto simp: write_progresses_def plain_os_def)

interpretation pwf: writable_file "posix_append libcfs plain_os t" "posix_flush plain_os t"
    "posix_valid fd t" "posix_view (\<lambda>w. w) t" "posix_pending t" for libcfs t fd
  by (rule posix_writable_file [OF plain_os_appends])

section \<open>Properties\<close>



text \<open>A thread that appends a list of strings, stopping at the first failure.\<close>

fun append_all :: "bool \<Rightarrow> ('w, 'z) os_calls_scheme \<Rightarrow> nat \<Rightarrow> posix_wfile \<Rightarrow> slice list \<Rightarrow> 'w
    \<Rightarrow> (status \<times> posix_wfile \<times> 'w) option" where
  "append_all libcfs os t f [] w = Some (OK, f, w)"
| "append_all libcfs os t f (d # ds) w =
     do { (status, f, w) \<leftarrow> Append libcfs os t f d w;
          if status = OK then append_all libcfs os t f ds w else Some (status, f, w) }"

lemma append_all_view:
  assumes "write_appends os fd content" "append_all libcfs os t f ds w = Some (OK, f', w')"
    and "posix_valid fd t (f, w)"
  shows "posix_valid fd t (f', w') \<and> posix_view content t (f', w') = posix_view content t (f, w) @ concat ds"
  using assms(2,3)
proof (induction ds arbitrary: f w)
  case (Cons d ds)
  then obtain f1 w1 where A: "Append libcfs os t f d w = Some (OK, f1, w1)"
    "append_all libcfs os t f1 ds w1 = Some (OK, f', w')"
    by (auto simp: bind_eq_Some_conv split: if_splits)
  have "posix_valid fd t (f1, w1) \<and> posix_view content t (f1, w1) = posix_view content t (f, w) @ d"
    using writable_file.append_OK [OF posix_writable_file [OF assms(1)], of t "(f, w)" libcfs d "(f1, w1)"]
      A(1) Cons.prems by simp
  then show ?case using Cons.IH [OF A(2)] by simp
qed simp

text \<open>C31: One thread that appends to a \<^verbatim>\<open>PosixWritableFile\<close> and then closes it, every call
  reporting success, has written to the file exactly the bytes it appended, in order, after what
  was there before, whatever the sizes are and however the system splits the writes.\<close>

theorem posix_file_writes_all:
  assumes "write_appends os fd content"
    and "append_all libcfs os t (new_PosixWritableFile filename fd) ds w = Some (OK, f', w')"
    and "Close os t f' w' = Some (OK, f'', w'')"
    and "\<And>w w' r e. os_close os w fd = (r, e, w') \<Longrightarrow> content w' = content w"
  shows "content w'' = content w @ concat ds"
proof -
  have V: "posix_valid fd t (f', w')" "content w' @ buf_of t f' = content w @ concat ds"
    using append_all_view [OF assms(1,2)]
    by (simp_all add: posix_file_defs new_PosixWritableFile_def buf_of_def)
  obtain s f1 w1 where F: "FlushBuffer os t f' w' = Some (s, f1, w1)"
    using assms(3) by (auto simp: Close_def bind_eq_Some_conv)
  obtain r e w2 where c: "os_close os w1 (pw_fd f1) = (r, e, w2)" by (metis surj_pair)
  have "s = OK" "w'' = w2" using assms(3) F c by (auto simp: Close_def PosixError_def split: if_splits)
  then have "content w1 = content w' @ buf_of t f'" "pw_fd f1 = fd"
    using FlushBuffer_OK [of os f' content t w' f1 w1] F V(1) assms(1) by (simp_all add: posix_valid_def)
  then show ?thesis using V(2) assms(4) c \<open>w'' = w2\<close> by metis
qed

theorem posix_file_writes_all_witness:
  "write_appends plain_os 3 (\<lambda>w. w) \<and>
   (\<exists>f' w' f'' w''. append_all False plain_os 7 (new_PosixWritableFile ''a'' 3) [[1, 2], [3]] [9] = Some (OK, f', w')
     \<and> Close plain_os 7 f' w' = Some (OK, f'', w'') \<and> w'' = [9, 1, 2, 3])"
proof -
  have A: "append_all False plain_os 7 (new_PosixWritableFile ''a'' 3) [[1, 2], [3]] [9]
      = Some (OK, \<lparr>pw_bufs = (\<lambda>_. None)(7 \<mapsto> [1, 2, 3]), pw_fd = 3, pw_filename = ''a''\<rparr>, [9])"
    by (simp add: Append_def GetCurThreadBuf_def new_PosixWritableFile_def kWritableFileBufferSize_def)
  have C: "Close plain_os 7 \<lparr>pw_bufs = (\<lambda>_. None)(7 \<mapsto> [1, 2, 3]), pw_fd = 3, pw_filename = ''a''\<rparr> [9]
      = Some (OK, \<lparr>pw_bufs = (\<lambda>_. None)(7 \<mapsto> []), pw_fd = -1, pw_filename = ''a''\<rparr>, [9, 1, 2, 3])"
    by (simp add: Close_def FlushBuffer_def GetCurThreadBuf_def WriteUnbuffered.simps plain_os_def)
  have "[9, 1, 2, 3] = [9] @ concat [[1, 2], [3 :: byte]]"
    by (rule posix_file_writes_all [OF plain_os_appends A C]) (simp add: plain_os_def)
  then show ?thesis using A C plain_os_appends by blast
qed


text \<open>With \<^verbatim>\<open>JL_LIBCFS\<close> a failed sequential read is never reported: the status is always OK.\<close>

lemma libcfs_read_hides_errors:
  "PosixSequentialFile_Read True os fd filename n w = Some (status, bytes, w') \<Longrightarrow> status = OK"
  by (subst (asm) PosixSequentialFile_Read.simps) (auto split: prod.splits if_splits)

end
