(* ===== verification/LDB_Block.thy ===== *)
theory LDB_Block
  imports LDB_Comparator LDB_Env
begin

text \<open>
  The blocks of a table: \<^verbatim>\<open>table/block_builder.cc\<close> writes sorted entries with shared key prefixes and
  restart points, \<^verbatim>\<open>table/block.cc\<close> walks over them and searches them.  Offsets in a block are
  natural numbers; they are 32-bit in the code, and a block is far smaller than 4 GB.  The sum that
  \<^verbatim>\<open>DecodeEntry\<close> compares with the space left is kept at 32 bits, where it can wrap around.
\<close>

section \<open>BlockBuilder\<close>

record block_builder =
  bb_buffer :: "byte list"
  bb_restarts :: "nat list"
  bb_counter :: nat
  bb_finished :: bool
  bb_last_key :: slice

definition new_BlockBuilder :: block_builder where
  "new_BlockBuilder = \<lparr>bb_buffer = [], bb_restarts = [0], bb_counter = 0, bb_finished = False, bb_last_key = []\<rparr>"

definition BlockBuilder_Reset :: "block_builder \<Rightarrow> block_builder" where
  "BlockBuilder_Reset b =
     b\<lparr>bb_buffer := [], bb_restarts := [0], bb_counter := 0, bb_finished := False, bb_last_key := []\<rparr>"

definition CurrentSizeEstimate :: "block_builder \<Rightarrow> nat" where
  "CurrentSizeEstimate b = length (bb_buffer b) + length (bb_restarts b) * 4 + 4"

definition BlockBuilder_Finish :: "block_builder \<Rightarrow> slice \<times> block_builder" where
  "BlockBuilder_Finish b =
     (let buffer = foldl (\<lambda>dst r. PutFixed32 dst (of_nat r)) (bb_buffer b) (bb_restarts b);
          buffer = PutFixed32 buffer (of_nat (length (bb_restarts b)))
      in (buffer, b\<lparr>bb_buffer := buffer, bb_finished := True\<rparr>))"

definition BlockBuilder_Add :: "nat \<Rightarrow> slice \<Rightarrow> slice \<Rightarrow> block_builder \<Rightarrow> block_builder" where
  "BlockBuilder_Add block_restart_interval key value b =
     (let (shared, restarts, counter) =
            (if bb_counter b < block_restart_interval
             then (diff_index (bb_last_key b) key, bb_restarts b, bb_counter b)
             else (0, bb_restarts b @ [length (bb_buffer b)], 0));
          non_shared = length key - shared;
          buffer = PutVarint32 (bb_buffer b) (of_nat shared);
          buffer = PutVarint32 buffer (of_nat non_shared);
          buffer = PutVarint32 buffer (of_nat (length value));
          buffer = buffer @ take non_shared (drop shared key) @ value
      in b\<lparr>bb_buffer := buffer, bb_restarts := restarts, bb_counter := counter + 1,
           bb_last_key := take shared (bb_last_key b) @ take non_shared (drop shared key)\<rparr>)"

section \<open>Block\<close>

record block =
  bk_data :: slice
  bk_restarts :: nat
  bk_num_restarts :: nat

definition NumRestarts :: "slice \<Rightarrow> nat" where
  "NumRestarts data = unat (DecodeFixed32 (drop (length data - 4) data))"

text \<open>\<^const>\<open>None\<close> is a block whose \<^verbatim>\<open>size_\<close> has been set to 0, the error marker.\<close>

definition new_Block :: "slice \<Rightarrow> block option" where
  "new_Block contents =
     (if length contents < 4 then None
      else let max_restarts_allowed = (length contents - 4) div 4 in
        if NumRestarts contents > max_restarts_allowed then None
        else Some \<lparr>bk_data = contents, bk_restarts = length contents - (1 + NumRestarts contents) * 4,
                   bk_num_restarts = NumRestarts contents\<rparr>)"

text \<open>The bytes from \<^verbatim>\<open>p\<close> to \<^verbatim>\<open>limit\<close>; the result ends with the bytes at the key delta.\<close>

definition DecodeEntry :: "byte list \<Rightarrow> (uint32 \<times> uint32 \<times> uint32 \<times> byte list) option" where
  "DecodeEntry p =
     (if length p < 3 then None
      else let shared = ucast (p ! 0); non_shared = ucast (p ! 1); value_length = ucast (p ! 2) in
        do { (shared, non_shared, value_length, p) \<leftarrow>
               (if (shared OR non_shared OR value_length) < 128
                then Some (shared, non_shared, value_length, drop 3 p)
                else do { (shared, p) \<leftarrow> GetVarint32Ptr p;
                          (non_shared, p) \<leftarrow> GetVarint32Ptr p;
                          (value_length, p) \<leftarrow> GetVarint32Ptr p;
                          Some (shared, non_shared, value_length, p) });
             if of_nat (length p) < non_shared + value_length then None
             else Some (shared, non_shared, value_length, p) })"

section \<open>Block::Iter\<close>

text \<open>\<^verbatim>\<open>it_value\<close> is the offset of the value in the block and its length.\<close>

record block_iter =
  it_current :: nat
  it_restart_index :: nat
  it_key :: slice
  it_value :: "nat \<times> nat"
  it_status :: status

datatype block_iterator = ErrorIterator status | EmptyIterator | BlockIter block block_iter

definition new_Iter :: "block \<Rightarrow> block_iter" where
  "new_Iter blk = \<lparr>it_current = bk_restarts blk, it_restart_index = bk_num_restarts blk, it_key = [],
     it_value = (0, 0), it_status = OK\<rparr>"

definition NewIterator :: "slice \<Rightarrow> block_iterator" where
  "NewIterator contents =
     (case new_Block contents of
        None \<Rightarrow> ErrorIterator (Corruption ''bad block contents'' '''')
      | Some blk \<Rightarrow> if bk_num_restarts blk = 0 then EmptyIterator else BlockIter blk (new_Iter blk))"

definition NextEntryOffset :: "block_iter \<Rightarrow> nat" where
  "NextEntryOffset it = fst (it_value it) + snd (it_value it)"

definition GetRestartPoint :: "block \<Rightarrow> nat \<Rightarrow> nat" where
  "GetRestartPoint blk index = unat (DecodeFixed32 (drop (bk_restarts blk + index * 4) (bk_data blk)))"

definition SeekToRestartPoint :: "block \<Rightarrow> nat \<Rightarrow> block_iter \<Rightarrow> block_iter" where
  "SeekToRestartPoint blk index it =
     it\<lparr>it_key := [], it_restart_index := index, it_value := (GetRestartPoint blk index, 0)\<rparr>"

definition Iter_Valid :: "block \<Rightarrow> block_iter \<Rightarrow> bool" where
  "Iter_Valid blk it \<longleftrightarrow> it_current it < bk_restarts blk"

definition Iter_value :: "block \<Rightarrow> block_iter \<Rightarrow> slice" where
  "Iter_value blk it = take (snd (it_value it)) (drop (fst (it_value it)) (bk_data blk))"

text \<open>The cleared value points elsewhere; the iterator is not valid and its value is not used.\<close>

definition CorruptionError :: "block \<Rightarrow> block_iter \<Rightarrow> block_iter" where
  "CorruptionError blk it =
     it\<lparr>it_current := bk_restarts blk, it_restart_index := bk_num_restarts blk,
        it_status := Corruption ''bad entry in block'' '''', it_key := [], it_value := (0, 0)\<rparr>"

function advance_restart :: "block \<Rightarrow> nat \<Rightarrow> nat \<Rightarrow> nat" where
  "advance_restart blk current i =
     (if i + 1 < bk_num_restarts blk \<and> GetRestartPoint blk (i + 1) < current
      then advance_restart blk current (i + 1) else i)"
  by pat_completeness auto
termination
  by (relation "measure (\<lambda>(blk, c, i). bk_num_restarts blk - i)") auto

declare advance_restart.simps [simp del]

definition ParseNextKey :: "block \<Rightarrow> block_iter \<Rightarrow> bool \<times> block_iter" where
  "ParseNextKey blk it =
     (let current = NextEntryOffset it; it = it\<lparr>it_current := current\<rparr> in
      if current \<ge> bk_restarts blk then
        (False, it\<lparr>it_current := bk_restarts blk, it_restart_index := bk_num_restarts blk\<rparr>)
      else case DecodeEntry (drop current (take (bk_restarts blk) (bk_data blk))) of
        None \<Rightarrow> (False, CorruptionError blk it)
      | Some (shared, non_shared, value_length, p) \<Rightarrow>
          if length (it_key it) < unat shared then (False, CorruptionError blk it)
          else (True, it\<lparr>it_key := take (unat shared) (it_key it) @ take (unat non_shared) p,
                         it_value := (bk_restarts blk - length p + unat non_shared, unat value_length),
                         it_restart_index := advance_restart blk current (it_restart_index it)\<rparr>))"

definition Iter_Next :: "block \<Rightarrow> block_iter \<Rightarrow> block_iter" where
  "Iter_Next blk it = snd (ParseNextKey blk it)"

text \<open>The loop \<^verbatim>\<open>while (ParseNextKey() && NextEntryOffset() < limit)\<close> of \<^verbatim>\<open>Prev\<close> and \<^verbatim>\<open>SeekToLast\<close>.\<close>

partial_function (option) skip_entries :: "block \<Rightarrow> nat \<Rightarrow> block_iter \<Rightarrow> block_iter option" where
  "skip_entries blk limit it =
     (case ParseNextKey blk it of
        (ok, it') \<Rightarrow>
          if ok \<and> NextEntryOffset it' < limit then skip_entries blk limit it' else Some it')"

text \<open>The backward scan of \<^verbatim>\<open>Prev\<close> for a restart point before the current entry.\<close>

fun scan_restarts :: "block \<Rightarrow> nat \<Rightarrow> nat \<Rightarrow> nat option" where
  "scan_restarts blk original 0 = (if GetRestartPoint blk 0 \<ge> original then None else Some 0)"
| "scan_restarts blk original (Suc i) =
     (if GetRestartPoint blk (Suc i) \<ge> original then scan_restarts blk original i else Some (Suc i))"

definition Iter_Prev :: "block \<Rightarrow> block_iter \<Rightarrow> block_iter option" where
  "Iter_Prev blk it =
     (let original = it_current it in
      case scan_restarts blk original (it_restart_index it) of
        None \<Rightarrow> Some (it\<lparr>it_current := bk_restarts blk, it_restart_index := bk_num_restarts blk\<rparr>)
      | Some index \<Rightarrow> skip_entries blk original (SeekToRestartPoint blk index it))"

text \<open>Binary search in the restart array; \<^const>\<open>None\<close> for a corrupted entry.\<close>

function seek_restart :: "comparator \<Rightarrow> block \<Rightarrow> slice \<Rightarrow> nat \<Rightarrow> nat \<Rightarrow> nat option" where
  "seek_restart c blk target left right =
     (if left < right then
        let mid = (left + right + 1) div 2; region_offset = GetRestartPoint blk mid in
        case DecodeEntry (drop region_offset (take (bk_restarts blk) (bk_data blk))) of
          None \<Rightarrow> None
        | Some (shared, non_shared, value_length, key_ptr) \<Rightarrow>
            if shared \<noteq> 0 then None
            else if Compare c (take (unat non_shared) key_ptr) target < 0
            then seek_restart c blk target mid right
            else seek_restart c blk target left (mid - 1)
      else Some left)"
  by pat_completeness auto
termination
  by (relation "measure (\<lambda>(c, blk, t, l, r). r - l)") auto

declare seek_restart.simps [simp del]

partial_function (option) seek_linear :: "comparator \<Rightarrow> block \<Rightarrow> slice \<Rightarrow> block_iter \<Rightarrow> block_iter option" where
  "seek_linear c blk target it =
     (case ParseNextKey blk it of
        (ok, it') \<Rightarrow>
          if \<not> ok then Some it'
          else if Compare c (it_key it') target \<ge> 0 then Some it'
          else seek_linear c blk target it')"

definition Iter_Seek :: "comparator \<Rightarrow> block \<Rightarrow> slice \<Rightarrow> block_iter \<Rightarrow> block_iter option" where
  "Iter_Seek c blk target it =
     (case seek_restart c blk target 0 (bk_num_restarts blk - 1) of
        None \<Rightarrow> Some (CorruptionError blk it)
      | Some left \<Rightarrow> seek_linear c blk target (SeekToRestartPoint blk left it))"

definition Iter_SeekToFirst :: "block \<Rightarrow> block_iter \<Rightarrow> block_iter" where
  "Iter_SeekToFirst blk it = snd (ParseNextKey blk (SeekToRestartPoint blk 0 it))"

definition Iter_SeekToLast :: "block \<Rightarrow> block_iter \<Rightarrow> block_iter option" where
  "Iter_SeekToLast blk it =
     skip_entries blk (bk_restarts blk) (SeekToRestartPoint blk (bk_num_restarts blk - 1) it)"

end
