(* ===== verification/LDB_Filter.thy ===== *)
theory LDB_Filter
  imports LDB_Comparator
begin

text \<open>
  Filters: the hash function of \<^verbatim>\<open>util/hash.cc\<close>, the Bloom filters of \<^verbatim>\<open>util/bloom.cc\<close>, their use on
  internal keys (\<^verbatim>\<open>InternalFilterPolicy\<close> of \<^verbatim>\<open>db/dbformat.cc\<close>) and the filter block of a table
  (\<^verbatim>\<open>table/filter_block.cc\<close>), which holds a filter for every 2 KB of the file.  A filter may say that
  a key is there when it is not, never the other way round.
\<close>

section \<open>Definitions\<close>

subsection \<open>Hash\<close>

definition hash_m :: uint32 where "hash_m = 0xc6a4a793"

fun hash_words :: "uint32 \<Rightarrow> byte list \<Rightarrow> uint32 \<times> byte list" where
  "hash_words h (a # b # c # d # data) =
     (let h = (h + DecodeFixed32 [a, b, c, d]) * hash_m in hash_words (h XOR drop_bit 16 h) data)"
| "hash_words h data = (h, data)"

definition Hash :: "byte list \<Rightarrow> uint32 \<Rightarrow> uint32" where
  "Hash data seed =
     (let h = seed XOR (of_nat (length data) * hash_m);
          (h, data) = hash_words h data;
          h = (if length data = 3 then h + push_bit 16 (ucast (data ! 2)) else h);
          h = (if length data \<ge> 2 then h + push_bit 8 (ucast (data ! 1)) else h)
      in if length data \<ge> 1
         then let h = (h + ucast (data ! 0)) * hash_m in h XOR drop_bit 24 h
         else h)"

subsection \<open>Bloom filters\<close>

text \<open>\<^verbatim>\<open>FilterPolicy\<close>; \<^verbatim>\<open>CreateFilter\<close> appends the filter to a string.\<close>

record filter_policy =
  policy_Name :: string
  CreateFilter :: "slice list \<Rightarrow> slice \<Rightarrow> slice"
  KeyMayMatch :: "slice \<Rightarrow> slice \<Rightarrow> bool"

definition BloomHash :: "slice \<Rightarrow> uint32" where
  "BloomHash key = Hash key 0xbc9f1d34"

text \<open>
  The number of probes, \<^verbatim>\<open>bits_per_key * 0.69\<close> rounded down and kept between 1 and 30.  The code
  multiplies in floating point.  Below the bound of 30, for up to 43 bits, no product but that of 0 is
  an integer, so that the rounding of the multiplication does not change the result.
\<close>

definition bloom_k :: "nat \<Rightarrow> nat" where
  "bloom_k bits_per_key = (let k = bits_per_key * 69 div 100 in if k < 1 then 1 else if k > 30 then 30 else k)"

definition bloom_delta :: "uint32 \<Rightarrow> uint32" where
  "bloom_delta h = drop_bit 17 h OR push_bit 15 h"

fun bloom_add :: "nat \<Rightarrow> nat \<Rightarrow> uint32 \<Rightarrow> uint32 \<Rightarrow> byte list \<Rightarrow> byte list" where
  "bloom_add bits 0 delta h array = array"
| "bloom_add bits (Suc k) delta h array =
     (let bitpos = unat h mod bits in
      bloom_add bits k delta (h + delta)
        (array[bitpos div 8 := array ! (bitpos div 8) OR push_bit (bitpos mod 8) 1]))"

definition bloom_CreateFilter :: "nat \<Rightarrow> slice list \<Rightarrow> slice \<Rightarrow> slice" where
  "bloom_CreateFilter bits_per_key keys dst =
     (let bits = length keys * bits_per_key;
          bits = (if bits < 64 then 64 else bits);
          bytes = (bits + 7) div 8;
          bits = bytes * 8;
          array = foldl (\<lambda>array key. let h = BloomHash key in
                           bloom_add bits (bloom_k bits_per_key) (bloom_delta h) h array)
                    (replicate bytes 0) keys
      in dst @ array @ [of_nat (bloom_k bits_per_key)])"

fun bloom_probe :: "nat \<Rightarrow> nat \<Rightarrow> uint32 \<Rightarrow> uint32 \<Rightarrow> byte list \<Rightarrow> bool" where
  "bloom_probe bits 0 delta h array \<longleftrightarrow> True"
| "bloom_probe bits (Suc k) delta h array \<longleftrightarrow>
     (let bitpos = unat h mod bits in
      if array ! (bitpos div 8) AND push_bit (bitpos mod 8) 1 = 0 then False
      else bloom_probe bits k delta (h + delta) array)"

text \<open>The last byte is a signed \<^verbatim>\<open>char\<close>; one above 127 becomes a huge \<^verbatim>\<open>size_t\<close>, more than 30 either way.\<close>

definition bloom_KeyMayMatch :: "slice \<Rightarrow> slice \<Rightarrow> bool" where
  "bloom_KeyMayMatch key bloom_filter =
     (let len = length bloom_filter in
      if len < 2 then False
      else let bits = (len - 1) * 8; k = unat (bloom_filter ! (len - 1)) in
        if k > 30 then True
        else let h = BloomHash key in bloom_probe bits k (bloom_delta h) h bloom_filter)"

definition NewBloomFilterPolicy :: "nat \<Rightarrow> filter_policy" where
  "NewBloomFilterPolicy bits_per_key = \<lparr>policy_Name = ''leveldb.BuiltinBloomFilter2'',
     CreateFilter = bloom_CreateFilter bits_per_key, KeyMayMatch = bloom_KeyMayMatch\<rparr>"

definition InternalFilterPolicy :: "filter_policy \<Rightarrow> filter_policy" where
  "InternalFilterPolicy user_policy = \<lparr>policy_Name = policy_Name user_policy,
     CreateFilter = (\<lambda>keys. CreateFilter user_policy (map ExtractUserKey keys)),
     KeyMayMatch = (\<lambda>key. KeyMayMatch user_policy (ExtractUserKey key))\<rparr>"

subsection \<open>Filter blocks\<close>

definition kFilterBaseLg :: nat where "kFilterBaseLg = 11"
definition kFilterBase :: nat where "kFilterBase = 2 ^ kFilterBaseLg"

record filter_builder =
  fb_keys :: slice
  fb_start :: "nat list"
  fb_result :: slice
  fb_offsets :: "nat list"

definition new_FilterBlockBuilder :: filter_builder where
  "new_FilterBlockBuilder = \<lparr>fb_keys = [], fb_start = [], fb_result = [], fb_offsets = []\<rparr>"

definition GenerateFilter :: "filter_policy \<Rightarrow> filter_builder \<Rightarrow> filter_builder" where
  "GenerateFilter policy b =
     (let num_keys = length (fb_start b); b' = b\<lparr>fb_offsets := fb_offsets b @ [length (fb_result b)]\<rparr> in
      if num_keys = 0 then b'
      else let start = fb_start b @ [length (fb_keys b)];
               tmp_keys = map (\<lambda>i. take (start ! (i + 1) - start ! i) (drop (start ! i) (fb_keys b))) [0..<num_keys]
           in b'\<lparr>fb_result := CreateFilter policy tmp_keys (fb_result b), fb_keys := [], fb_start := []\<rparr>)"

lemma GenerateFilter_offsets [simp]: "length (fb_offsets (GenerateFilter policy b)) = Suc (length (fb_offsets b))"
  by (simp add: GenerateFilter_def Let_def)

function generate_filters :: "filter_policy \<Rightarrow> nat \<Rightarrow> filter_builder \<Rightarrow> filter_builder" where
  "generate_filters policy filter_index b =
     (if filter_index > length (fb_offsets b) then generate_filters policy filter_index (GenerateFilter policy b) else b)"
  by pat_completeness auto
termination
  by (relation "measure (\<lambda>(p, i, b). i - length (fb_offsets b))") auto

declare generate_filters.simps [simp del]

definition StartBlock :: "filter_policy \<Rightarrow> uint64 \<Rightarrow> filter_builder \<Rightarrow> filter_builder" where
  "StartBlock policy block_offset b = generate_filters policy (unat block_offset div kFilterBase) b"

definition AddKey :: "slice \<Rightarrow> filter_builder \<Rightarrow> filter_builder" where
  "AddKey key b = b\<lparr>fb_start := fb_start b @ [length (fb_keys b)], fb_keys := fb_keys b @ key\<rparr>"

definition FilterBlock_Finish :: "filter_policy \<Rightarrow> filter_builder \<Rightarrow> slice \<times> filter_builder" where
  "FilterBlock_Finish policy b =
     (let b = (if fb_start b \<noteq> [] then GenerateFilter policy b else b);
          array_offset = length (fb_result b);
          result = foldl (\<lambda>dst r. PutFixed32 dst (of_nat r)) (fb_result b) (fb_offsets b);
          result = PutFixed32 result (of_nat array_offset);
          result = result @ [of_nat kFilterBaseLg]
      in (result, b\<lparr>fb_result := result\<rparr>))"

text \<open>The offset array starts at \<^verbatim>\<open>fr_offset\<close> of the contents.\<close>

record filter_reader =
  fr_data :: slice
  fr_offset :: nat
  fr_num :: nat
  fr_base_lg :: nat

definition new_FilterBlockReader :: "slice \<Rightarrow> filter_reader" where
  "new_FilterBlockReader contents =
     (let n = length contents; r = \<lparr>fr_data = [], fr_offset = 0, fr_num = 0, fr_base_lg = 0\<rparr> in
      if n < 5 then r
      else let r = r\<lparr>fr_base_lg := unat (contents ! (n - 1))\<rparr>;
               last_word = unat (DecodeFixed32 (drop (n - 5) contents))
           in if last_word > n - 5 then r
              else r\<lparr>fr_data := contents, fr_offset := last_word, fr_num := (n - 5 - last_word) div 4\<rparr>)"

definition FilterBlock_KeyMayMatch :: "filter_policy \<Rightarrow> filter_reader \<Rightarrow> uint64 \<Rightarrow> slice \<Rightarrow> bool" where
  "FilterBlock_KeyMayMatch policy r block_offset key =
     (let index = unat (drop_bit (fr_base_lg r) block_offset) in
      if index < fr_num r then
        let start = unat (DecodeFixed32 (drop (fr_offset r + index * 4) (fr_data r)));
            limit = unat (DecodeFixed32 (drop (fr_offset r + index * 4 + 4) (fr_data r)))
        in if start \<le> limit \<and> limit \<le> fr_offset r
           then KeyMayMatch policy key (take (limit - start) (drop start (fr_data r)))
           else if start = limit then False
           else True
      else True)"

section \<open>The contract of a filter policy\<close>

text \<open>
  A filter is appended to what is there, and it matches every key that is \<^verbatim>\<open>same\<close> as one of its keys.
\<close>

locale filter_contract =
  fixes policy :: filter_policy and same :: "slice \<Rightarrow> slice \<Rightarrow> bool"
  assumes filter_append: "CreateFilter policy keys dst = dst @ CreateFilter policy keys []"
    and filter_match: "k \<in> set keys \<Longrightarrow> same k key \<Longrightarrow> KeyMayMatch policy key (CreateFilter policy keys [])"

lemma bloom_add_length [simp]: "length (bloom_add bits k delta h array) = length array"
  by (induction bits k delta h array rule: bloom_add.induct) (simp_all add: Let_def)

lemma nth_or_mono:
  fixes array :: "byte list"
  assumes "bit (array ! i) n"
  shows "bit (array[j := array ! j OR x] ! i) n"
proof (cases "j < length array")
  case True
  then show ?thesis using assms by (cases "i = j") (simp_all add: bit_simps)
next
  case False
  then show ?thesis using assms by (simp add: list_update_beyond)
qed

lemma bloom_add_mono: "bit (array ! i) n \<Longrightarrow> bit (bloom_add bits k delta h array ! i) n"
proof (induction bits k delta h array rule: bloom_add.induct)
  case (2 bits k delta h array)
  then show ?case using nth_or_mono [OF 2(2)] by (simp add: Let_def)
qed simp

definition bits_set :: "nat \<Rightarrow> nat \<Rightarrow> uint32 \<Rightarrow> uint32 \<Rightarrow> byte list \<Rightarrow> bool" where
  "bits_set bits k delta h array \<longleftrightarrow> (\<forall>j < k. let bitpos = unat (h + of_nat j * delta) mod bits in
     bit (array ! (bitpos div 8)) (bitpos mod 8))"

lemma all_less_Suc_shift: "(\<forall>j < Suc k. P j) \<longleftrightarrow> P 0 \<and> (\<forall>j < k. P (Suc j))"
  using less_Suc_eq_0_disj by auto

lemma bits_set_Suc:
  "bits_set bits (Suc k) delta h array \<longleftrightarrow>
     bit (array ! (unat h mod bits div 8)) (unat h mod bits mod 8) \<and> bits_set bits k delta (h + delta) array"
  by (simp add: bits_set_def all_less_Suc_shift Let_def algebra_simps)

lemma and_bit_zero: "(x :: byte) AND push_bit n 1 = 0 \<longleftrightarrow> \<not> bit x n" if "n < 8"
  using that by (auto simp: push_bit_eq_mult and_exp_eq_0_iff_not_bit)

lemma bloom_probe_iff: "bloom_probe bits k delta h array \<longleftrightarrow> bits_set bits k delta h array"
proof (induction bits k delta h array rule: bloom_probe.induct)
  case (1 bits delta h array)
  show ?case by (simp add: bits_set_def)
next
  case (2 bits k delta h array)
  have "array ! (unat h mod bits div 8) AND push_bit (unat h mod bits mod 8) 1 = 0
      \<longleftrightarrow> \<not> bit (array ! (unat h mod bits div 8)) (unat h mod bits mod 8)"
    by (rule and_bit_zero) simp
  then show ?case using 2 by (simp only: bloom_probe.simps Let_def bits_set_Suc) simp
qed

lemma bits_set_mono: "bits_set bits k delta h array \<Longrightarrow> bits_set bits k delta h (bloom_add bits k' delta' h' array)"
  by (simp add: bits_set_def Let_def bloom_add_mono)

lemma bloom_add_sets:
  "bits = 8 * length array \<Longrightarrow> 0 < length array \<Longrightarrow> bits_set bits k delta h (bloom_add bits k delta h array)"
proof (induction bits k delta h array rule: bloom_add.induct)
  case (1 bits delta h array)
  show ?case by (simp add: bits_set_def)
next
  case (2 bits k delta h array)
  let ?p = "unat h mod bits"
  let ?array = "array[?p div 8 := array ! (?p div 8) OR push_bit (?p mod 8) 1]"
  have "?p < 8 * length array" using 2(2,3) by simp
  then have "?p div 8 < length array" by (simp add: less_mult_imp_div_less mult.commute)
  then have "bit (?array ! (?p div 8)) (?p mod 8)" by (simp add: bit_simps)
  from bloom_add_mono [OF this] 2 show ?case by (simp add: bits_set_Suc Let_def)
qed

lemma bloom_array:
  assumes "bits = 8 * length array" "0 < length array" "key \<in> set keys"
  shows "bits_set bits k (bloom_delta (BloomHash key)) (BloomHash key)
    (foldl (\<lambda>array key. let h = BloomHash key in bloom_add bits k (bloom_delta h) h array) array keys)"
  using assms
proof (induction keys rule: rev_induct)
  case (snoc x keys)
  let ?f = "\<lambda>array key. let h = BloomHash key in bloom_add bits k (bloom_delta h) h array"
  have "length (foldl ?f array keys) = length array" by (induction keys rule: rev_induct) (simp_all add: Let_def)
  then show ?case using snoc bloom_add_sets [of bits "foldl ?f array keys"]
    by (auto simp: Let_def intro: bits_set_mono)
qed simp

lemma bloom_array_length:
  "length (foldl (\<lambda>array key. let h = BloomHash key in bloom_add bits k (bloom_delta h) h array) array keys) = length array"
  by (induction keys rule: rev_induct) (simp_all add: Let_def)

lemma bits_set_append:
  assumes "bits_set bits k delta h array" "bits = 8 * length array" "0 < length array"
  shows "bits_set bits k delta h (array @ xs)"
proof -
  have "unat x mod bits div 8 < length array" for x :: uint32
    using assms(2,3) by (simp add: less_mult_imp_div_less mult.commute)
  then show ?thesis using assms(1) by (simp add: bits_set_def Let_def nth_append)
qed

lemma bloom_k_bounds: "1 \<le> bloom_k b" "bloom_k b \<le> 30"
  by (simp_all add: bloom_k_def Let_def)

lemma bloom_match:
  assumes "key \<in> set keys"
  shows "bloom_KeyMayMatch key (bloom_CreateFilter b keys [])"
proof -
  define bits0 where "bits0 = (if length keys * b < 64 then 64 else length keys * b)"
  define bytes where "bytes = (bits0 + 7) div 8"
  define array where "array = foldl (\<lambda>array key. let h = BloomHash key in
    bloom_add (bytes * 8) (bloom_k b) (bloom_delta h) h array) (replicate bytes 0) keys"
  have pos: "0 < bytes" by (auto simp: bytes_def bits0_def)
  have f: "bloom_CreateFilter b keys [] = array @ [of_nat (bloom_k b)]"
    by (simp add: bloom_CreateFilter_def Let_def array_def bytes_def bits0_def)
  have len: "length array = bytes" by (simp add: array_def bloom_array_length)
  have "bits_set (bytes * 8) (bloom_k b) (bloom_delta (BloomHash key)) (BloomHash key) array"
    unfolding array_def using pos assms by (intro bloom_array) simp_all
  from bits_set_append [OF this] have
    "bits_set (bytes * 8) (bloom_k b) (bloom_delta (BloomHash key)) (BloomHash key) (array @ [of_nat (bloom_k b)])"
    using pos len by simp
  moreover have "unat (of_nat (bloom_k b) :: byte) = bloom_k b"
    using bloom_k_bounds [of b] by (simp add: unat_of_nat take_bit_nat_eq_self)
  ultimately show ?thesis
    using pos len bloom_k_bounds [of b] by (simp add: bloom_KeyMayMatch_def Let_def f bloom_probe_iff nth_append)
qed

interpretation bloom: filter_contract "NewBloomFilterPolicy b" "(=)" for b
proof
  show "CreateFilter (NewBloomFilterPolicy b) keys dst = dst @ CreateFilter (NewBloomFilterPolicy b) keys []" for keys dst
    by (simp add: NewBloomFilterPolicy_def bloom_CreateFilter_def Let_def)
  show "k \<in> set keys \<Longrightarrow> k = key \<Longrightarrow> KeyMayMatch (NewBloomFilterPolicy b) key (CreateFilter (NewBloomFilterPolicy b) keys [])"
    for k keys key
    using bloom_match by (simp add: NewBloomFilterPolicy_def)
qed

text \<open>On internal keys the filter of a user policy matches all keys with the same user key.\<close>

lemma internal_filter_contract:
  assumes "filter_contract user_policy (=)"
  shows "filter_contract (InternalFilterPolicy user_policy) (\<lambda>k key. ExtractUserKey k = ExtractUserKey key)"
proof
  show "CreateFilter (InternalFilterPolicy user_policy) keys dst = dst @ CreateFilter (InternalFilterPolicy user_policy) keys []"
    for keys dst
    using filter_contract.filter_append [OF assms, of "map ExtractUserKey keys" dst]
    by (simp add: InternalFilterPolicy_def)
  show "k \<in> set keys \<Longrightarrow> ExtractUserKey k = ExtractUserKey key \<Longrightarrow>
    KeyMayMatch (InternalFilterPolicy user_policy) key (CreateFilter (InternalFilterPolicy user_policy) keys [])" for k keys key
    using filter_contract.filter_match [OF assms, of "ExtractUserKey k" "map ExtractUserKey keys" "ExtractUserKey key"]
      imageI [of k "set keys" ExtractUserKey] by (simp add: InternalFilterPolicy_def)
qed

interpretation internal_bloom: filter_contract "InternalFilterPolicy (NewBloomFilterPolicy b)"
    "\<lambda>k key. ExtractUserKey k = ExtractUserKey key" for b
  by (rule internal_filter_contract) (rule bloom.filter_contract_axioms)

section \<open>The filter block\<close>

abbreviation parts_offset :: "'a list list \<Rightarrow> nat \<Rightarrow> nat" where
  "parts_offset xss i \<equiv> length (concat (take i xss))"

lemma parts_offset_Suc: "i < length xss \<Longrightarrow> parts_offset xss (Suc i) = parts_offset xss i + length (xss ! i)"
  by (simp add: take_Suc_conv_app_nth)

lemma concat_part:
  assumes "i < length xss"
  shows "drop (parts_offset xss i) (concat xss @ ys) = xss ! i @ concat (drop (Suc i) xss) @ ys"
    "parts_offset xss i + length (xss ! i) \<le> length (concat xss)"
proof -
  have "concat xss = concat (take i xss) @ xss ! i @ concat (drop (Suc i) xss)"
    using arg_cong [OF id_take_nth_drop [OF assms], of concat] by simp
  then show "drop (parts_offset xss i) (concat xss @ ys) = xss ! i @ concat (drop (Suc i) xss) @ ys"
    "parts_offset xss i + length (xss ! i) \<le> length (concat xss)"
    by (simp_all del: concat_append)
qed

definition filter_of :: "filter_policy \<Rightarrow> slice list \<Rightarrow> slice" where
  "filter_of policy g = (if g = [] then [] else CreateFilter policy g [])"

text \<open>The builder has generated filters for the key lists \<^verbatim>\<open>gs\<close> and holds the keys \<^verbatim>\<open>ks\<close> of the next.\<close>

definition fb_rep :: "filter_policy \<Rightarrow> filter_builder \<Rightarrow> slice list list \<Rightarrow> slice list \<Rightarrow> bool" where
  "fb_rep policy b gs ks \<longleftrightarrow> fb_keys b = concat ks \<and> fb_start b = map (parts_offset ks) [0..<length ks]
     \<and> fb_result b = concat (map (filter_of policy) gs)
     \<and> fb_offsets b = map (parts_offset (map (filter_of policy) gs)) [0..<length gs]"

lemma fb_rep_new: "fb_rep policy new_FilterBlockBuilder [] []"
  by (simp add: fb_rep_def new_FilterBlockBuilder_def)

lemma parts_offset_append: "i \<le> length xss \<Longrightarrow> parts_offset (xss @ yss) i = parts_offset xss i"
  by simp

lemma map_parts_snoc:
  "map (parts_offset (xss @ [xs])) [0..<Suc (length xss)] = map (parts_offset xss) [0..<length xss] @ [length (concat xss)]"
  by simp

lemma AddKey_rep: "fb_rep policy b gs ks \<Longrightarrow> fb_rep policy (AddKey k b) gs (ks @ [k])"
  by (simp add: fb_rep_def AddKey_def)

lemma tmp_keys_eq:
  assumes "start = map (parts_offset ks) [0..<Suc (length ks)]"
  shows "map (\<lambda>i. take (start ! (i + 1) - start ! i) (drop (start ! i) (concat ks))) [0..<length ks] = ks"
proof (rule nth_equalityI)
  fix i assume "i < length (map (\<lambda>i. take (start ! (i + 1) - start ! i) (drop (start ! i) (concat ks))) [0..<length ks])"
  then have i: "i < length ks" by simp
  then have "start ! i = parts_offset ks i" "start ! (i + 1) = parts_offset ks i + length (ks ! i)"
    using parts_offset_Suc [OF i] by (simp_all add: assms nth_append del: upt_Suc)
  then show "map (\<lambda>i. take (start ! (i + 1) - start ! i) (drop (start ! i) (concat ks))) [0..<length ks] ! i = ks ! i"
    using concat_part(1) [OF i, of "[]"] i by simp
qed simp

context filter_contract
begin

lemma GenerateFilter_rep:
  assumes "fb_rep policy b gs ks"
  shows "fb_rep policy (GenerateFilter policy b) (gs @ [ks]) []"
proof (cases "ks = []")
  case True
  then show ?thesis using assms by (simp add: fb_rep_def GenerateFilter_def filter_of_def)
next
  case False
  define start where "start = fb_start b @ [length (fb_keys b)]"
  have st: "start = map (parts_offset ks) [0..<Suc (length ks)]" and k: "fb_keys b = concat ks" "length (fb_start b) = length ks"
    using assms by (simp_all add: start_def fb_rep_def)
  have tk: "map (\<lambda>i. take (start ! (i + 1) - start ! i) (drop (start ! i) (fb_keys b))) [0..<length (fb_start b)] = ks"
    unfolding k by (rule tmp_keys_eq [OF st])
  have "GenerateFilter policy b = b\<lparr>fb_offsets := fb_offsets b @ [length (fb_result b)],
      fb_result := CreateFilter policy ks (fb_result b), fb_keys := [], fb_start := []\<rparr>"
    using assms False by (simp only: GenerateFilter_def Let_def start_def [symmetric] tk) (simp add: fb_rep_def)
  then show ?thesis
    using assms False filter_append [of ks "fb_result b"] by (simp add: fb_rep_def filter_of_def)
qed

lemma generate_filters_rep:
  "fb_rep policy b gs ks \<Longrightarrow> \<exists>gs' ks'. fb_rep policy (generate_filters policy i b) gs' ks' \<and>
     (if length gs < i then gs' = gs @ [ks] @ replicate (i - length gs - 1) [] \<and> ks' = [] else gs' = gs \<and> ks' = ks)"
proof (induction "i - length gs" arbitrary: b gs ks)
  case 0
  then have "\<not> length gs < i" "length (fb_offsets b) = length gs" by (simp_all add: fb_rep_def)
  then show ?case using 0 by (subst generate_filters.simps) auto
next
  case (Suc d)
  then have l: "length gs < i" "length (fb_offsets b) = length gs" by (simp_all add: fb_rep_def)
  have "d = i - length (gs @ [ks])" using Suc(2) by simp
  from Suc(1) [OF this GenerateFilter_rep [OF Suc(3)]] obtain gs' ks' where
    r: "fb_rep policy (generate_filters policy i (GenerateFilter policy b)) gs' ks'"
    "if length (gs @ [ks]) < i then gs' = (gs @ [ks]) @ [[]] @ replicate (i - length (gs @ [ks]) - 1) [] \<and> ks' = []
     else gs' = gs @ [ks] \<and> ks' = []" by blast
  have "[] # replicate (i - length (gs @ [ks]) - 1) [] = replicate (i - length gs - 1) ([] :: slice list)"
    if "length (gs @ [ks]) < i"
    using that by (simp flip: replicate_Suc)
  then have "gs' = gs @ [ks] @ replicate (i - length gs - 1) [] \<and> ks' = []"
    using r(2) l(1) by (cases "length (gs @ [ks]) < i") auto
  then show ?case using r(1) l by (subst generate_filters.simps) auto
qed

text \<open>
  \<^verbatim>\<open>cur\<close> is the offset of the current block; \<^verbatim>\<open>H\<close> are the keys added with the offsets of their blocks.
\<close>

definition fb_inv :: "filter_builder \<Rightarrow> uint64 \<Rightarrow> (uint64 \<times> slice) set \<Rightarrow> bool" where
  "fb_inv b cur H \<longleftrightarrow> (\<exists>gs ks. fb_rep policy b gs ks \<and> length gs = unat cur div kFilterBase \<and>
     (\<forall>(o', k) \<in> H. unat o' div kFilterBase < length gs \<and> k \<in> set (gs ! (unat o' div kFilterBase))
        \<or> unat o' div kFilterBase = length gs \<and> k \<in> set ks))"

lemma fb_inv_new: "fb_inv new_FilterBlockBuilder 0 {}"
  using fb_rep_new by (auto simp: fb_inv_def)

lemma fb_inv_AddKey: "fb_inv b cur H \<Longrightarrow> fb_inv (AddKey k b) cur (insert (cur, k) H)"
proof -
  assume "fb_inv b cur H"
  then obtain gs ks where gs: "fb_rep policy b gs ks" "length gs = unat cur div kFilterBase"
    "\<forall>(o', k) \<in> H. unat o' div kFilterBase < length gs \<and> k \<in> set (gs ! (unat o' div kFilterBase))
        \<or> unat o' div kFilterBase = length gs \<and> k \<in> set ks" by (auto simp: fb_inv_def)
  have "\<forall>(o', k') \<in> insert (cur, k) H. unat o' div kFilterBase < length gs \<and> k' \<in> set (gs ! (unat o' div kFilterBase))
        \<or> unat o' div kFilterBase = length gs \<and> k' \<in> set (ks @ [k])"
    using gs(2,3) by auto
  then show ?thesis unfolding fb_inv_def using AddKey_rep [OF gs(1)] gs(2) by blast
qed

lemma fb_inv_StartBlock:
  assumes "fb_inv b cur H" "cur \<le> block_offset"
  shows "fb_inv (StartBlock policy block_offset b) block_offset H"
proof -
  let ?i = "unat block_offset div kFilterBase"
  obtain gs ks where gs: "fb_rep policy b gs ks" "length gs = unat cur div kFilterBase"
    "\<forall>(o', k) \<in> H. unat o' div kFilterBase < length gs \<and> k \<in> set (gs ! (unat o' div kFilterBase))
        \<or> unat o' div kFilterBase = length gs \<and> k \<in> set ks" using assms(1) by (auto simp: fb_inv_def)
  have le: "length gs \<le> ?i" using assms(2) gs(2) by (simp add: word_le_nat_alt div_le_mono)
  obtain gs' ks' where gs': "fb_rep policy (StartBlock policy block_offset b) gs' ks'"
    "if length gs < ?i then gs' = gs @ [ks] @ replicate (?i - length gs - 1) [] \<and> ks' = [] else gs' = gs \<and> ks' = ks"
    using generate_filters_rep [OF gs(1), of ?i] unfolding StartBlock_def by blast
  have "length gs' = ?i" using gs'(2) le by (auto split: if_splits)
  moreover have "\<forall>(o', k) \<in> H. unat o' div kFilterBase < length gs' \<and> k \<in> set (gs' ! (unat o' div kFilterBase))
        \<or> unat o' div kFilterBase = length gs' \<and> k \<in> set ks'"
    using gs(3) gs'(2) by (cases "length gs < ?i") (fastforce simp: nth_append)+
  ultimately show ?thesis unfolding fb_inv_def using gs'(1) by blast
qed

lemma Finish_rep:
  assumes "fb_rep policy b gs ks"
  defines "gs' \<equiv> gs @ (if ks = [] then [] else [ks])"
  shows "fst (FilterBlock_Finish policy b) = concat (map (filter_of policy) gs')
    @ fixed32_array (map (parts_offset (map (filter_of policy) gs')) [0..<length gs'] @ [length (concat (map (filter_of policy) gs'))])
    @ [of_nat kFilterBaseLg]"
proof -
  let ?b = "if fb_start b \<noteq> [] then GenerateFilter policy b else b"
  have "fb_start b \<noteq> [] \<longleftrightarrow> ks \<noteq> []" using assms(1) by (simp add: fb_rep_def)
  then have "fb_rep policy ?b gs' []"
    using assms(1) GenerateFilter_rep [OF assms(1)] by (cases "ks = []") (simp_all add: gs'_def)
  then have "fb_result ?b = concat (map (filter_of policy) gs')"
    "fb_offsets ?b = map (parts_offset (map (filter_of policy) gs')) [0..<length gs']"
    by (simp_all add: fb_rep_def)
  then show ?thesis
    by (simp only: FilterBlock_Finish_def Let_def foldl_PutFixed32 fst_conv) (simp add: PutFixed32_def)
qed

end

text \<open>The reader on the bytes of a filter block: filter \<^verbatim>\<open>i\<close> lies between two entries of the offset array.\<close>

lemma reader_bytes:
  assumes F: "F = concat fs @ fixed32_array (map (parts_offset fs) [0..<length fs] @ [length (concat fs)]) @ [of_nat kFilterBaseLg]"
    and small: "length F < 2 ^ 32"
  shows "new_FilterBlockReader F =
    \<lparr>fr_data = F, fr_offset = length (concat fs), fr_num = length fs, fr_base_lg = kFilterBaseLg\<rparr>"
proof -
  let ?os = "map (parts_offset fs) [0..<length fs] @ [length (concat fs)]"
  have len: "length F = length (concat fs) + 4 * length fs + 5"
    using length_fixed32_array [of ?os] by (simp add: F)
  obtain rest where "drop (4 * length fs) (fixed32_array ?os @ [of_nat kFilterBaseLg])
      = EncodeFixed32 (of_nat (?os ! length fs)) @ rest"
    using drop_fixed32_array [of "length fs" ?os] by auto
  moreover have "drop (length (concat fs) + 4 * length fs + 5 - 5) (concat fs @ ys) = drop (4 * length fs) ys" for ys
    by simp
  ultimately have "drop (length F - 5) F = EncodeFixed32 (of_nat (?os ! length fs)) @ rest"
    unfolding len by (simp only: F)
  then have "drop (length F - 5) F = EncodeFixed32 (of_nat (length (concat fs))) @ rest" by (simp add: nth_append)
  then have "unat (DecodeFixed32 (drop (length F - 5) F)) = length (concat fs)"
    using small len by (simp add: unat_of_nat take_bit_nat_eq_self)
  moreover have "unat (F ! (length F - 1)) = kFilterBaseLg"
    by (simp add: F nth_append kFilterBaseLg_def)
  ultimately show ?thesis
    using len by (simp add: new_FilterBlockReader_def Let_def)
qed

lemma reader_filter:
  assumes F: "F = concat fs @ fixed32_array (map (parts_offset fs) [0..<length fs] @ [length (concat fs)]) @ [of_nat kFilterBaseLg]"
    and small: "length F < 2 ^ 32" and i: "unat off div kFilterBase < length fs"
  shows "FilterBlock_KeyMayMatch policy (new_FilterBlockReader F) off key
    = KeyMayMatch policy key (fs ! (unat off div kFilterBase))"
proof -
  let ?os = "map (parts_offset fs) [0..<length fs] @ [length (concat fs)]" and ?i = "unat off div kFilterBase"
  have index: "unat (drop_bit kFilterBaseLg off) = ?i"
    by (simp add: kFilterBase_def unat_drop_bit_eq drop_bit_nat_def)
  have os: "?os ! ?i = parts_offset fs ?i" "?os ! Suc ?i = parts_offset fs ?i + length (fs ! ?i)"
    using i parts_offset_Suc [OF i] by (simp_all add: nth_append less_Suc_eq)
      (metis Suc_lessI take_all_iff nat_le_linear)
  have bound: "parts_offset fs ?i + length (fs ! ?i) \<le> length (concat fs)" by (rule concat_part(2) [OF i])
  have "length (concat fs) \<le> length F" by (simp add: F)
  then have fits: "unat (of_nat x :: uint32) = x" if "x \<le> length (concat fs)" for x
    using that small by (simp add: unat_of_nat take_bit_nat_eq_self)
  have at: "unat (DecodeFixed32 (drop (length (concat fs) + j * 4) F)) = ?os ! j" if "j \<le> length fs" "?os ! j \<le> length (concat fs)" for j
  proof -
    have "j < length ?os" using that(1) by simp
    from drop_fixed32_array [OF this] obtain rest
      where "drop (4 * j) (fixed32_array ?os @ [of_nat kFilterBaseLg]) = EncodeFixed32 (of_nat (?os ! j)) @ rest" by blast
    moreover have "drop (length (concat fs) + j * 4) (concat fs @ ys) = drop (4 * j) ys" for ys
      by (simp add: mult.commute)
    ultimately have "drop (length (concat fs) + j * 4) F = EncodeFixed32 (of_nat (?os ! j)) @ rest"
      by (simp only: F)
    then show ?thesis using fits [OF that(2)] by simp
  qed
  have "unat (DecodeFixed32 (drop (length (concat fs) + ?i * 4) F)) = parts_offset fs ?i"
    "unat (DecodeFixed32 (drop (length (concat fs) + ?i * 4 + 4) F)) = parts_offset fs ?i + length (fs ! ?i)"
    using at [of ?i] at [of "Suc ?i"] i os bound by (simp_all add: add_ac)
  moreover have "take (length (fs ! ?i)) (drop (parts_offset fs ?i) F) = fs ! ?i"
    unfolding F concat_part(1) [OF i] by simp
  ultimately show ?thesis
    using i bound by (simp add: FilterBlock_KeyMayMatch_def reader_bytes [OF F small] index)
qed

context filter_contract
begin

lemma fb_inv_Finish:
  assumes "fb_inv b cur H" "(off, k) \<in> H" "same k key"
    and small: "length (fst (FilterBlock_Finish policy b)) < 2 ^ 32"
  shows "FilterBlock_KeyMayMatch policy (new_FilterBlockReader (fst (FilterBlock_Finish policy b))) off key"
proof -
  let ?i = "unat off div kFilterBase"
  obtain gs ks where gs: "fb_rep policy b gs ks" "?i < length gs \<and> k \<in> set (gs ! ?i) \<or> ?i = length gs \<and> k \<in> set ks"
    using assms(1,2) by (auto simp: fb_inv_def)
  define gs' where "gs' = gs @ (if ks = [] then [] else [ks])"
  have i: "?i < length gs'" "k \<in> set (gs' ! ?i)"
    using gs(2) by (auto simp: gs'_def nth_append)
  then have "filter_of policy (gs' ! ?i) = CreateFilter policy (gs' ! ?i) []" by (auto simp: filter_of_def)
  then have "KeyMayMatch policy key (map (filter_of policy) gs' ! ?i)"
    using filter_match [OF i(2) assms(3)] i(1) by simp
  then show ?thesis
    using reader_filter [OF _ small, of "map (filter_of policy) gs'" off] Finish_rep [OF gs(1), folded gs'_def] i(1)
    by simp
qed

lemma fb_inv_keys: "fb_inv b cur H \<Longrightarrow> fb_inv (foldl (\<lambda>b k. AddKey k b) b ks) cur (H \<union> Pair cur ` set ks)"
proof (induction ks rule: rev_induct)
  case (snoc k ks)
  then show ?case using fb_inv_AddKey [of _ cur "H \<union> Pair cur ` set ks" k] by simp
qed simp

abbreviation build_filters :: "(uint64 \<times> slice list) list \<Rightarrow> filter_builder" where
  "build_filters bs \<equiv> foldl (\<lambda>b (o', ks). foldl (\<lambda>b k. AddKey k b) (StartBlock policy o' b) ks) new_FilterBlockBuilder bs"

lemma fb_inv_build:
  "sorted (map fst bs) \<Longrightarrow>
     fb_inv (build_filters bs) (if bs = [] then 0 else fst (last bs)) (\<Union>(o', ks) \<in> set bs. Pair o' ` set ks)"
proof (induction bs rule: rev_induct)
  case Nil
  show ?case using fb_inv_new by simp
next
  case (snoc x bs)
  obtain o' ks where x: "x = (o', ks)" by fastforce
  have "(if bs = [] then 0 else fst (last bs)) \<le> o'"
    using snoc(2) last_in_set [of bs] by (auto simp: x sorted_append)
  with snoc have "fb_inv (StartBlock policy o' (build_filters bs)) o' (\<Union>(o', ks) \<in> set bs. Pair o' ` set ks)"
    by (intro fb_inv_StartBlock) (auto simp: sorted_append)
  from fb_inv_keys [OF this, of ks] show ?case by (simp add: x Un_commute)
qed

end

section \<open>Properties\<close>

text \<open>C34: A Bloom filter has no false negatives: for any number of bits per key, \<^verbatim>\<open>CreateFilter\<close> leaves what
  is in the string in place and appends a filter, and \<^verbatim>\<open>KeyMayMatch\<close> on that filter says yes for every
  key it was created for.\<close>

theorem bloom_no_false_negatives:
  assumes "key \<in> set keys"
  shows "take (length dst) (bloom_CreateFilter bits_per_key keys dst) = dst
    \<and> bloom_KeyMayMatch key (drop (length dst) (bloom_CreateFilter bits_per_key keys dst))"
proof -
  have "bloom_CreateFilter bits_per_key keys dst = dst @ bloom_CreateFilter bits_per_key keys []"
    using bloom.filter_append [of bits_per_key keys dst] by (simp add: NewBloomFilterPolicy_def)
  then show ?thesis using bloom_match [OF assms, of bits_per_key] by simp
qed

theorem bloom_no_false_negatives_witness:
  "bloom_KeyMayMatch [104, 105] (drop 1 (bloom_CreateFilter 10 [[97], [104, 105]] [7]))"
  using bloom_no_false_negatives [of "[104, 105]" "[[97], [104, 105]]" "[7]" 10] by simp

text \<open>C14: A filter block has no false negatives: when the keys of the blocks of a table are added in the
  order of the block offsets, several blocks may share a filter and a block may span several ranges
  of 2 KB, and the reader of the finished filter block says yes for the offset of a block and every
  internal key that has the user key of some key in this block.\<close>

theorem filter_block_no_false_negatives:
  fixes n :: nat and bs :: "(uint64 \<times> slice list) list"
  defines "policy \<equiv> InternalFilterPolicy (NewBloomFilterPolicy n)"
  defines "contents \<equiv> fst (FilterBlock_Finish policy (foldl (\<lambda>b (block_offset, keys).
    foldl (\<lambda>b k. AddKey k b) (StartBlock policy block_offset b) keys) new_FilterBlockBuilder bs))"
  assumes "sorted (map fst bs)" "(block_offset, keys) \<in> set bs" "k \<in> set keys"
    and "ExtractUserKey k = ExtractUserKey key" "length contents < 2 ^ 32"
  shows "FilterBlock_KeyMayMatch policy (new_FilterBlockReader contents) block_offset key"
proof -
  have "(block_offset, k) \<in> (\<Union>(o', ks) \<in> set bs. Pair o' ` set ks)" using assms(4,5) by force
  from internal_bloom.fb_inv_Finish [OF internal_bloom.fb_inv_build [OF assms(3)] this assms(6)] assms(7)
  show ?thesis unfolding contents_def policy_def by blast
qed

theorem filter_block_no_false_negatives_witness:
  "FilterBlock_KeyMayMatch (InternalFilterPolicy (NewBloomFilterPolicy 10))
     (new_FilterBlockReader (fst (FilterBlock_Finish (InternalFilterPolicy (NewBloomFilterPolicy 10))
        (AddKey ([3] @ replicate 8 1) (StartBlock (InternalFilterPolicy (NewBloomFilterPolicy 10)) 0 new_FilterBlockBuilder)))))
     0 ([3] @ replicate 8 2)"
proof -
  let ?p = "InternalFilterPolicy (NewBloomFilterPolicy 10)"
  have "length (fst (FilterBlock_Finish ?p (AddKey ([3] @ replicate 8 1) (StartBlock ?p 0 new_FilterBlockBuilder)))) < 2 ^ 32"
    by (simp add: FilterBlock_Finish_def AddKey_def StartBlock_def generate_filters.simps new_FilterBlockBuilder_def
        GenerateFilter_def Let_def foldl_PutFixed32 PutFixed32_def InternalFilterPolicy_def NewBloomFilterPolicy_def
        bloom_CreateFilter_def)
  then show ?thesis
    using filter_block_no_false_negatives [of "[(0, [[3] @ replicate 8 1])]" 0 "[[3] @ replicate 8 1]" "[3] @ replicate 8 1"
        "[3] @ replicate 8 2" 10] by (simp add: ExtractUserKey_def)
qed

end
