(* ===== verification/LDB_Log.thy ===== *)
theory LDB_Log
  imports LDB_Crc32c LDB_Env
begin

text \<open>
  The write-ahead log: \<^verbatim>\<open>db/log_writer.cc\<close> cuts a record into fragments that do not cross the
  32 KB blocks of the file, \<^verbatim>\<open>db/log_reader.cc\<close> puts them together again and reports what it has
  to drop.  The checksum (\<^verbatim>\<open>crc32c::Extend\<close>), the destination file and the source file are
  arguments: the writer works on any \<^verbatim>\<open>WritableFile\<close>, the reader on any \<^verbatim>\<open>SequentialFile\<close>.
\<close>

section \<open>Format\<close>

definition kZeroType :: nat where "kZeroType = 0"
definition kFullType :: nat where "kFullType = 1"
definition kFirstType :: nat where "kFirstType = 2"
definition kMiddleType :: nat where "kMiddleType = 3"
definition kLastType :: nat where "kLastType = 4"
definition kMaxRecordType :: nat where "kMaxRecordType = kLastType"
definition kBlockSize :: nat where "kBlockSize = 32768"
definition kHeaderSize :: nat where "kHeaderSize = 4 + 2 + 1"

definition kEof :: uint32 where "kEof = of_nat kMaxRecordType + 1"
definition kBadRecord :: uint32 where "kBadRecord = of_nat kMaxRecordType + 2"

lemmas record_types = kZeroType_def kFullType_def kFirstType_def kMiddleType_def kLastType_def
  kMaxRecordType_def kEof_def kBadRecord_def

type_synonym checksum_fun = "uint32 \<Rightarrow> byte list \<Rightarrow> uint32"

section \<open>Writer\<close>

record 's log_writer =
  lw_dest :: 's
  lw_block_offset :: nat
  lw_type_crc :: "uint32 list"

definition InitTypeCrc :: "checksum_fun \<Rightarrow> uint32 list" where
  "InitTypeCrc chk = map (\<lambda>i. chk 0 [of_nat i]) [0..<kMaxRecordType + 1]"

definition new_Writer :: "checksum_fun \<Rightarrow> 's \<Rightarrow> nat \<Rightarrow> 's log_writer" where
  "new_Writer chk dest dest_length =
     \<lparr>lw_dest = dest, lw_block_offset = dest_length mod kBlockSize, lw_type_crc = InitTypeCrc chk\<rparr>"

definition EmitPhysicalRecord :: "checksum_fun \<Rightarrow> ('s \<Rightarrow> slice \<Rightarrow> (status \<times> 's) option)
    \<Rightarrow> ('s \<Rightarrow> (status \<times> 's) option) \<Rightarrow> 's log_writer \<Rightarrow> nat \<Rightarrow> slice \<Rightarrow> (status \<times> 's log_writer) option" where
  "EmitPhysicalRecord chk app flush w t ptr =
     (let crc = crc32c_Mask (chk (lw_type_crc w ! t) ptr);
          buf = EncodeFixed32 crc
                @ [of_nat (length ptr AND 0xff), of_nat (drop_bit 8 (length ptr)), of_nat t]
      in do {
        (s, dest) \<leftarrow> app (lw_dest w) buf;
        (s, dest) \<leftarrow>
          (if s = OK then do {
             (s, dest) \<leftarrow> app dest ptr;
             if s = OK then flush dest else Some (s, dest) }
           else Some (s, dest));
        Some (s, w\<lparr>lw_dest := dest,
                   lw_block_offset := lw_block_offset w + kHeaderSize + length ptr\<rparr>) })"

text \<open>The beginning of the loop of \<^verbatim>\<open>AddRecord\<close>: fill the trailer of the block, whatever the status
  of that \<^verbatim>\<open>Append\<close>, and go to the next block.\<close>

definition SwitchBlock :: "('s \<Rightarrow> slice \<Rightarrow> (status \<times> 's) option) \<Rightarrow> 's log_writer \<Rightarrow> 's log_writer option" where
  "SwitchBlock app w =
     (let leftover = kBlockSize - lw_block_offset w in
      if leftover < kHeaderSize then do {
        dest \<leftarrow> (if leftover > 0 then map_option snd (app (lw_dest w) (replicate leftover 0))
                else Some (lw_dest w));
        Some (w\<lparr>lw_dest := dest, lw_block_offset := 0\<rparr>) }
      else Some w)"

definition fragment_type :: "bool \<Rightarrow> bool \<Rightarrow> nat" where
  "fragment_type begin end' =
     (if begin \<and> end' then kFullType else if begin then kFirstType
      else if end' then kLastType else kMiddleType)"

partial_function (option) AddRecord_loop :: "checksum_fun \<Rightarrow> ('s \<Rightarrow> slice \<Rightarrow> (status \<times> 's) option)
    \<Rightarrow> ('s \<Rightarrow> (status \<times> 's) option) \<Rightarrow> bool \<Rightarrow> slice \<Rightarrow> 's log_writer \<Rightarrow> (status \<times> 's log_writer) option" where
  "AddRecord_loop chk app flush begin ptr w =
     do { w \<leftarrow> SwitchBlock app w;
          let avail = kBlockSize - lw_block_offset w - kHeaderSize;
              fragment_length = (if length ptr < avail then length ptr else avail);
              type = fragment_type begin (length ptr = fragment_length)
          in do {
            (s, w) \<leftarrow> EmitPhysicalRecord chk app flush w type (take fragment_length ptr);
            if s = OK \<and> length ptr - fragment_length > 0
            then AddRecord_loop chk app flush False (drop fragment_length ptr) w
            else Some (s, w) } }"

definition AddRecord :: "checksum_fun \<Rightarrow> ('s \<Rightarrow> slice \<Rightarrow> (status \<times> 's) option)
    \<Rightarrow> ('s \<Rightarrow> (status \<times> 's) option) \<Rightarrow> slice \<Rightarrow> 's log_writer \<Rightarrow> (status \<times> 's log_writer) option" where
  "AddRecord chk app flush data w = AddRecord_loop chk app flush True data w"

section \<open>Reader\<close>

text \<open>\<^verbatim>\<open>lr_reports\<close> is what the reporter has been told, in order; offsets are \<^verbatim>\<open>uint64_t\<close>.\<close>

record 'f log_reader =
  lr_file :: 'f
  lr_reporter :: bool
  lr_checksum :: bool
  lr_buffer :: slice
  lr_eof :: bool
  lr_last_record_offset :: uint64
  lr_end_of_buffer_offset :: uint64
  lr_initial_offset :: uint64
  lr_resyncing :: bool
  lr_reports :: "(uint64 \<times> status) list"

definition new_Reader :: "'f \<Rightarrow> bool \<Rightarrow> bool \<Rightarrow> uint64 \<Rightarrow> 'f log_reader" where
  "new_Reader file reporter check initial_offset =
     \<lparr>lr_file = file, lr_reporter = reporter, lr_checksum = check, lr_buffer = [], lr_eof = False,
      lr_last_record_offset = 0, lr_end_of_buffer_offset = 0, lr_initial_offset = initial_offset,
      lr_resyncing = (initial_offset > 0), lr_reports = []\<rparr>"

abbreviation buffer_size :: "'f log_reader \<Rightarrow> uint64" where
  "buffer_size r \<equiv> of_nat (length (lr_buffer r))"

definition ReportDrop :: "uint64 \<Rightarrow> status \<Rightarrow> 'f log_reader \<Rightarrow> 'f log_reader" where
  "ReportDrop bytes reason r =
     (if lr_reporter r \<and> lr_end_of_buffer_offset r - buffer_size r - bytes \<ge> lr_initial_offset r
      then r\<lparr>lr_reports := lr_reports r @ [(bytes, reason)]\<rparr> else r)"

definition ReportCorruption :: "uint64 \<Rightarrow> string \<Rightarrow> 'f log_reader \<Rightarrow> 'f log_reader" where
  "ReportCorruption bytes reason r = ReportDrop bytes (Corruption reason '''') r"

text \<open>
  The type of the physical record and the fragment; a branch that does not set \<^verbatim>\<open>*result\<close> leaves the
  caller's fragment as it was.  \<^verbatim>\<open>header[6]\<close> is a \<^verbatim>\<open>char\<close>, so its conversion extends the sign.
\<close>

definition ParsePhysicalRecord :: "checksum_fun \<Rightarrow> slice \<Rightarrow> 'f log_reader \<Rightarrow> uint32 \<times> slice \<times> 'f log_reader" where
  "ParsePhysicalRecord chk result r =
     (let header = lr_buffer r;
          a = ucast (header ! 4) AND 0xff; b = ucast (header ! 5) AND 0xff;
          type = scast (header ! 6);
          len = unat (a OR push_bit 8 b :: uint32)
      in if kHeaderSize + len > length (lr_buffer r) then
           let drop_size = buffer_size r; r = r\<lparr>lr_buffer := []\<rparr> in
           if \<not> lr_eof r
           then (kBadRecord, result, ReportCorruption drop_size ''bad record length'' r)
           else (kEof, result, r)
         else if type = of_nat kZeroType \<and> len = 0 then (kBadRecord, result, r\<lparr>lr_buffer := []\<rparr>)
         else if lr_checksum r
              \<and> chk 0 (take (1 + len) (drop 6 header)) \<noteq> crc32c_Unmask (DecodeFixed32 header) then
           let drop_size = buffer_size r; r = r\<lparr>lr_buffer := []\<rparr> in
           (kBadRecord, result, ReportCorruption drop_size ''checksum mismatch'' r)
         else
           let r = r\<lparr>lr_buffer := drop (kHeaderSize + len) (lr_buffer r)\<rparr> in
           if lr_end_of_buffer_offset r - buffer_size r - of_nat kHeaderSize - of_nat len
              < lr_initial_offset r
           then (kBadRecord, [], r)
           else (type, take len (drop kHeaderSize header), r))"

partial_function (option) ReadPhysicalRecord ::
  "checksum_fun \<Rightarrow> ('f \<Rightarrow> nat \<Rightarrow> (status \<times> slice \<times> 'f) option) \<Rightarrow> slice \<Rightarrow> 'f log_reader
    \<Rightarrow> (uint32 \<times> slice \<times> 'f log_reader) option" where
  "ReadPhysicalRecord chk read result r =
     (if length (lr_buffer r) < kHeaderSize then
        if \<not> lr_eof r then do {
          (status, buffer, file) \<leftarrow> read (lr_file r) kBlockSize;
          let r = r\<lparr>lr_file := file, lr_buffer := buffer,
                    lr_end_of_buffer_offset := lr_end_of_buffer_offset r + of_nat (length buffer)\<rparr> in
          if status \<noteq> OK then
            Some (kEof, result,
                  (ReportDrop (of_nat kBlockSize) status (r\<lparr>lr_buffer := []\<rparr>))\<lparr>lr_eof := True\<rparr>)
          else ReadPhysicalRecord chk read result
                 (if length buffer < kBlockSize then r\<lparr>lr_eof := True\<rparr> else r) }
        else Some (kEof, result, r\<lparr>lr_buffer := []\<rparr>)
      else Some (ParsePhysicalRecord chk result r))"

text \<open>\<^const>\<open>None\<close> when \<^verbatim>\<open>Skip\<close> does not return.\<close>

definition SkipToInitialBlock :: "('f \<Rightarrow> uint64 \<Rightarrow> (status \<times> 'f) option) \<Rightarrow> 'f log_reader
    \<Rightarrow> (bool \<times> 'f log_reader) option" where
  "SkipToInitialBlock skip r =
     (let offset_in_block = lr_initial_offset r mod of_nat kBlockSize;
          block_start_location = lr_initial_offset r - offset_in_block;
          block_start_location = (if offset_in_block > of_nat kBlockSize - 6
                                  then block_start_location + of_nat kBlockSize
                                  else block_start_location);
          r = r\<lparr>lr_end_of_buffer_offset := block_start_location\<rparr>
      in if block_start_location > 0 then do {
           (skip_status, file) \<leftarrow> skip (lr_file r) block_start_location;
           let r = r\<lparr>lr_file := file\<rparr> in
           if skip_status \<noteq> OK then Some (False, ReportDrop block_start_location skip_status r)
           else Some (True, r) }
         else Some (True, r))"

text \<open>\<^verbatim>\<open>%u\<close> of \<^verbatim>\<open>snprintf\<close>.\<close>

fun decimal :: "nat \<Rightarrow> string" where
  "decimal n = (if n < 10 then [char_of (48 + n)] else decimal (n div 10) @ [char_of (48 + n mod 10)])"

text \<open>
  One round of the loop of \<^verbatim>\<open>ReadRecord\<close>, after the call of \<^verbatim>\<open>ReadPhysicalRecord\<close>.  The state of the
  loop: whether a fragmented record is being put together, \<^verbatim>\<open>scratch\<close>, and the offset of the record.
  The round returns (\<^const>\<open>Inl\<close>) the record, or \<^const>\<open>None\<close> for \<^verbatim>\<open>false\<close>, or it goes on (\<^const>\<open>Inr\<close>).
\<close>

definition HandleRecord :: "uint32 \<Rightarrow> slice \<Rightarrow> bool \<Rightarrow> slice \<Rightarrow> uint64 \<Rightarrow> 'f log_reader
    \<Rightarrow> (slice option + bool \<times> slice \<times> uint64) \<times> 'f log_reader" where
  "HandleRecord record_type fragment in_fragmented_record scratch prospective_record_offset r =
     (let physical_record_offset =
            lr_end_of_buffer_offset r - buffer_size r - of_nat kHeaderSize - of_nat (length fragment);
          same = Inr (in_fragmented_record, scratch, prospective_record_offset)
      in
      if lr_resyncing r \<and> record_type = of_nat kMiddleType then (same, r)
      else if lr_resyncing r \<and> record_type = of_nat kLastType then (same, r\<lparr>lr_resyncing := False\<rparr>)
      else let r = r\<lparr>lr_resyncing := False\<rparr> in
      if record_type = of_nat kFullType then
        let r = (if in_fragmented_record \<and> scratch \<noteq> []
                 then ReportCorruption (of_nat (length scratch)) ''partial record without end(1)'' r
                 else r)
        in (Inl (Some fragment), r\<lparr>lr_last_record_offset := physical_record_offset\<rparr>)
      else if record_type = of_nat kFirstType then
        (Inr (True, fragment, physical_record_offset),
         if in_fragmented_record \<and> scratch \<noteq> []
         then ReportCorruption (of_nat (length scratch)) ''partial record without end(2)'' r
         else r)
      else if record_type = of_nat kMiddleType then
        if \<not> in_fragmented_record then
          (same, ReportCorruption (of_nat (length fragment)) ''missing start of fragmented record(1)'' r)
        else (Inr (in_fragmented_record, scratch @ fragment, prospective_record_offset), r)
      else if record_type = of_nat kLastType then
        if \<not> in_fragmented_record then
          (same, ReportCorruption (of_nat (length fragment)) ''missing start of fragmented record(2)'' r)
        else (Inl (Some (scratch @ fragment)), r\<lparr>lr_last_record_offset := prospective_record_offset\<rparr>)
      else if record_type = kEof then (Inl None, r)
      else if record_type = kBadRecord then
        if in_fragmented_record then
          (Inr (False, [], prospective_record_offset),
           ReportCorruption (of_nat (length scratch)) ''error in middle of record'' r)
        else (same, r)
      else
        (Inr (False, [], prospective_record_offset),
         ReportCorruption (of_nat (length fragment + (if in_fragmented_record then length scratch else 0)))
           (''unknown record type '' @ decimal (unat record_type)) r))"

partial_function (option) ReadRecord_loop ::
  "checksum_fun \<Rightarrow> ('f \<Rightarrow> nat \<Rightarrow> (status \<times> slice \<times> 'f) option) \<Rightarrow> bool \<Rightarrow> slice \<Rightarrow> uint64 \<Rightarrow> slice
    \<Rightarrow> 'f log_reader \<Rightarrow> (slice option \<times> 'f log_reader) option" where
  "ReadRecord_loop chk read in_fragmented_record scratch prospective_record_offset fragment r =
     do { (record_type, fragment', r') \<leftarrow> ReadPhysicalRecord chk read fragment r;
          case HandleRecord record_type fragment' in_fragmented_record scratch
                 prospective_record_offset r' of
            (Inl record, r'') \<Rightarrow> Some (record, r'')
          | (Inr (in_fragmented, scratch', offset), r'') \<Rightarrow>
              ReadRecord_loop chk read in_fragmented scratch' offset fragment' r'' }"

definition ReadRecord :: "checksum_fun \<Rightarrow> ('f \<Rightarrow> nat \<Rightarrow> (status \<times> slice \<times> 'f) option)
    \<Rightarrow> ('f \<Rightarrow> uint64 \<Rightarrow> (status \<times> 'f) option) \<Rightarrow> 'f log_reader \<Rightarrow> (slice option \<times> 'f log_reader) option" where
  "ReadRecord chk read skip r =
     do { (ok, r) \<leftarrow> (if lr_last_record_offset r < lr_initial_offset r then SkipToInitialBlock skip r
                     else Some (True, r));
          if \<not> ok then Some (None, r) else ReadRecord_loop chk read False [] 0 [] r }"

text \<open>The loop every client runs (\<^verbatim>\<open>DBImpl::RecoverLogFile\<close>, \<^verbatim>\<open>VersionSet::Recover\<close>): read records
  until there are no more.\<close>

partial_function (option) ReadAll :: "checksum_fun \<Rightarrow> ('f \<Rightarrow> nat \<Rightarrow> (status \<times> slice \<times> 'f) option)
    \<Rightarrow> ('f \<Rightarrow> uint64 \<Rightarrow> (status \<times> 'f) option) \<Rightarrow> 'f log_reader \<Rightarrow> (slice list \<times> 'f log_reader) option" where
  "ReadAll chk read skip r =
     do { (record, r) \<leftarrow> ReadRecord chk read skip r;
          case record of
            None \<Rightarrow> Some ([], r)
          | Some x \<Rightarrow> do { (xs, r) \<leftarrow> ReadAll chk read skip r; Some (x # xs, r) } }"

fun AddRecords :: "checksum_fun \<Rightarrow> ('s \<Rightarrow> slice \<Rightarrow> (status \<times> 's) option) \<Rightarrow> ('s \<Rightarrow> (status \<times> 's) option)
    \<Rightarrow> slice list \<Rightarrow> 's log_writer \<Rightarrow> (status \<times> 's log_writer) option" where
  "AddRecords chk app flush [] w = Some (OK, w)"
| "AddRecords chk app flush (x # xs) w =
     do { (s, w) \<leftarrow> AddRecord chk app flush x w;
          if s = OK then AddRecords chk app flush xs w else Some (s, w) }"

end
