(* ===== verification/LDB_Table.thy ===== *)
theory LDB_Table
  imports LDB_Block LDB_Filter LDB_Log
begin

text \<open>
  Table files: the format of \<^verbatim>\<open>table/format.cc\<close> (block handles, the footer, reading a block with its
  checksum), the writer of \<^verbatim>\<open>table/table_builder.cc\<close> and the reader of \<^verbatim>\<open>table/table.cc\<close>.  The writer
  works on any \<^verbatim>\<open>WritableFile\<close> and the reader on any \<^verbatim>\<open>RandomAccessFile\<close>, both arguments as in the
  log; the compression library is an argument too.  The reader is the one without a block cache.
  The assertions of the code, that a builder is not used after it is finished and that keys are added
  in order, are hypotheses of the lemmas about it.
\<close>

section \<open>Format\<close>

text \<open>The functions of the Snappy library; \<^const>\<open>None\<close> in a build where \<^verbatim>\<open>HAVE_SNAPPY\<close> is 0.\<close>

record snappy_lib =
  RawCompress :: "slice \<Rightarrow> slice"
  GetUncompressedLength :: "slice \<Rightarrow> nat option"
  RawUncompress :: "slice \<Rightarrow> slice option"

definition Snappy_Compress :: "snappy_lib option \<Rightarrow> slice \<Rightarrow> slice option" where
  "Snappy_Compress lib input = map_option (\<lambda>l. RawCompress l input) lib"

definition Snappy_GetUncompressedLength :: "snappy_lib option \<Rightarrow> slice \<Rightarrow> nat option" where
  "Snappy_GetUncompressedLength lib input = do { l \<leftarrow> lib; GetUncompressedLength l input }"

definition Snappy_Uncompress :: "snappy_lib option \<Rightarrow> slice \<Rightarrow> slice option" where
  "Snappy_Uncompress lib input = do { l \<leftarrow> lib; RawUncompress l input }"

datatype CompressionType = kNoCompression | kSnappyCompression

definition compression_code :: "CompressionType \<Rightarrow> byte" where
  "compression_code t = (case t of kNoCompression \<Rightarrow> 0 | kSnappyCompression \<Rightarrow> 1)"

record table_options =
  opt_comparator :: comparator
  opt_paranoid_checks :: bool
  opt_block_size :: nat
  opt_restart_interval :: nat
  opt_compression :: CompressionType
  opt_filter_policy :: "filter_policy option"

record block_handle =
  bh_offset :: uint64
  bh_size :: uint64

definition new_BlockHandle :: block_handle where
  "new_BlockHandle = \<lparr>bh_offset = - 1, bh_size = - 1\<rparr>"

definition kMaxEncodedLength :: nat where "kMaxEncodedLength = 10 + 10"

definition BlockHandle_EncodeTo :: "block_handle \<Rightarrow> slice \<Rightarrow> slice" where
  "BlockHandle_EncodeTo h dst = PutVarint64 (PutVarint64 dst (bh_offset h)) (bh_size h)"

definition BlockHandle_DecodeFrom :: "slice \<Rightarrow> status + block_handle \<times> slice" where
  "BlockHandle_DecodeFrom input =
     (case do { (offset, input) \<leftarrow> GetVarint64 input; (size, input) \<leftarrow> GetVarint64 input;
                Some (\<lparr>bh_offset = offset, bh_size = size\<rparr>, input) } of
        Some r \<Rightarrow> Inr r
      | None \<Rightarrow> Inl (Corruption ''bad block handle'' ''''))"

record footer =
  ft_metaindex_handle :: block_handle
  ft_index_handle :: block_handle

definition kEncodedLength :: nat where "kEncodedLength = 2 * kMaxEncodedLength + 8"

definition kTableMagicNumber :: uint64 where "kTableMagicNumber = 0xdb4775248b80fb57"

definition Footer_EncodeTo :: "footer \<Rightarrow> slice \<Rightarrow> slice" where
  "Footer_EncodeTo f dst =
     (let dst = BlockHandle_EncodeTo (ft_metaindex_handle f) dst;
          dst = BlockHandle_EncodeTo (ft_index_handle f) dst;
          n = 2 * kMaxEncodedLength;
          dst = take n dst @ replicate (n - length dst) 0;
          dst = PutFixed32 dst (ucast (kTableMagicNumber AND 0xffffffff))
      in PutFixed32 dst (ucast (drop_bit 32 kTableMagicNumber)))"

text \<open>The input has at least \<^verbatim>\<open>kEncodedLength\<close> bytes.\<close>

definition Footer_DecodeFrom :: "slice \<Rightarrow> status + footer \<times> slice" where
  "Footer_DecodeFrom input =
     (let magic_ptr = drop (kEncodedLength - 8) input;
          magic_lo = DecodeFixed32 magic_ptr; magic_hi = DecodeFixed32 (drop 4 magic_ptr);
          magic = push_bit 32 (ucast magic_hi) OR ucast magic_lo
      in if magic \<noteq> kTableMagicNumber then Inl (Corruption ''not an sstable (bad magic number)'' '''')
         else case BlockHandle_DecodeFrom input of
           Inl s \<Rightarrow> Inl s
         | Inr (metaindex, rest) \<Rightarrow>
             (case BlockHandle_DecodeFrom rest of
                Inl s \<Rightarrow> Inl s
              | Inr (index, rest) \<Rightarrow>
                  Inr (\<lparr>ft_metaindex_handle = metaindex, ft_index_handle = index\<rparr>, drop 8 magic_ptr)))"

definition kBlockTrailerSize :: nat where "kBlockTrailerSize = 5"

text \<open>
  A read function takes an offset and a length.  The sum of the size of the block and its trailer is
  a \<^verbatim>\<open>size_t\<close>: for a size near \<^verbatim>\<open>2^64\<close> it wraps around, the short read is accepted, and the type is read
  outside of the buffer, which is \<^const>\<open>None\<close>.  Memory allocation is taken to succeed.
\<close>

type_synonym 'f read_fun = "uint64 \<Rightarrow> nat \<Rightarrow> 'f \<Rightarrow> (status \<times> slice \<times> 'f) option"

definition ReadBlock :: "checksum_fun \<Rightarrow> snappy_lib option \<Rightarrow> 'f read_fun \<Rightarrow> bool \<Rightarrow> block_handle \<Rightarrow> 'f
    \<Rightarrow> ((status + slice) \<times> 'f) option" where
  "ReadBlock chk lib read verify_checksums handle f =
     (let n = unat (bh_size handle); len = unat (bh_size handle + of_nat kBlockTrailerSize) in
      do { (s, contents, f) \<leftarrow> read (bh_offset handle) len f;
           if s \<noteq> OK then Some (Inl s, f)
           else if length contents \<noteq> len then Some (Inl (Corruption ''truncated block read'' ''''), f)
           else if length contents < n + kBlockTrailerSize then None
           else if verify_checksums \<and>
             chk 0 (take (n + 1) contents) \<noteq> crc32c_Unmask (DecodeFixed32 (drop (n + 1) contents))
           then Some (Inl (Corruption ''block checksum mismatch'' ''''), f)
           else if contents ! n = compression_code kNoCompression then Some (Inr (take n contents), f)
           else if contents ! n = compression_code kSnappyCompression then
             case Snappy_GetUncompressedLength lib (take n contents) of
               None \<Rightarrow> Some (Inl (Corruption ''corrupted compressed block contents'' ''''), f)
             | Some ulength \<Rightarrow>
                 (case Snappy_Uncompress lib (take n contents) of
                    None \<Rightarrow> Some (Inl (Corruption ''corrupted compressed block contents'' ''''), f)
                  | Some ubuf \<Rightarrow> Some (Inr (take ulength ubuf), f))
           else Some (Inl (Corruption ''bad block type'' ''''), f) })"

section \<open>TableBuilder\<close>

text \<open>\<^verbatim>\<open>tb_data_block\<close> and \<^verbatim>\<open>tb_index_block\<close> share the options, except that the index has a restart point at
  every entry.\<close>

record 's table_builder =
  tb_file :: 's
  tb_offset :: uint64
  tb_status :: status
  tb_data_block :: block_builder
  tb_index_block :: block_builder
  tb_last_key :: slice
  tb_num_entries :: nat
  tb_closed :: bool
  tb_filter_block :: "filter_builder option"
  tb_pending_index_entry :: bool
  tb_pending_handle :: block_handle

type_synonym 's append_fun = "'s \<Rightarrow> slice \<Rightarrow> (status \<times> 's) option"
type_synonym 's flush_fun = "'s \<Rightarrow> (status \<times> 's) option"

definition new_TableBuilder :: "table_options \<Rightarrow> 's \<Rightarrow> 's table_builder" where
  "new_TableBuilder opt file =
     \<lparr>tb_file = file, tb_offset = 0, tb_status = OK, tb_data_block = new_BlockBuilder,
      tb_index_block = new_BlockBuilder, tb_last_key = [], tb_num_entries = 0, tb_closed = False,
      tb_filter_block = map_option (\<lambda>p. StartBlock p 0 new_FilterBlockBuilder) (opt_filter_policy opt),
      tb_pending_index_entry = False, tb_pending_handle = new_BlockHandle\<rparr>"

definition WriteRawBlock :: "checksum_fun \<Rightarrow> 's append_fun \<Rightarrow> slice \<Rightarrow> CompressionType \<Rightarrow> 's table_builder
    \<Rightarrow> (block_handle \<times> 's table_builder) option" where
  "WriteRawBlock chk app block_contents type r =
     (let handle = \<lparr>bh_offset = tb_offset r, bh_size = of_nat (length block_contents)\<rparr> in
      do { (s, file) \<leftarrow> app (tb_file r) block_contents;
           if s \<noteq> OK then Some (handle, r\<lparr>tb_file := file, tb_status := s\<rparr>)
           else do {
             (s, file) \<leftarrow> app file (compression_code type
               # EncodeFixed32 (crc32c_Mask (chk (chk 0 block_contents) [compression_code type])));
             Some (handle, r\<lparr>tb_file := file, tb_status := s,
               tb_offset := (if s = OK then tb_offset r + of_nat (length block_contents + kBlockTrailerSize)
                             else tb_offset r)\<rparr>) } })"

text \<open>\<^verbatim>\<open>WriteBlock\<close> also resets the block, which is left to the caller here.\<close>

definition WriteBlock :: "checksum_fun \<Rightarrow> snappy_lib option \<Rightarrow> table_options \<Rightarrow> 's append_fun \<Rightarrow> block_builder
    \<Rightarrow> 's table_builder \<Rightarrow> (block_handle \<times> 's table_builder) option" where
  "WriteBlock chk lib opt app block r =
     (let raw = fst (BlockBuilder_Finish block) in
      case opt_compression opt of
        kNoCompression \<Rightarrow> WriteRawBlock chk app raw kNoCompression r
      | kSnappyCompression \<Rightarrow>
          (case Snappy_Compress lib raw of
             Some compressed \<Rightarrow>
               if length compressed < length raw - length raw div 8
               then WriteRawBlock chk app compressed kSnappyCompression r
               else WriteRawBlock chk app raw kNoCompression r
           | None \<Rightarrow> WriteRawBlock chk app raw kNoCompression r))"

definition TableBuilder_Flush :: "checksum_fun \<Rightarrow> snappy_lib option \<Rightarrow> table_options \<Rightarrow> 's append_fun \<Rightarrow> 's flush_fun
    \<Rightarrow> 's table_builder \<Rightarrow> 's table_builder option" where
  "TableBuilder_Flush chk lib opt app flush r =
     (if tb_status r \<noteq> OK then Some r
      else if bb_buffer (tb_data_block r) = [] then Some r
      else do {
        (handle, r) \<leftarrow> WriteBlock chk lib opt app (tb_data_block r) r;
        let r = r\<lparr>tb_data_block := BlockBuilder_Reset (tb_data_block r), tb_pending_handle := handle\<rparr> in
        do { r \<leftarrow> (if tb_status r = OK then do {
                    (s, file) \<leftarrow> flush (tb_file r);
                    Some (r\<lparr>tb_pending_index_entry := True, tb_file := file, tb_status := s\<rparr>) }
                  else Some r);
             Some (case opt_filter_policy opt of
                     None \<Rightarrow> r
                   | Some p \<Rightarrow> r\<lparr>tb_filter_block := map_option (StartBlock p (tb_offset r)) (tb_filter_block r)\<rparr>) } })"

definition index_entry :: "(slice \<Rightarrow> slice) \<Rightarrow> 's table_builder \<Rightarrow> 's table_builder" where
  "index_entry shorten r =
     (if tb_pending_index_entry r then
        let last_key = shorten (tb_last_key r) in
        r\<lparr>tb_last_key := last_key,
          tb_index_block := BlockBuilder_Add 1 last_key (BlockHandle_EncodeTo (tb_pending_handle r) []) (tb_index_block r),
          tb_pending_index_entry := False\<rparr>
      else r)"

definition TableBuilder_Add :: "checksum_fun \<Rightarrow> snappy_lib option \<Rightarrow> table_options \<Rightarrow> 's append_fun \<Rightarrow> 's flush_fun
    \<Rightarrow> slice \<Rightarrow> slice \<Rightarrow> 's table_builder \<Rightarrow> 's table_builder option" where
  "TableBuilder_Add chk lib opt app flush key value r =
     (if tb_status r \<noteq> OK then Some r
      else let
        r = index_entry (\<lambda>last_key. FindShortestSeparator (opt_comparator opt) last_key key) r;
        r = r\<lparr>tb_filter_block := map_option (AddKey key) (tb_filter_block r), tb_last_key := key,
              tb_num_entries := tb_num_entries r + 1,
              tb_data_block := BlockBuilder_Add (opt_restart_interval opt) key value (tb_data_block r)\<rparr>
      in if CurrentSizeEstimate (tb_data_block r) \<ge> opt_block_size opt
         then TableBuilder_Flush chk lib opt app flush r
         else Some r)"

definition char_bytes :: "string \<Rightarrow> slice" where
  "char_bytes s = map of_char s"

definition filter_key :: "filter_policy \<Rightarrow> slice" where
  "filter_key p = char_bytes (''filter.'' @ policy_Name p)"

text \<open>The four parts of \<^verbatim>\<open>Finish\<close>.\<close>

definition Finish_filter :: "checksum_fun \<Rightarrow> table_options \<Rightarrow> 's append_fun \<Rightarrow> 's table_builder
    \<Rightarrow> (block_handle \<times> 's table_builder) option" where
  "Finish_filter chk opt app r =
     (case (opt_filter_policy opt, tb_filter_block r) of
        (Some p, Some fb) \<Rightarrow>
          if tb_status r = OK then
            let (contents, fb) = FilterBlock_Finish p fb in
            WriteRawBlock chk app contents kNoCompression (r\<lparr>tb_filter_block := Some fb\<rparr>)
          else Some (new_BlockHandle, r)
      | _ \<Rightarrow> Some (new_BlockHandle, r))"

definition Finish_metaindex :: "checksum_fun \<Rightarrow> snappy_lib option \<Rightarrow> table_options \<Rightarrow> 's append_fun \<Rightarrow> block_handle
    \<Rightarrow> 's table_builder \<Rightarrow> (block_handle \<times> 's table_builder) option" where
  "Finish_metaindex chk lib opt app filter_handle r =
     (if tb_status r = OK then
        WriteBlock chk lib opt app
          (case (opt_filter_policy opt, tb_filter_block r) of
             (Some p, Some fb) \<Rightarrow> BlockBuilder_Add (opt_restart_interval opt) (filter_key p)
                (BlockHandle_EncodeTo filter_handle []) new_BlockBuilder
           | _ \<Rightarrow> new_BlockBuilder) r
      else Some (new_BlockHandle, r))"

definition Finish_index :: "checksum_fun \<Rightarrow> snappy_lib option \<Rightarrow> table_options \<Rightarrow> 's append_fun \<Rightarrow> 's table_builder
    \<Rightarrow> (block_handle \<times> 's table_builder) option" where
  "Finish_index chk lib opt app r =
     (if tb_status r = OK then
        let r = index_entry (FindShortSuccessor (opt_comparator opt)) r in
        do { (h, r) \<leftarrow> WriteBlock chk lib opt app (tb_index_block r) r;
             Some (h, r\<lparr>tb_index_block := BlockBuilder_Reset (tb_index_block r)\<rparr>) }
      else Some (new_BlockHandle, r))"

definition Finish_footer :: "'s append_fun \<Rightarrow> block_handle \<Rightarrow> block_handle \<Rightarrow> 's table_builder \<Rightarrow> 's table_builder option" where
  "Finish_footer app metaindex_handle index_handle r =
     (if tb_status r = OK then
        let footer_encoding = Footer_EncodeTo
              \<lparr>ft_metaindex_handle = metaindex_handle, ft_index_handle = index_handle\<rparr> [] in
        do { (s, file) \<leftarrow> app (tb_file r) footer_encoding;
             Some (r\<lparr>tb_file := file, tb_status := s,
               tb_offset := (if s = OK then tb_offset r + of_nat (length footer_encoding) else tb_offset r)\<rparr>) }
      else Some r)"

definition TableBuilder_Finish :: "checksum_fun \<Rightarrow> snappy_lib option \<Rightarrow> table_options \<Rightarrow> 's append_fun \<Rightarrow> 's flush_fun
    \<Rightarrow> 's table_builder \<Rightarrow> (status \<times> 's table_builder) option" where
  "TableBuilder_Finish chk lib opt app flush r =
     do { r \<leftarrow> TableBuilder_Flush chk lib opt app flush r;
          (filter_handle, r) \<leftarrow> Finish_filter chk opt app (r\<lparr>tb_closed := True\<rparr>);
          (metaindex_handle, r) \<leftarrow> Finish_metaindex chk lib opt app filter_handle r;
          (index_handle, r) \<leftarrow> Finish_index chk lib opt app r;
          r \<leftarrow> Finish_footer app metaindex_handle index_handle r;
          Some (tb_status r, r) }"

text \<open>The loop of \<^verbatim>\<open>BuildTable\<close> over the entries of an iterator.\<close>

fun add_entries :: "checksum_fun \<Rightarrow> snappy_lib option \<Rightarrow> table_options \<Rightarrow> 's append_fun \<Rightarrow> 's flush_fun
    \<Rightarrow> (slice \<times> slice) list \<Rightarrow> 's table_builder \<Rightarrow> 's table_builder option" where
  "add_entries chk lib opt app flush [] r = Some r"
| "add_entries chk lib opt app flush ((key, v) # entries) r =
     do { r \<leftarrow> TableBuilder_Add chk lib opt app flush key v r; add_entries chk lib opt app flush entries r }"

section \<open>Table\<close>

text \<open>The index is kept as the contents that its \<^verbatim>\<open>Block\<close> was made of.\<close>

record table =
  tbl_options :: table_options
  tbl_metaindex_handle :: block_handle
  tbl_index_block :: slice
  tbl_filter :: "filter_reader option"

fun Block_Seek :: "comparator \<Rightarrow> slice \<Rightarrow> block_iterator \<Rightarrow> block_iterator option" where
  "Block_Seek c target (BlockIter blk it) = map_option (BlockIter blk) (Iter_Seek c blk target it)"
| "Block_Seek c target iter = Some iter"

fun iterator_status :: "block_iterator \<Rightarrow> status" where
  "iterator_status (ErrorIterator s) = s"
| "iterator_status EmptyIterator = OK"
| "iterator_status (BlockIter blk it) = it_status it"

text \<open>The key and the value at a valid iterator.\<close>

fun iterator_entry :: "block_iterator \<Rightarrow> (slice \<times> slice) option" where
  "iterator_entry (BlockIter blk it) = (if Iter_Valid blk it then Some (it_key it, Iter_value blk it) else None)"
| "iterator_entry iter = None"

definition ReadFilter :: "checksum_fun \<Rightarrow> snappy_lib option \<Rightarrow> 'f read_fun \<Rightarrow> table_options \<Rightarrow> slice \<Rightarrow> 'f
    \<Rightarrow> (filter_reader option \<times> 'f) option" where
  "ReadFilter chk lib read opt filter_handle_value f =
     (case BlockHandle_DecodeFrom filter_handle_value of
        Inl _ \<Rightarrow> Some (None, f)
      | Inr (filter_handle, _) \<Rightarrow>
          do { (b, f) \<leftarrow> ReadBlock chk lib read (opt_paranoid_checks opt) filter_handle f;
               case b of Inl _ \<Rightarrow> Some (None, f) | Inr contents \<Rightarrow> Some (Some (new_FilterBlockReader contents), f) })"

definition ReadMeta :: "checksum_fun \<Rightarrow> snappy_lib option \<Rightarrow> 'f read_fun \<Rightarrow> table_options \<Rightarrow> footer \<Rightarrow> 'f
    \<Rightarrow> (filter_reader option \<times> 'f) option" where
  "ReadMeta chk lib read opt footer f =
     (case opt_filter_policy opt of
        None \<Rightarrow> Some (None, f)
      | Some p \<Rightarrow>
          do { (b, f) \<leftarrow> ReadBlock chk lib read (opt_paranoid_checks opt) (ft_metaindex_handle footer) f;
               case b of
                 Inl _ \<Rightarrow> Some (None, f)
               | Inr contents \<Rightarrow>
                   do { iter \<leftarrow> Block_Seek BytewiseComparator (filter_key p) (NewIterator contents);
                        case iterator_entry iter of
                          None \<Rightarrow> Some (None, f)
                        | Some (key, v) \<Rightarrow>
                            if key = filter_key p then ReadFilter chk lib read opt v f else Some (None, f) } })"

text \<open>A short read of the footer is not noticed: the bytes that were not read are uninitialised, which
  is \<^const>\<open>None\<close> here.\<close>

definition Table_Open :: "checksum_fun \<Rightarrow> snappy_lib option \<Rightarrow> 'f read_fun \<Rightarrow> table_options \<Rightarrow> nat \<Rightarrow> 'f
    \<Rightarrow> ((status + table) \<times> 'f) option" where
  "Table_Open chk lib read opt file_size f =
     (if file_size < kEncodedLength then Some (Inl (Corruption ''file is too short to be an sstable'' ''''), f)
      else do {
        (s, footer_input, f) \<leftarrow> read (of_nat (file_size - kEncodedLength)) kEncodedLength f;
        if s \<noteq> OK then Some (Inl s, f)
        else if length footer_input < kEncodedLength then None
        else case Footer_DecodeFrom footer_input of
          Inl s \<Rightarrow> Some (Inl s, f)
        | Inr (footer, _) \<Rightarrow>
            do { (b, f) \<leftarrow> ReadBlock chk lib read (opt_paranoid_checks opt) (ft_index_handle footer) f;
                 case b of
                   Inl s \<Rightarrow> Some (Inl s, f)
                 | Inr contents \<Rightarrow>
                     do { (flt, f) \<leftarrow> ReadMeta chk lib read opt footer f;
                          Some (Inr \<lparr>tbl_options = opt, tbl_metaindex_handle = ft_metaindex_handle footer,
                                     tbl_index_block = contents, tbl_filter = flt\<rparr>, f) } } })"

definition BlockReader :: "checksum_fun \<Rightarrow> snappy_lib option \<Rightarrow> 'f read_fun \<Rightarrow> bool \<Rightarrow> slice \<Rightarrow> 'f
    \<Rightarrow> (block_iterator \<times> 'f) option" where
  "BlockReader chk lib read verify_checksums index_value f =
     (case BlockHandle_DecodeFrom index_value of
        Inl s \<Rightarrow> Some (ErrorIterator s, f)
      | Inr (handle, _) \<Rightarrow>
          do { (b, f) \<leftarrow> ReadBlock chk lib read verify_checksums handle f;
               case b of Inl s \<Rightarrow> Some (ErrorIterator s, f) | Inr contents \<Rightarrow> Some (NewIterator contents, f) })"

text \<open>The result is the status and what \<^verbatim>\<open>handle_result\<close> has been called with.\<close>

definition InternalGet :: "checksum_fun \<Rightarrow> snappy_lib option \<Rightarrow> 'f read_fun \<Rightarrow> bool \<Rightarrow> table \<Rightarrow> slice \<Rightarrow> 'f
    \<Rightarrow> (status \<times> (slice \<times> slice) option \<times> 'f) option" where
  "InternalGet chk lib read verify_checksums t k f =
     do { iiter \<leftarrow> Block_Seek (opt_comparator (tbl_options t)) k (NewIterator (tbl_index_block t));
          (s, result, f) \<leftarrow>
            (case iterator_entry iiter of
               None \<Rightarrow> Some (OK, None, f)
             | Some (_, handle_value) \<Rightarrow>
                 if (case (opt_filter_policy (tbl_options t), tbl_filter t, BlockHandle_DecodeFrom handle_value) of
                       (Some p, Some flt, Inr (handle, _)) \<Rightarrow>
                         \<not> FilterBlock_KeyMayMatch p flt (bh_offset handle) k
                     | _ \<Rightarrow> False)
                 then Some (OK, None, f)
                 else do { (block_iter, f) \<leftarrow> BlockReader chk lib read verify_checksums handle_value f;
                           block_iter \<leftarrow> Block_Seek (opt_comparator (tbl_options t)) k block_iter;
                           Some (iterator_status block_iter, iterator_entry block_iter, f) });
          Some (if s = OK then iterator_status iiter else s, result, f) }"

definition ApproximateOffsetOf :: "table \<Rightarrow> slice \<Rightarrow> uint64 option" where
  "ApproximateOffsetOf t key =
     do { index_iter \<leftarrow> Block_Seek (opt_comparator (tbl_options t)) key (NewIterator (tbl_index_block t));
          Some (case iterator_entry index_iter of
                  Some (_, v) \<Rightarrow>
                    (case BlockHandle_DecodeFrom v of
                       Inr (handle, _) \<Rightarrow> bh_offset handle
                     | Inl _ \<Rightarrow> bh_offset (tbl_metaindex_handle t))
                | None \<Rightarrow> bh_offset (tbl_metaindex_handle t)) }"

end
