(* ===== verification/LDB_Block_Props.thy ===== *)
theory LDB_Block_Props
  imports LDB_Block
begin

text \<open>
  A finished block gives back the entries that were added: walking forwards and backwards, and by
  searching for a key.  The entries of a block are described by a list of triples, the number of
  shared key bytes, the key and the value; an iterator stands at an index of that list.
\<close>

section \<open>The bytes of a block\<close>

type_synonym entry = "nat \<times> slice \<times> slice"

abbreviation sh_of :: "entry \<Rightarrow> nat" where "sh_of e \<equiv> fst e"
abbreviation key_of :: "entry \<Rightarrow> slice" where "key_of e \<equiv> fst (snd e)"
abbreviation val_of :: "entry \<Rightarrow> slice" where "val_of e \<equiv> snd (snd e)"

definition enc :: "entry \<Rightarrow> slice" where
  "enc e = EncodeVarint32 (of_nat (sh_of e)) @ EncodeVarint32 (of_nat (length (key_of e) - sh_of e))
     @ EncodeVarint32 (of_nat (length (val_of e))) @ drop (sh_of e) (key_of e) @ val_of e"

definition encs :: "entry list \<Rightarrow> slice" where
  "encs xs = concat (map enc xs)"

definition off :: "entry list \<Rightarrow> nat \<Rightarrow> nat" where
  "off xs i = length (encs (take i xs))"

lemma encs_simps [simp]: "encs [] = []" "encs (xs @ [e]) = encs xs @ enc e"
  by (simp_all add: encs_def)

lemma encs_split: "i < length xs \<Longrightarrow> encs xs = encs (take i xs) @ enc (xs ! i) @ encs (drop (Suc i) xs)"
  using arg_cong [OF id_take_nth_drop [of i xs], of encs] by (simp add: encs_def)

lemma varint32_pos: "0 < length (EncodeVarint32 v)"
  by (simp add: EncodeVarint32_loop)

lemma enc_length: "3 \<le> length (enc e)"
  using varint32_pos [of "of_nat (sh_of e)"] varint32_pos [of "of_nat (length (key_of e) - sh_of e)"]
    varint32_pos [of "of_nat (length (val_of e))"]
  by (simp add: enc_def del: length_greater_0_conv)

lemma off_0 [simp]: "off xs 0 = 0"
  by (simp add: off_def)

lemma off_Suc: "i < length xs \<Longrightarrow> off xs (Suc i) = off xs i + length (enc (xs ! i))"
  by (simp add: off_def take_Suc_conv_app_nth)

lemma off_all: "length xs \<le> i \<Longrightarrow> off xs i = length (encs xs)"
  by (simp add: off_def)

lemma off_append: "i \<le> length xs \<Longrightarrow> off (xs @ ys) i = off xs i"
  by (simp add: off_def)

lemma off_less: "i < j \<Longrightarrow> j \<le> length xs \<Longrightarrow> off xs i < off xs j"
proof (induction j)
  case (Suc j)
  then have "off xs j < off xs (Suc j)" using enc_length [of "xs ! j"] by (auto simp: off_Suc)
  then show ?case using Suc by (cases "i = j") auto
qed simp

lemma off_less_iff: "i \<le> length xs \<Longrightarrow> j \<le> length xs \<Longrightarrow> off xs i < off xs j \<longleftrightarrow> i < j"
  by (metis linorder_neqE_nat off_less order_less_asym)

lemma drop_off: "i < length xs \<Longrightarrow> drop (off xs i) (encs xs) = enc (xs ! i) @ encs (drop (Suc i) xs)"
  by (subst encs_split [of i]) (simp_all add: off_def)

section \<open>Decoding an entry\<close>

lemma less_128_iff: "(x :: uint32) < 128 \<longleftrightarrow> (\<forall>n \<ge> 7. \<not> bit x n)"
proof
  assume "x < 128"
  then have "unat x < 2 ^ 7" by (simp add: word_less_nat_alt)
  then show "\<forall>n \<ge> 7. \<not> bit x n" using unat_less_bit by blast
next
  assume "\<forall>n \<ge> 7. \<not> bit x n"
  then have "take_bit 7 x = x" by (intro bit_word_eqI) (simp add: bit_simps, meson not_less)
  then have "unat x < 2 ^ 7" by (metis take_bit_nat_less_exp unsigned_take_bit_eq)
  then show "x < 128" by (simp add: word_less_nat_alt)
qed

lemma or3_less_128:
  "(ucast (a :: byte) OR ucast (b :: byte) OR ucast (c :: byte) :: uint32) < 128
     \<longleftrightarrow> \<not> bit a 7 \<and> \<not> bit b 7 \<and> \<not> bit c 7"
proof -
  have "n = 7" if "bit (x :: byte) n" "7 \<le> n" for x n
    using bit_imp_le_length [OF that(1)] that(2) by simp
  then show ?thesis unfolding less_128_iff by (auto simp: bit_simps)
qed

text \<open>The first byte of a varint says whether there are more.\<close>

lemma varint32_first:
  "bit (hd (EncodeVarint32 v)) 7 \<longleftrightarrow> unat v \<ge> 128"
  "unat v < 128 \<Longrightarrow> EncodeVarint32 v = [ucast v]"
proof -
  have "\<not> bit v 7" if "unat v < 128" using unat_less_bit [of v 7 7] that by simp
  then show "bit (hd (EncodeVarint32 v)) 7 \<longleftrightarrow> unat v \<ge> 128"
    by (cases "unat v \<ge> 128") (simp_all add: EncodeVarint32_loop varint_bytes_shift bit_simps bit_masks)
  show "unat v < 128 \<Longrightarrow> EncodeVarint32 v = [ucast v]"
    by (simp add: EncodeVarint32_loop varint_bytes_shift)
qed

lemma ucast_byte_small: "unat (v :: uint32) < 128 \<Longrightarrow> ucast (ucast v :: byte) = v"
proof -
  assume "unat v < 128"
  then have "n < 7" if "bit v n" for n using unat_less_bit [of v 7 n] that by fastforce
  then show "ucast (ucast v :: byte) = v" by (intro bit_word_eqI) (fastforce simp: bit_simps)
qed

lemma DecodeEntry_varints:
  fixes s n l :: uint32
  assumes "\<not> of_nat (length q) < n + l"
  shows "DecodeEntry (EncodeVarint32 s @ EncodeVarint32 n @ EncodeVarint32 l @ q) = Some (s, n, l, q)"
proof (cases "unat s < 128 \<and> unat n < 128 \<and> unat l < 128")
  case True
  then have e: "EncodeVarint32 s = [ucast s]" "EncodeVarint32 n = [ucast n]" "EncodeVarint32 l = [ucast l]"
    by (simp_all add: varint32_first(2))
  have "\<not> bit (ucast v :: byte) 7" if "unat (v :: uint32) < 128" for v
    using varint32_first [of v] that by simp
  then have "(ucast (ucast s :: byte) OR ucast (ucast n :: byte) OR ucast (ucast l :: byte) :: uint32) < 128"
    using True by (simp only: or3_less_128) simp
  then show ?thesis using True assms by (simp add: DecodeEntry_def e ucast_byte_small)
next
  case False
  let ?p = "EncodeVarint32 s @ EncodeVarint32 n @ EncodeVarint32 l @ q"
  obtain a as where a: "EncodeVarint32 s = a # as" using varint32_pos [of s] by (cases "EncodeVarint32 s") auto
  obtain b bs where b: "EncodeVarint32 n = b # bs" using varint32_pos [of n] by (cases "EncodeVarint32 n") auto
  obtain c cs where c: "EncodeVarint32 l = c # cs" using varint32_pos [of l] by (cases "EncodeVarint32 l") auto
  have "bit (?p ! 0) 7 \<or> bit (?p ! 1) 7 \<or> bit (?p ! 2) 7"
    using False varint32_first [of s] varint32_first [of n] varint32_first [of l] a b c
    by (cases "unat s < 128"; cases "unat n < 128") (auto simp: not_less)
  then have "\<not> (ucast (?p ! 0) OR ucast (?p ! 1) OR ucast (?p ! 2) :: uint32) < 128"
    by (simp only: or3_less_128) blast
  moreover have "\<not> length ?p < 3" using a b c by simp
  ultimately show ?thesis using assms by (simp only: DecodeEntry_def Let_def if_False) simp
qed

lemma DecodeEntry_enc:
  assumes "sh_of e \<le> length (key_of e)" "length (enc e) + length rest < 2 ^ 32"
  shows "DecodeEntry (enc e @ rest) = Some (of_nat (sh_of e), of_nat (length (key_of e) - sh_of e),
           of_nat (length (val_of e)), drop (sh_of e) (key_of e) @ val_of e @ rest)"
proof -
  let ?q = "drop (sh_of e) (key_of e) @ val_of e @ rest"
  have "length ?q < 2 ^ 32" using assms(2) by (simp add: enc_def)
  then have "\<not> (of_nat (length ?q) :: uint32) < of_nat (length (key_of e) - sh_of e) + of_nat (length (val_of e))"
    by (simp add: word_less_nat_alt unat_of_nat take_bit_nat_eq_self flip: of_nat_add)
  from DecodeEntry_varints [OF this] show ?thesis by (simp add: enc_def)
qed

section \<open>Blocks and the entries they hold\<close>

definition wf_entries :: "entry list \<Rightarrow> bool" where
  "wf_entries xs \<longleftrightarrow> (\<forall>i < length xs. sh_of (xs ! i) \<le> length (key_of (xs ! i)) \<and>
     (if i = 0 then sh_of (xs ! i) = 0
      else sh_of (xs ! i) \<le> length (key_of (xs ! (i - 1))) \<and>
        take (sh_of (xs ! i)) (key_of (xs ! (i - 1))) = take (sh_of (xs ! i)) (key_of (xs ! i))))"

text \<open>\<^verbatim>\<open>js\<close> are the indices of the entries at the restart points.\<close>

definition restarts_at :: "entry list \<Rightarrow> nat list \<Rightarrow> bool" where
  "restarts_at xs js \<longleftrightarrow> js \<noteq> [] \<and> js ! 0 = 0 \<and> sorted_wrt (<) js \<and>
     (if xs = [] then js = [0] else \<forall>j \<in> set js. j < length xs \<and> sh_of (xs ! j) = 0)"

definition represents :: "block \<Rightarrow> entry list \<Rightarrow> nat list \<Rightarrow> bool" where
  "represents blk xs js \<longleftrightarrow> wf_entries xs \<and> restarts_at xs js \<and> length (encs xs) < 2 ^ 32
     \<and> bk_restarts blk = length (encs xs) \<and> take (bk_restarts blk) (bk_data blk) = encs xs
     \<and> bk_num_restarts blk = length js
     \<and> (\<forall>j < length js. GetRestartPoint blk j = off xs (js ! j))"

definition iter_at :: "block \<Rightarrow> entry list \<Rightarrow> nat \<Rightarrow> block_iter \<Rightarrow> bool" where
  "iter_at blk xs i it \<longleftrightarrow> i < length xs \<and> it_current it = off xs i \<and> it_key it = key_of (xs ! i)
     \<and> NextEntryOffset it = off xs (Suc i) \<and> snd (it_value it) = length (val_of (xs ! i))
     \<and> it_restart_index it < bk_num_restarts blk \<and> it_status it = OK"

definition iter_end :: "block \<Rightarrow> block_iter \<Rightarrow> bool" where
  "iter_end blk it \<longleftrightarrow> it_current it = bk_restarts blk \<and> it_status it = OK"

text \<open>An iterator that will parse entry \<^verbatim>\<open>i\<close> next.\<close>

definition ready :: "block \<Rightarrow> entry list \<Rightarrow> nat \<Rightarrow> block_iter \<Rightarrow> bool" where
  "ready blk xs i it \<longleftrightarrow> NextEntryOffset it = off xs i \<and> it_restart_index it < bk_num_restarts blk
     \<and> it_status it = OK
     \<and> (i < length xs \<longrightarrow> sh_of (xs ! i) \<le> length (it_key it) \<and>
          take (sh_of (xs ! i)) (it_key it) = take (sh_of (xs ! i)) (key_of (xs ! i)))"

lemma iter_at_ready: "represents blk xs js \<Longrightarrow> iter_at blk xs i it \<Longrightarrow> ready blk xs (Suc i) it"
  unfolding represents_def wf_entries_def iter_at_def ready_def by fastforce

lemma restart_index_bounds:
  "restarts_at xs js \<Longrightarrow> j < length js \<Longrightarrow> js ! j \<le> length xs \<and> (xs \<noteq> [] \<longrightarrow> js ! j < length xs)"
  by (auto simp: restarts_at_def less_imp_le split: if_splits)

lemma SeekToRestartPoint_ready:
  assumes "represents blk xs js" "j < length js" "it_status it = OK"
  shows "ready blk xs (js ! j) (SeekToRestartPoint blk j it)"
  using assms restart_index_bounds [of xs js j]
  by (auto simp: represents_def ready_def SeekToRestartPoint_def NextEntryOffset_def restarts_at_def
      split: if_splits)

lemma advance_restart_bound: "i < bk_num_restarts blk \<Longrightarrow> advance_restart blk cur i < bk_num_restarts blk"
  by (induction blk cur i rule: advance_restart.induct) (subst advance_restart.simps, simp)

lemma DecodeEntry_at:
  assumes "represents blk xs js" "i < length xs"
  shows "DecodeEntry (drop (off xs i) (take (bk_restarts blk) (bk_data blk))) =
    Some (of_nat (sh_of (xs ! i)), of_nat (length (key_of (xs ! i)) - sh_of (xs ! i)),
      of_nat (length (val_of (xs ! i))),
      drop (sh_of (xs ! i)) (key_of (xs ! i)) @ val_of (xs ! i) @ encs (drop (Suc i) xs))"
proof -
  have "length (enc (xs ! i)) + length (encs (drop (Suc i) xs)) < 2 ^ 32"
    using assms encs_split [of i xs] by (simp add: represents_def)
  moreover have "sh_of (xs ! i) \<le> length (key_of (xs ! i))"
    using assms by (simp add: represents_def wf_entries_def)
  moreover have "take (bk_restarts blk) (bk_data blk) = encs xs"
    using assms unfolding represents_def by blast
  then have "drop (off xs i) (take (bk_restarts blk) (bk_data blk)) = enc (xs ! i) @ encs (drop (Suc i) xs)"
    using drop_off [OF assms(2)] by simp
  ultimately show ?thesis using DecodeEntry_enc [of "xs ! i" "encs (drop (Suc i) xs)"] by simp
qed

lemma key_length_bound: "wf_entries xs \<Longrightarrow> i < length xs \<Longrightarrow> length (key_of (xs ! i)) \<le> off xs (Suc i)"
proof (induction i)
  case 0
  then have "sh_of (xs ! 0) = 0" by (simp add: wf_entries_def)
  then show ?case using 0 by (simp add: off_Suc enc_def)
next
  case (Suc i)
  then have "sh_of (xs ! Suc i) \<le> length (key_of (xs ! i))"
    by (auto simp: wf_entries_def dest!: spec [of _ "Suc i"])
  with Suc have "sh_of (xs ! Suc i) \<le> off xs (Suc i)" by simp
  moreover have "length (key_of (xs ! Suc i)) \<le> sh_of (xs ! Suc i) + length (enc (xs ! Suc i))"
    by (simp add: enc_def)
  ultimately show ?case using Suc.prems by (simp add: off_Suc [of "Suc i"])
qed

lemma entry_sizes:
  assumes "represents blk xs js" "i < length xs"
  shows "unat (of_nat (length (key_of (xs ! i)) - sh_of (xs ! i)) :: uint32) = length (key_of (xs ! i)) - sh_of (xs ! i)"
    "unat (of_nat (length (val_of (xs ! i))) :: uint32) = length (val_of (xs ! i))"
    "length (encs xs) = off xs (Suc i) + length (encs (drop (Suc i) xs))"
    "off xs (Suc i) \<ge> length (val_of (xs ! i))"
proof -
  have l: "length (encs xs) = off xs i + length (enc (xs ! i)) + length (encs (drop (Suc i) xs))"
    using encs_split [of i xs] assms(2) by (simp add: off_def)
  moreover have "length (key_of (xs ! i)) - sh_of (xs ! i) + length (val_of (xs ! i)) \<le> length (enc (xs ! i))"
    by (simp add: enc_def)
  moreover have "length (encs xs) < 2 ^ 32" using assms(1) by (simp add: represents_def)
  ultimately show "unat (of_nat (length (key_of (xs ! i)) - sh_of (xs ! i)) :: uint32) = length (key_of (xs ! i)) - sh_of (xs ! i)"
    "unat (of_nat (length (val_of (xs ! i))) :: uint32) = length (val_of (xs ! i))"
    "length (encs xs) = off xs (Suc i) + length (encs (drop (Suc i) xs))"
    "off xs (Suc i) \<ge> length (val_of (xs ! i))"
    using assms(2) by (simp_all add: unat_of_nat take_bit_nat_eq_self off_Suc)
qed

lemma ParseNextKey_at:
  assumes rep: "represents blk xs js" and rd: "ready blk xs i it" and i: "i < length xs"
  shows "\<exists>it'. ParseNextKey blk it = (True, it') \<and> iter_at blk xs i it'"
proof -
  let ?k = "key_of (xs ! i)" and ?s = "sh_of (xs ! i)" and ?v = "val_of (xs ! i)"
  let ?it = "it\<lparr>it_current := off xs i, it_key := ?k,
      it_value := (off xs (Suc i) - length ?v, length ?v),
      it_restart_index := advance_restart blk (off xs i) (it_restart_index it)\<rparr>"
  have no: "NextEntryOffset it = off xs i" "?s \<le> length (it_key it)" "take ?s (it_key it) = take ?s ?k"
    using rd i by (auto simp: ready_def)
  have br: "bk_restarts blk = length (encs xs)" using rep by (simp add: represents_def)
  have lt: "\<not> bk_restarts blk \<le> off xs i"
    using off_less [of i "length xs" xs] i by (simp add: br off_all not_le)
  have sk: "?s \<le> length ?k" using rep i by (auto simp: represents_def wf_entries_def)
  have us: "unat (of_nat ?s :: uint32) = ?s"
    using sk key_length_bound [of xs i] rep i entry_sizes(3) [OF rep i]
    by (simp add: represents_def unat_of_nat take_bit_nat_eq_self)
  note sz = entry_sizes [OF rep i]
  let ?p = "drop ?s ?k @ ?v @ encs (drop (Suc i) xs)"
  have "take ?s ?k @ take (length ?k - ?s) ?p = ?k" by simp
  moreover have "bk_restarts blk - length ?p + (length ?k - ?s) = off xs (Suc i) - length ?v"
    using sz(3) by (simp add: br off_Suc i enc_def)
  ultimately have "ParseNextKey blk it = (True, ?it)"
    using no(2) by (simp only: ParseNextKey_def Let_def no(1,3) lt DecodeEntry_at [OF rep i] us sz(1,2)
        if_False option.case prod.case not_le [symmetric] block_iter.select_convs block_iter.update_convs)
      (simp add: no(3))
  moreover have "iter_at blk xs i ?it"
    using rd i sz(4) by (simp add: iter_at_def ready_def NextEntryOffset_def advance_restart_bound)
  ultimately show ?thesis by blast
qed

lemma ParseNextKey_end:
  assumes "represents blk xs js" "ready blk xs (length xs) it"
  shows "\<exists>it'. ParseNextKey blk it = (False, it') \<and> iter_end blk it'"
  using assms by (simp add: represents_def ready_def ParseNextKey_def off_all iter_end_def)

section \<open>Moving an iterator\<close>

lemma skip_entries_at:
  assumes rep: "represents blk xs js" and "ready blk xs i it" "i < m" "m \<le> length xs"
  shows "\<exists>it'. skip_entries blk (off xs m) it = Some it' \<and> iter_at blk xs (m - 1) it'"
  using assms(2-)
proof (induction "m - i" arbitrary: i it)
  case (Suc d)
  obtain it' where it': "ParseNextKey blk it = (True, it')" "iter_at blk xs i it'"
    using ParseNextKey_at [OF rep Suc.prems(1)] Suc.prems by auto
  have less: "NextEntryOffset it' < off xs m \<longleftrightarrow> Suc i < m"
    using it'(2) Suc.prems by (simp add: iter_at_def off_less_iff)
  show ?case
  proof (cases "Suc i < m")
    case True
    with Suc.hyps(1) [of "Suc i" it'] Suc.hyps(2) Suc.prems iter_at_ready [OF rep it'(2)] less it'(1)
    show ?thesis by (subst skip_entries.simps) simp
  next
    case False
    then have "i = m - 1" using Suc.prems by simp
    with it' less False show ?thesis by (subst skip_entries.simps) simp
  qed
qed simp

lemma scan_restarts_at:
  assumes rep: "represents blk xs js" and "r < length js" "i < length xs"
  shows "case scan_restarts blk (off xs i) r of None \<Rightarrow> i = 0 | Some j \<Rightarrow> j < length js \<and> js ! j < i"
  using assms(2)
proof (induction r)
  have gp: "off xs i \<le> GetRestartPoint blk j \<longleftrightarrow> i \<le> js ! j" if "j < length js" for j
    using that rep assms(3) restart_index_bounds [of xs js j] off_less_iff [of "js ! j" xs i]
    by (auto simp: represents_def simp flip: not_less)
  { case 0
    have "js ! 0 = 0" using rep by (simp add: represents_def restarts_at_def)
    then show ?case using gp [OF 0] 0 by auto
  next
    case (Suc r)
    then show ?case using gp [of "Suc r"] by (auto simp: not_le split: option.splits) }
qed

lemma Iter_SeekToFirst_at:
  assumes rep: "represents blk xs js" and "it_status it = OK"
  shows "if xs = [] then iter_end blk (Iter_SeekToFirst blk it) else iter_at blk xs 0 (Iter_SeekToFirst blk it)"
proof -
  have "0 < length js" "js ! 0 = 0" using rep by (simp_all add: represents_def restarts_at_def)
  then have "ready blk xs 0 (SeekToRestartPoint blk 0 it)"
    using SeekToRestartPoint_ready [OF rep, of 0 it] assms(2) by simp
  then show ?thesis
    using ParseNextKey_at [OF rep, of 0] ParseNextKey_end [OF rep] by (force simp: Iter_SeekToFirst_def)
qed

lemma Iter_Next_at:
  assumes rep: "represents blk xs js" and "iter_at blk xs i it"
  shows "if Suc i = length xs then iter_end blk (Iter_Next blk it) else iter_at blk xs (Suc i) (Iter_Next blk it)"
proof -
  have "ready blk xs (Suc i) it" "i < length xs"
    using assms iter_at_ready by (auto simp: iter_at_def)
  then show ?thesis
    using ParseNextKey_at [OF rep, of "Suc i" it] ParseNextKey_end [OF rep, of it]
    by (cases "Suc i = length xs") (auto simp: Iter_Next_def)
qed

lemma Iter_SeekToLast_at:
  assumes rep: "represents blk xs js" and "it_status it = OK"
  shows "\<exists>it'. Iter_SeekToLast blk it = Some it' \<and>
    (if xs = [] then iter_end blk it' else iter_at blk xs (length xs - 1) it')"
proof -
  have js: "js \<noteq> []" "bk_num_restarts blk = length js" "bk_restarts blk = off xs (length xs)"
    using rep by (simp_all add: represents_def restarts_at_def off_all)
  let ?j = "length js - 1"
  have rd: "ready blk xs (js ! ?j) (SeekToRestartPoint blk ?j it)"
    using SeekToRestartPoint_ready [OF rep, of ?j it] js assms(2) by simp
  have b: "xs \<noteq> [] \<longrightarrow> js ! ?j < length xs" "xs = [] \<longrightarrow> js ! ?j = 0"
    using rep restart_index_bounds [of xs js ?j] js(1) by (auto simp: represents_def)
  show ?thesis
  proof (cases "xs = []")
    case True
    with rd b ParseNextKey_end [OF rep] show ?thesis
      by (subst (asm) True) (force simp: Iter_SeekToLast_def js skip_entries.simps)
  next
    case False
    then show ?thesis using skip_entries_at [OF rep rd _ order_refl] b by (simp add: Iter_SeekToLast_def js)
  qed
qed

lemma Iter_Prev_at:
  assumes rep: "represents blk xs js" and at: "iter_at blk xs i it"
  shows "\<exists>it'. Iter_Prev blk it = Some it' \<and>
    (if i = 0 then iter_end blk it' else iter_at blk xs (i - 1) it')"
proof -
  have it: "it_current it = off xs i" "it_restart_index it < length js" "i < length xs" "it_status it = OK"
    using at rep by (simp_all add: iter_at_def represents_def)
  show ?thesis
  proof (cases "scan_restarts blk (off xs i) (it_restart_index it)")
    case None
    then have "i = 0" using scan_restarts_at [OF rep it(2,3)] by simp
    with None it show ?thesis by (simp add: Iter_Prev_def iter_end_def)
  next
    case (Some j)
    then have j: "j < length js" "js ! j < i" using scan_restarts_at [OF rep it(2,3)] by simp_all
    then have "ready blk xs (js ! j) (SeekToRestartPoint blk j it)"
      using SeekToRestartPoint_ready [OF rep] it by blast
    from skip_entries_at [OF rep this j(2)] it Some j show ?thesis by (simp add: Iter_Prev_def)
  qed
qed

section \<open>Searching\<close>

lemma seek_restart_at:
  assumes rep: "represents blk xs js"
    and "right < length js" "left \<le> right"
    and "left = 0 \<or> js ! left < length xs \<and> Compare c (key_of (xs ! (js ! left))) target < 0"
  shows "\<exists>l < length js. seek_restart c blk target left right = Some l \<and>
    (l = 0 \<or> js ! l < length xs \<and> Compare c (key_of (xs ! (js ! l))) target < 0)"
  using assms(2-)
proof (induction "right - left" arbitrary: left right rule: less_induct)
  case less
  show ?case
  proof (cases "left < right")
    case True
    define m where "m = (left + right + 1) div 2"
    have m: "left < m" "m \<le> right" using True by (auto simp: m_def)
    then have ml: "m < length js" using less.prems by simp
    moreover have "xs \<noteq> []"
      using ml m rep by (auto simp: represents_def restarts_at_def)
    ultimately have mx: "js ! m < length xs" "sh_of (xs ! (js ! m)) = 0" "GetRestartPoint blk m = off xs (js ! m)"
      using rep by (auto simp: represents_def restarts_at_def)
    have eq: "seek_restart c blk target left right =
      (if Compare c (key_of (xs ! (js ! m))) target < 0 then seek_restart c blk target m right
       else seek_restart c blk target left (m - 1))"
      using True entry_sizes(1) [OF rep mx(1)] mx(2)
      by (subst seek_restart.simps, simp only: Let_def m_def [symmetric])
        (simp add: mx(3) DecodeEntry_at [OF rep mx(1)])
    show ?thesis
      using less.hyps [of right m] less.hyps [of "m - 1" left] less.prems m ml mx
      by (cases "Compare c (key_of (xs ! (js ! m))) target < 0") (simp_all add: eq)
  next
    case False
    with less.prems show ?thesis by (subst seek_restart.simps) auto
  qed
qed

abbreviation seek_index :: "comparator \<Rightarrow> slice \<Rightarrow> entry list \<Rightarrow> nat" where
  "seek_index c target xs \<equiv> length (takeWhile (\<lambda>e. Compare c (key_of e) target < 0) xs)"

lemma seek_linear_at:
  assumes rep: "represents blk xs js"
    and "ready blk xs i it" "i \<le> length xs" "\<forall>k < i. Compare c (key_of (xs ! k)) target < 0"
  shows "\<exists>it'. seek_linear c blk target it = Some it' \<and>
    (if seek_index c target xs = length xs then iter_end blk it' else iter_at blk xs (seek_index c target xs) it')"
  using assms(2-)
proof (induction "length xs - i" arbitrary: i it)
  case 0
  then have i: "i = length xs" by simp
  then have "\<forall>e \<in> set xs. Compare c (key_of e) target < 0"
    using 0(4) by (metis in_set_conv_nth)
  then have "takeWhile (\<lambda>e. Compare c (key_of e) target < 0) xs = xs" by (simp only: takeWhile_eq_all_conv)
  then have "seek_index c target xs = length xs" by (simp only:)
  moreover obtain it' where "ParseNextKey blk it = (False, it')" "iter_end blk it'"
    using ParseNextKey_end [OF rep] 0 i by blast
  ultimately show ?case by (subst seek_linear.simps) simp
next
  case (Suc d)
  then have i: "i < length xs" by simp
  obtain it' where it': "ParseNextKey blk it = (True, it')" "iter_at blk xs i it'"
    using ParseNextKey_at [OF rep Suc.prems(1) i] by auto
  then have k: "it_key it' = key_of (xs ! i)" by (simp add: iter_at_def)
  show ?case
  proof (cases "Compare c (key_of (xs ! i)) target < 0")
    case True
    then have "\<forall>k < Suc i. Compare c (key_of (xs ! k)) target < 0" using Suc.prems less_Suc_eq by auto
    with Suc.hyps(1) [of "Suc i" it'] Suc.hyps(2) i iter_at_ready [OF rep it'(2)]
    have "\<exists>it''. seek_linear c blk target it' = Some it'' \<and> (if seek_index c target xs = length xs
      then iter_end blk it'' else iter_at blk xs (seek_index c target xs) it'')" by simp
    moreover have "\<not> 0 \<le> Compare c (it_key it') target" using True k by simp
    ultimately show ?thesis by (subst seek_linear.simps) (simp only: it'(1) prod.case if_False not_True_eq_False)
  next
    case False
    have "takeWhile (\<lambda>e. Compare c (key_of e) target < 0) xs = take i xs"
      using takeWhile_eq_take_P_nth [of i xs "\<lambda>e. Compare c (key_of e) target < 0"] Suc.prems False i by auto
    with it' k False i show ?thesis by (subst seek_linear.simps) simp
  qed
qed

context key_order
begin

lemma Iter_Seek_at:
  assumes rep: "represents blk xs js" and "it_status it = OK" and "valid target"
    and v: "\<forall>e \<in> set xs. valid (key_of e)"
    and sorted: "sorted_wrt (\<lambda>d e. Compare c (key_of d) (key_of e) < 0) xs"
  shows "\<exists>it'. Iter_Seek c blk target it = Some it' \<and>
    (if seek_index c target xs = length xs then iter_end blk it' else iter_at blk xs (seek_index c target xs) it')"
proof -
  have js: "js \<noteq> []" "js ! 0 = 0" "bk_num_restarts blk = length js"
    using rep by (simp_all add: represents_def restarts_at_def)
  obtain l where l: "l < length js" "seek_restart c blk target 0 (length js - 1) = Some l"
    "l = 0 \<or> js ! l < length xs \<and> Compare c (key_of (xs ! (js ! l))) target < 0"
    using seek_restart_at [OF rep, of "length js - 1" 0 c target] js by auto
  have "Compare c (key_of (xs ! k)) target < 0" if "k < js ! l" for k
    using that l(3) js(2) sorted_wrt_nth_less [OF sorted, of k "js ! l"] v assms(3)
    by (auto intro: compare_trans [of "key_of (xs ! k)" "key_of (xs ! (js ! l))" target])
  moreover have "js ! l \<le> length xs"
    using rep restart_index_bounds [of xs js l] l(1) by (simp add: represents_def)
  ultimately show ?thesis
    using seek_linear_at [OF rep SeekToRestartPoint_ready [OF rep l(1) assms(2)]] l(2) js(3)
    by (simp add: Iter_Seek_def)
qed

end

section \<open>Building a block\<close>

lemma diff_index_common:
  "diff_index a b \<le> length a" "diff_index a b \<le> length b" "take (diff_index a b) a = take (diff_index a b) b"
  by (induction a b rule: diff_index.induct) auto

definition bb_inv :: "nat \<Rightarrow> block_builder \<Rightarrow> entry list \<Rightarrow> nat list \<Rightarrow> bool" where
  "bb_inv interval b xs js \<longleftrightarrow> wf_entries xs \<and> restarts_at xs js \<and> bb_buffer b = encs xs
     \<and> bb_restarts b = map (off xs) js \<and> last js + bb_counter b = length xs
     \<and> bb_last_key b = (if xs = [] then [] else key_of (last xs))"

lemma bb_inv_new: "bb_inv interval new_BlockBuilder [] [0]"
  by (simp add: bb_inv_def wf_entries_def restarts_at_def new_BlockBuilder_def)

lemma wf_entries_snoc:
  assumes "wf_entries xs" "s \<le> length k"
    "if xs = [] then s = 0 else s \<le> length (key_of (last xs)) \<and> take s (key_of (last xs)) = take s k"
  shows "wf_entries (xs @ [(s, k, v)])"
  using assms by (auto simp: wf_entries_def nth_append less_Suc_eq last_conv_nth split: if_splits)

lemma map_off_append: "restarts_at xs js \<Longrightarrow> map (off (xs @ ys)) js = map (off xs) js"
  by (auto simp: restarts_at_def off_append less_imp_le split: if_splits)

lemma restarts_at_snoc:
  assumes "restarts_at xs js" "xs = [] \<longrightarrow> s = 0"
  shows "restarts_at (xs @ [(s, k, v)]) js"
  using assms by (auto simp: restarts_at_def nth_append split: if_splits)

lemma restarts_at_new:
  assumes "restarts_at xs js" "xs \<noteq> []"
  shows "restarts_at (xs @ [(0, k, v)]) (js @ [length xs])"
  using assms by (auto simp: restarts_at_def nth_append sorted_wrt_append)

lemma BlockBuilder_Add_inv:
  assumes inv: "bb_inv interval b xs js" and "1 \<le> interval"
  shows "\<exists>s js'. bb_inv interval (BlockBuilder_Add interval key val b) (xs @ [(s, key, val)]) js'"
proof (cases "bb_counter b < interval")
  case True
  let ?s = "diff_index (bb_last_key b) key"
  have "wf_entries (xs @ [(?s, key, val)])"
    using inv diff_index_common [of "bb_last_key b" key] by (intro wf_entries_snoc) (auto simp: bb_inv_def)
  moreover have "restarts_at (xs @ [(?s, key, val)]) js"
    using inv by (intro restarts_at_snoc) (auto simp: bb_inv_def)
  ultimately have "bb_inv interval (BlockBuilder_Add interval key val b) (xs @ [(?s, key, val)]) js"
    using True inv diff_index_common(3) [of "bb_last_key b" key]
    by (simp add: bb_inv_def BlockBuilder_Add_def map_off_append PutVarint32_def enc_def)
  then show ?thesis by blast
next
  case False
  with assms have ne: "xs \<noteq> []" by (auto simp: bb_inv_def restarts_at_def)
  then have "bb_inv interval (BlockBuilder_Add interval key val b) (xs @ [(0, key, val)]) (js @ [length xs])"
    using False inv wf_entries_snoc [of xs 0 key val] restarts_at_new [of xs js key val]
    by (simp add: bb_inv_def BlockBuilder_Add_def map_off_append PutVarint32_def enc_def off_append off_all)
  then show ?thesis by blast
qed

definition build :: "nat \<Rightarrow> (slice \<times> slice) list \<Rightarrow> block_builder" where
  "build interval es = foldl (\<lambda>b (k, v). BlockBuilder_Add interval k v b) new_BlockBuilder es"

lemma build_inv:
  assumes "1 \<le> interval"
  shows "\<exists>xs js. map snd xs = es \<and> bb_inv interval (build interval es) xs js"
proof (induction es rule: rev_induct)
  case Nil
  then show ?case using bb_inv_new by (auto simp: build_def)
next
  case (snoc e es)
  then obtain xs js where xs: "map snd xs = es" "bb_inv interval (build interval es) xs js" by blast
  obtain k v where e: "e = (k, v)" by fastforce
  from BlockBuilder_Add_inv [OF xs(2) assms, of k v] obtain s js'
    where "bb_inv interval (build interval (es @ [e])) (xs @ [(s, k, v)]) js'" by (auto simp: build_def e)
  moreover have "map snd (xs @ [(s, k, v)]) = es @ [e]" using xs(1) e by simp
  ultimately show ?case by blast
qed

lemma Finish_bytes:
  "fst (BlockBuilder_Finish b) = bb_buffer b @ fixed32_array (bb_restarts b)
     @ EncodeFixed32 (of_nat (length (bb_restarts b)))"
  by (simp add: BlockBuilder_Finish_def foldl_PutFixed32 Let_def) (simp add: PutFixed32_def)

lemma CurrentSizeEstimate_exact: "CurrentSizeEstimate b = length (fst (BlockBuilder_Finish b))"
  by (simp add: CurrentSizeEstimate_def Finish_bytes length_fixed32_array del: length_concat)

lemma new_Block_Finish:
  assumes inv: "bb_inv interval b xs js" and small: "length (fst (BlockBuilder_Finish b)) < 2 ^ 32"
  shows "\<exists>blk. new_Block (fst (BlockBuilder_Finish b)) = Some blk \<and> represents blk xs js"
proof -
  let ?rs = "map (off xs) js" and ?f = "fst (BlockBuilder_Finish b)"
  let ?arr = "fixed32_array ?rs"
  have f: "?f = encs xs @ ?arr @ EncodeFixed32 (of_nat (length js))"
    using inv by (simp only: Finish_bytes bb_inv_def) simp
  have len: "length ?f = length (encs xs) + 4 * length js + 4"
    using length_fixed32_array [of ?rs] unfolding f by (simp del: length_concat)
  have "NumRestarts ?f = length js"
    using small length_fixed32_array [of ?rs] DecodeFixed32_Encode [of "of_nat (length js)" "[]"]
    unfolding NumRestarts_def len by (simp add: f del: length_concat) (simp add: len unat_of_nat take_bit_nat_eq_self)
  then have "new_Block ?f = Some \<lparr>bk_data = ?f, bk_restarts = length (encs xs), bk_num_restarts = length js\<rparr>"
    by (simp add: new_Block_def len)
  moreover have "GetRestartPoint \<lparr>bk_data = ?f, bk_restarts = length (encs xs), bk_num_restarts = length js\<rparr> j
      = off xs (js ! j)" if j: "j < length js" for j
  proof -
    have "off xs (js ! j) \<le> length (encs xs)"
      using inv j restart_index_bounds [of xs js j] off_less [of "js ! j" "length xs" xs]
      by (cases "js ! j = length xs") (auto simp: bb_inv_def off_all)
    then have "unat (of_nat (off xs (js ! j)) :: uint32) = off xs (js ! j)"
      using small len by (simp add: unat_of_nat take_bit_nat_eq_self)
    with drop_fixed32_array [of j ?rs "EncodeFixed32 (of_nat (length js))"] j
    show ?thesis by (auto simp: GetRestartPoint_def f mult.commute)
  qed
  ultimately show ?thesis using inv small len by (auto simp: represents_def bb_inv_def f)
qed

section \<open>The iterator as a cursor\<close>

datatype iter_op = OpSeekToFirst | OpSeekToLast | OpSeek slice | OpNext | OpPrev

fun iter_step :: "comparator \<Rightarrow> block \<Rightarrow> iter_op \<Rightarrow> block_iter \<Rightarrow> block_iter option" where
  "iter_step c blk OpSeekToFirst it = Some (Iter_SeekToFirst blk it)"
| "iter_step c blk OpSeekToLast it = Iter_SeekToLast blk it"
| "iter_step c blk (OpSeek target) it = Iter_Seek c blk target it"
| "iter_step c blk OpNext it = Some (Iter_Next blk it)"
| "iter_step c blk OpPrev it = Iter_Prev blk it"

definition iter_output :: "block \<Rightarrow> block_iter \<Rightarrow> status \<times> (slice \<times> slice) option" where
  "iter_output blk it = (it_status it, if Iter_Valid blk it then Some (it_key it, Iter_value blk it) else None)"

fun run_iter :: "comparator \<Rightarrow> block \<Rightarrow> iter_op list \<Rightarrow> block_iter \<Rightarrow> (status \<times> (slice \<times> slice) option) list option" where
  "run_iter c blk [] it = Some []"
| "run_iter c blk (a # as) it =
     do { it \<leftarrow> iter_step c blk a it; outs \<leftarrow> run_iter c blk as it; Some (iter_output blk it # outs) }"

text \<open>
  The abstract cursor is an index in the list of the entries, the length of the list when it is not
  valid.  \<^verbatim>\<open>Next\<close> and \<^verbatim>\<open>Prev\<close> require a valid iterator.
\<close>

fun cursor_step :: "comparator \<Rightarrow> (slice \<times> slice) list \<Rightarrow> iter_op \<Rightarrow> nat \<Rightarrow> nat option" where
  "cursor_step c es OpSeekToFirst i = Some 0"
| "cursor_step c es OpSeekToLast i = Some (length es - 1)"
| "cursor_step c es (OpSeek target) i = Some (length (takeWhile (\<lambda>(k, v). Compare c k target < 0) es))"
| "cursor_step c es OpNext i = (if i < length es then Some (i + 1) else None)"
| "cursor_step c es OpPrev i = (if i < length es then Some (if i = 0 then length es else i - 1) else None)"

fun run_cursor :: "comparator \<Rightarrow> (slice \<times> slice) list \<Rightarrow> iter_op list \<Rightarrow> nat \<Rightarrow> (status \<times> (slice \<times> slice) option) list option" where
  "run_cursor c es [] i = Some []"
| "run_cursor c es (a # as) i =
     do { i \<leftarrow> cursor_step c es a i; outs \<leftarrow> run_cursor c es as i;
          Some ((OK, if i < length es then Some (es ! i) else None) # outs) }"

definition iter_rel :: "block \<Rightarrow> entry list \<Rightarrow> nat \<Rightarrow> block_iter \<Rightarrow> bool" where
  "iter_rel blk xs i it \<longleftrightarrow> (if i < length xs then iter_at blk xs i it else i = length xs \<and> iter_end blk it)"

lemma iter_rel_status: "iter_rel blk xs i it \<Longrightarrow> it_status it = OK"
  by (auto simp: iter_rel_def iter_at_def iter_end_def split: if_splits)

lemma Iter_value_at:
  assumes rep: "represents blk xs js" and at: "iter_at blk xs i it"
  shows "Iter_value blk it = val_of (xs ! i)"
proof -
  let ?v = "val_of (xs ! i)"
  have i: "i < length xs" using at by (simp add: iter_at_def)
  have o: "fst (it_value it) = off xs (Suc i) - length ?v" "snd (it_value it) = length ?v"
    using at by (auto simp: iter_at_def NextEntryOffset_def)
  have tk: "take (length (encs xs)) (bk_data blk) = encs xs"
    using rep unfolding represents_def by metis
  note sz = entry_sizes(3,4) [OF rep i]
  have "Iter_value blk it = take (length ?v) (drop (fst (it_value it)) (take (length (encs xs)) (bk_data blk)))"
    using sz by (simp add: Iter_value_def o drop_take min_def)
  also have "\<dots> = take (length ?v) (drop (off xs i + (length (enc (xs ! i)) - length ?v)) (encs xs))"
    unfolding tk o using i by (simp add: off_Suc enc_def)
  also have "\<dots> = ?v"
    by (subst add.commute, subst drop_drop [symmetric], subst drop_off [OF i]) (simp add: enc_def)
  finally show ?thesis .
qed

lemma iter_output_rel:
  assumes rep: "represents blk xs js" and rel: "iter_rel blk xs i it"
  shows "iter_output blk it = (OK, if i < length xs then Some (snd (xs ! i)) else None)"
proof (cases "i < length xs")
  case True
  then have "iter_at blk xs i it" using rel by (simp add: iter_rel_def)
  moreover have "off xs i < bk_restarts blk"
    using rep True off_less [of i "length xs" xs] by (simp add: represents_def off_all)
  ultimately show ?thesis using True Iter_value_at [OF rep]
    by (simp add: iter_output_def Iter_Valid_def iter_at_def)
next
  case False
  then show ?thesis using rel by (simp add: iter_rel_def iter_end_def iter_output_def Iter_Valid_def)
qed

lemma iter_rel_intro:
  "i \<le> length xs \<Longrightarrow> (if i = length xs then iter_end blk it else iter_at blk xs i it) \<Longrightarrow> iter_rel blk xs i it"
  by (auto simp: iter_rel_def)

context key_order
begin

lemma iter_step_rel:
  assumes rep: "represents blk xs js" and v: "\<forall>e \<in> set xs. valid (key_of e)"
    and sorted: "sorted_wrt (\<lambda>d e. Compare c (key_of d) (key_of e) < 0) xs"
    and rel: "iter_rel blk xs i it" and a: "\<forall>target. a = OpSeek target \<longrightarrow> valid target"
    and cur: "cursor_step c (map snd xs) a i = Some i'"
  shows "\<exists>it'. iter_step c blk a it = Some it' \<and> iter_rel blk xs i' it'"
proof (cases a)
  case OpSeekToFirst
  with cur Iter_SeekToFirst_at [OF rep iter_rel_status [OF rel]] show ?thesis by (auto simp: iter_rel_def)
next
  case OpSeekToLast
  with cur Iter_SeekToLast_at [OF rep iter_rel_status [OF rel]] show ?thesis
    by (cases "xs = []") (auto simp: iter_rel_def)
next
  case (OpSeek target)
  have "takeWhile (\<lambda>(k, v). Compare c k target < 0) (map snd xs)
      = map snd (takeWhile (\<lambda>e. Compare c (key_of e) target < 0) xs)"
    by (simp add: takeWhile_map comp_def split_beta)
  then have "i' = seek_index c target xs" using cur OpSeek by simp
  with Iter_Seek_at [OF rep iter_rel_status [OF rel] _ v sorted] a OpSeek length_takeWhile_le show ?thesis
    by (fastforce intro!: iter_rel_intro)
next
  case OpNext
  with cur have "iter_at blk xs i it" "i' = Suc i" "i < length xs"
    using rel by (auto simp: iter_rel_def split: if_splits)
  with Iter_Next_at [OF rep] OpNext show ?thesis by (fastforce intro: iter_rel_intro)
next
  case OpPrev
  with cur have "iter_at blk xs i it" "i' = (if i = 0 then length xs else i - 1)" "i < length xs"
    using rel by (auto simp: iter_rel_def split: if_splits)
  with Iter_Prev_at [OF rep] OpPrev show ?thesis by (fastforce simp: iter_rel_def)
qed

lemma run_iter_refines:
  assumes rep: "represents blk xs js" and v: "\<forall>e \<in> set xs. valid (key_of e)"
    and sorted: "sorted_wrt (\<lambda>d e. Compare c (key_of d) (key_of e) < 0) xs"
  shows "iter_rel blk xs i it \<Longrightarrow> \<forall>target. OpSeek target \<in> set as \<longrightarrow> valid target \<Longrightarrow>
    run_cursor c (map snd xs) as i = Some outs \<Longrightarrow> run_iter c blk as it = Some outs"
proof (induction as arbitrary: i it outs)
  case (Cons a as)
  from Cons.prems(3) obtain i' os where i': "cursor_step c (map snd xs) a i = Some i'"
    "run_cursor c (map snd xs) as i' = Some os"
    "outs = (OK, if i' < length xs then Some (map snd xs ! i') else None) # os"
    by (auto simp: bind_eq_Some_conv)
  obtain it' where "iter_step c blk a it = Some it'" "iter_rel blk xs i' it'"
    using iter_step_rel [OF rep v sorted Cons.prems(1) _ i'(1)] Cons.prems(2) by auto
  with Cons.IH [of i' it' os] i' Cons.prems(2) iter_output_rel [OF rep] show ?case by simp
qed simp

text \<open>A finished block, walked and searched in any way, is the list of the entries added.\<close>

lemma block_refines:
  assumes "1 \<le> interval" "sorted_wrt (\<lambda>d e. Compare c (fst d) (fst e) < 0) es" "\<forall>e \<in> set es. valid (fst e)"
    and "length (fst (BlockBuilder_Finish (build interval es))) < 2 ^ 32"
    and "run_cursor c es as (length es) = Some outs" "\<forall>target. OpSeek target \<in> set as \<longrightarrow> valid target"
  shows "\<exists>blk. NewIterator (fst (BlockBuilder_Finish (build interval es))) = BlockIter blk (new_Iter blk)
    \<and> run_iter c blk as (new_Iter blk) = Some outs"
proof -
  obtain xs js where xs: "map snd xs = es" "bb_inv interval (build interval es) xs js"
    using build_inv [OF assms(1)] by blast
  from new_Block_Finish [OF xs(2) assms(4)] obtain blk
    where blk: "new_Block (fst (BlockBuilder_Finish (build interval es))) = Some blk" "represents blk xs js" by blast
  have "sorted_wrt (\<lambda>d e. Compare c (key_of d) (key_of e) < 0) xs" "\<forall>e \<in> set xs. valid (key_of e)"
    using assms(2,3) by (auto simp: sorted_wrt_map simp flip: xs(1))
  moreover have "iter_rel blk xs (length xs) (new_Iter blk)"
    by (simp add: iter_rel_def iter_end_def new_Iter_def)
  ultimately have "run_iter c blk as (new_Iter blk) = Some outs"
    using run_iter_refines [OF blk(2)] assms(5,6) xs(1) by (metis length_map)
  moreover have "bk_num_restarts blk \<noteq> 0" using blk(2) by (simp add: represents_def restarts_at_def)
  ultimately show ?thesis using blk(1) by (simp add: NewIterator_def)
qed

end

text \<open>C9: A block is a faithful, searchable list of the entries added to it.  For internal keys added in
  increasing order with any restart interval, the size estimate of the builder is the exact size of
  the finished block, an iterator over the finished block can be made, and for every sequence of
  \<^verbatim>\<open>SeekToFirst\<close>, \<^verbatim>\<open>SeekToLast\<close>, \<^verbatim>\<open>Seek\<close>, and of \<^verbatim>\<open>Next\<close> and \<^verbatim>\<open>Prev\<close> on a valid iterator, the calls return
  and the keys, the values and the status seen after each are those of a cursor in the list: \<^verbatim>\<open>Seek\<close>
  finds the first entry whose key is not before the target, and stepping off either end makes the
  iterator invalid and not an error.
\<close>

theorem block_iterator_refines:
  assumes "1 \<le> interval"
    and "sorted_wrt (\<lambda>d e. Compare (InternalKeyComparator BytewiseComparator) (fst d) (fst e) < 0) es"
    and "\<forall>e \<in> set es. 8 \<le> length (fst e)" "\<forall>target. OpSeek target \<in> set as \<longrightarrow> 8 \<le> length target"
    and "CurrentSizeEstimate (build interval es) < 2 ^ 32"
    and "run_cursor (InternalKeyComparator BytewiseComparator) es as (length es) = Some outs"
  shows "length (fst (BlockBuilder_Finish (build interval es))) = CurrentSizeEstimate (build interval es)
    \<and> (\<exists>blk. NewIterator (fst (BlockBuilder_Finish (build interval es))) = BlockIter blk (new_Iter blk)
      \<and> run_iter (InternalKeyComparator BytewiseComparator) blk as (new_Iter blk) = Some outs)"
  using internal.block_refines [OF assms(1-3) _ assms(6,4)] assms(5) by (simp add: CurrentSizeEstimate_exact)

theorem block_iterator_refines_witness:
  defines "k1 \<equiv> [1, 7] @ replicate 8 0" and "k2 \<equiv> [1, 9] @ replicate 8 0"
  shows "\<exists>blk. NewIterator (fst (BlockBuilder_Finish (build 16 [(k1, [5]), (k2, [])]))) = BlockIter blk (new_Iter blk)
    \<and> run_iter (InternalKeyComparator BytewiseComparator) blk
        [OpSeekToLast, OpPrev, OpPrev, OpSeek ([1, 8] @ replicate 8 0), OpNext] (new_Iter blk)
      = Some [(OK, Some (k2, [])), (OK, Some (k1, [5])), (OK, None), (OK, Some (k2, [])), (OK, None)]"
proof -
  have cmp: "Compare (InternalKeyComparator BytewiseComparator) (1 # a # replicate 8 0) (1 # b # replicate 8 0) < 0
      \<longleftrightarrow> a < b" for a b :: byte
    by (simp add: InternalKeyComparator_def BytewiseComparator_def internal_Compare_def ExtractUserKey_def
        numeral_eq_Suc)
  show ?thesis
    unfolding k1_def k2_def
    by (rule conjunct2 [OF block_iterator_refines])
      (simp_all add: cmp build_def BlockBuilder_Add_def new_BlockBuilder_def CurrentSizeEstimate_def
        PutVarint32_def EncodeVarint32_def Let_def)
qed

end
