(* ===== verification/LDB_Log_Props.thy ===== *)
theory LDB_Log_Props
  imports LDB_Log
begin

text \<open>
  The log round trip: what \<^verbatim>\<open>AddRecord\<close> has written, \<^verbatim>\<open>ReadRecord\<close> returns, record by record and
  without reporting a drop; and when the file ends early, after a crash, the records that were
  completely written come back and the rest is ignored without a report.
\<close>

section \<open>The bytes of a record\<close>

text \<open>A physical record, as it stands in the file.\<close>

definition phys :: "checksum_fun \<Rightarrow> nat \<Rightarrow> slice \<Rightarrow> slice" where
  "phys chk t d =
     EncodeFixed32 (crc32c_Mask (chk 0 (of_nat t # d)))
     @ [of_nat (length d AND 0xff), of_nat (drop_bit 8 (length d)), of_nat t] @ d"

text \<open>The zeros that fill a block with no room for a header.\<close>

definition pad :: "nat \<Rightarrow> slice" where
  "pad off = (if kBlockSize - off < kHeaderSize then replicate (kBlockSize - off) 0 else [])"

definition start_of :: "nat \<Rightarrow> nat" where
  "start_of off = (if kBlockSize - off < kHeaderSize then 0 else off)"

definition room :: "nat \<Rightarrow> nat" where
  "room off = kBlockSize - start_of off - kHeaderSize"

lemma start_of_room: "start_of off + kHeaderSize + room off = kBlockSize"
  by (auto simp: start_of_def room_def kBlockSize_def kHeaderSize_def)

lemma room_full: "room kBlockSize = 32761"
  by (simp add: room_def start_of_def kBlockSize_def kHeaderSize_def)

text \<open>All the bytes of a record that is written at an offset in a block, and the offset after it.\<close>

function emit :: "checksum_fun \<Rightarrow> nat \<Rightarrow> bool \<Rightarrow> slice \<Rightarrow> slice \<times> nat" where
  "emit chk off first data =
     (let n = min (length data) (room off);
          here = pad off @ phys chk (fragment_type first (length data = n)) (take n data);
          off' = start_of off + kHeaderSize + n
      in if length data = n then (here, off')
         else let (tail, off'') = emit chk off' False (drop n data) in (here @ tail, off''))"
  by pat_completeness auto
termination
proof (relation "measure (\<lambda>(chk, off, b, d). 2 * length d + (if room off = 0 then 1 else 0))", goal_cases)
  case (2 chk off first data n here off')
  then have n: "n = room off" "room off < length data" by (simp_all add: min_def split: if_splits)
  then have "off' = kBlockSize" using 2 start_of_room [of off] by simp
  then have "room off' \<noteq> 0" by (simp add: room_full)
  then show ?case using n by (cases "room off") auto
qed simp

declare emit.simps [simp del]

lemma emit_simps:
  "length data \<le> room off \<Longrightarrow>
     emit chk off first data = (pad off @ phys chk (fragment_type first True) data,
       start_of off + kHeaderSize + length data)"
  "room off < length data \<Longrightarrow> emit chk kBlockSize False (drop (room off) data) = (tail, off') \<Longrightarrow>
     emit chk off first data = (pad off @ phys chk (fragment_type first False) (take (room off) data) @ tail,
       off')"
  using start_of_room [of off] by (simp_all add: emit.simps [of chk off first data] min_def Let_def)

lemma emit_induct [case_names last more]:
  assumes "\<And>off first data. length data \<le> room off \<Longrightarrow> P off first data"
    and "\<And>off first data. room off < length data \<Longrightarrow> P kBlockSize False (drop (room off) data)
           \<Longrightarrow> P off first data"
  shows "P off first (data :: slice)"
proof (induction "undefined :: checksum_fun" off first data rule: emit.induct)
  case (1 off first data)
  show ?case
  proof (cases "length data \<le> room off")
    case False
    then have "P (start_of off + kHeaderSize + room off) False (drop (room off) data)"
      using 1 [OF refl refl refl] by (simp add: min_def)
    then show ?thesis using False assms(2) by (simp add: start_of_room)
  qed (rule assms(1))
qed

lemma emit_offset: "snd (emit chk off first data) \<le> kBlockSize"
proof (induction off first data rule: emit_induct)
  case (last off first data)
  then show ?case using start_of_room [of off] by (simp add: emit_simps(1))
next
  case (more off first data)
  then show ?case
    by (cases "emit chk kBlockSize False (drop (room off) data)") (simp add: emit_simps(2))
qed

section \<open>The writer\<close>

context checksum
begin

lemma type_crc: "t \<le> 4 \<Longrightarrow> InitTypeCrc extend ! t = extend 0 [of_nat t]"
  by (simp add: InitTypeCrc_def record_types)

lemma phys_crc: "t \<le> 4 \<Longrightarrow> extend (InitTypeCrc extend ! t) d = extend 0 (of_nat t # d)"
  by (simp add: type_crc extend_append)

end

lemma fragment_type_le: "fragment_type b e \<le> 4"
  by (simp add: fragment_type_def record_types)

text \<open>The writer needs a checksum and a file.\<close>

locale log_file = checksum extend + writable_file append flush valid view pending
  for extend :: checksum_fun
    and append :: "'s \<Rightarrow> slice \<Rightarrow> (status \<times> 's) option"
    and flush :: "'s \<Rightarrow> (status \<times> 's) option"
    and valid :: "'s \<Rightarrow> bool" and view pending :: "'s \<Rightarrow> slice"
begin

lemma EmitPhysicalRecord_OK:
  assumes "EmitPhysicalRecord extend append flush w t ptr = Some (OK, w')"
    and "valid (lw_dest w)" "lw_type_crc w = InitTypeCrc extend" "t \<le> 4"
  shows "valid (lw_dest w') \<and> view (lw_dest w') = view (lw_dest w) @ phys extend t ptr
    \<and> pending (lw_dest w') = [] \<and> lw_type_crc w' = InitTypeCrc extend
    \<and> lw_block_offset w' = lw_block_offset w + kHeaderSize + length ptr"
proof -
  let ?buf = "EncodeFixed32 (crc32c_Mask (extend 0 (of_nat t # ptr)))
    @ [of_nat (length ptr AND 0xff), of_nat (drop_bit 8 (length ptr)), of_nat t]"
  obtain d1 d2 d3 where d: "append (lw_dest w) ?buf = Some (OK, d1)" "append d1 ptr = Some (OK, d2)"
    "flush d2 = Some (OK, d3)"
    and w': "w' = w\<lparr>lw_dest := d3, lw_block_offset := lw_block_offset w + kHeaderSize + length ptr\<rparr>"
    using assms(1,3,4)
    by (auto simp: EmitPhysicalRecord_def phys_crc Let_def bind_eq_Some_conv split: if_splits)
  have "valid d1" "view d1 = view (lw_dest w) @ ?buf" using append_OK [OF assms(2) d(1)] by auto
  moreover from this have "valid d2" "view d2 = view d1 @ ptr" using append_OK [OF _ d(2)] by auto
  moreover from this have "valid d3" "view d3 = view d2" "pending d3 = []" using flush_OK [OF _ d(3)] by auto
  ultimately show ?thesis using assms(3) by (simp add: w' phys_def)
qed

lemma SwitchBlock_OK:
  assumes "SwitchBlock append w = Some w'" "valid (lw_dest w)" "pending (lw_dest w) = []"
  shows "valid (lw_dest w') \<and> view (lw_dest w') = view (lw_dest w) @ pad (lw_block_offset w)
    \<and> lw_type_crc w' = lw_type_crc w \<and> lw_block_offset w' = start_of (lw_block_offset w)"
proof (cases "kBlockSize - lw_block_offset w < kHeaderSize")
  case True
  let ?n = "kBlockSize - lw_block_offset w"
  have "length (replicate ?n 0 :: slice) \<le> 6" using True by (simp add: kHeaderSize_def)
  from append_small [OF assms(2,3) this] obtain d where d: "append (lw_dest w) (replicate ?n 0) = Some (OK, d)"
    by blast
  show ?thesis
    using assms(1,2) True d append_OK [OF assms(2) d]
    by (auto simp: SwitchBlock_def start_of_def pad_def Let_def bind_eq_Some_conv split: if_splits)
next
  case False
  then show ?thesis using assms by (simp add: SwitchBlock_def start_of_def pad_def Let_def)
qed

lemma AddRecord_loop_OK:
  assumes "AddRecord_loop extend append flush first ptr w = Some (OK, w')"
    and "valid (lw_dest w)" "pending (lw_dest w) = []" "lw_type_crc w = InitTypeCrc extend"
  shows "valid (lw_dest w') \<and> pending (lw_dest w') = [] \<and> lw_type_crc w' = InitTypeCrc extend
    \<and> view (lw_dest w') = view (lw_dest w) @ fst (emit extend (lw_block_offset w) first ptr)
    \<and> lw_block_offset w' = snd (emit extend (lw_block_offset w) first ptr)"
  using assms
proof (induction "lw_block_offset w" first ptr arbitrary: w rule: emit_induct)
  case (last first ptr)
  obtain w1 where w1: "SwitchBlock append w = Some w1"
    using last.prems(1) by (subst (asm) AddRecord_loop.simps) (auto simp: bind_eq_Some_conv)
  note sw = SwitchBlock_OK [OF w1 last.prems(2,3)]
  have "kBlockSize - lw_block_offset w1 - kHeaderSize = room (lw_block_offset w)"
    using sw by (simp add: room_def)
  then have "EmitPhysicalRecord extend append flush w1 (fragment_type first True) ptr = Some (OK, w')"
    using last.prems(1) last.hyps w1
    by (subst (asm) AddRecord_loop.simps) (auto simp: Let_def bind_eq_Some_conv split: if_splits)
  from EmitPhysicalRecord_OK [OF this] sw last.prems(4) fragment_type_le last.hyps
  show ?case by (simp add: emit_simps(1))
next
  case (more first ptr)
  let ?n = "room (lw_block_offset w)"
  obtain w1 where w1: "SwitchBlock append w = Some w1"
    using more.prems(1) by (subst (asm) AddRecord_loop.simps) (auto simp: bind_eq_Some_conv)
  note sw = SwitchBlock_OK [OF w1 more.prems(2,3)]
  have "kBlockSize - lw_block_offset w1 - kHeaderSize = ?n"
    using sw by (simp add: room_def)
  then obtain w2 where e: "EmitPhysicalRecord extend append flush w1 (fragment_type first False) (take ?n ptr) = Some (OK, w2)"
    and l: "AddRecord_loop extend append flush False (drop ?n ptr) w2 = Some (OK, w')"
    using more.prems(1) more.hyps(1) w1
    by (subst (asm) AddRecord_loop.simps) (auto simp: Let_def bind_eq_Some_conv split: if_splits)
  have E: "valid (lw_dest w2)" "pending (lw_dest w2) = []" "lw_type_crc w2 = InitTypeCrc extend"
    "view (lw_dest w2) = view (lw_dest w) @ pad (lw_block_offset w) @ phys extend (fragment_type first False) (take ?n ptr)"
    "kBlockSize = lw_block_offset w2"
    using EmitPhysicalRecord_OK [OF e] sw more.prems(4) fragment_type_le more.hyps(1)
      start_of_room [of "lw_block_offset w"] by (auto simp: min_def)
  show ?case
    using more.hyps(2) [OF E(5) l E(1,2,3)] E(4,5) more.hyps(1)
    by (cases "emit extend kBlockSize False (drop ?n ptr)") (simp add: emit_simps(2))
qed

end

section \<open>The reader\<close>

text \<open>
  The reader stands at an offset of a block with the bytes \<^verbatim>\<open>S\<close> still to come: the rest of the block is
  in the buffer, what follows is still in the file, and it knows that the file ends when the block
  is not complete.  It was started at the beginning of the file.
\<close>

definition reader_at :: "('f \<Rightarrow> slice) \<Rightarrow> nat \<Rightarrow> slice \<Rightarrow> 'f log_reader \<Rightarrow> bool" where
  "reader_at rest off S r \<longleftrightarrow>
     off \<le> kBlockSize \<and> lr_buffer r = take (kBlockSize - off) S
     \<and> rest (lr_file r) = drop (kBlockSize - off) S \<and> (lr_eof r \<longleftrightarrow> length S < kBlockSize - off)
     \<and> lr_initial_offset r = 0 \<and> \<not> lr_resyncing r"

lemma length_phys: "length (phys chk t d) = kHeaderSize + length d"
  by (simp add: phys_def kHeaderSize_def)

lemma length_field:
  assumes "n < 65536"
  shows "unat ((ucast (of_nat (n AND 0xff) :: byte) AND 0xff)
           OR push_bit 8 (ucast (of_nat (drop_bit 8 n) :: byte) AND 0xff) :: uint32) = n"
proof -
  have small: "k < 16" if "bit n k" for k
  proof (rule ccontr)
    assume "\<not> k < 16"
    then have "bit (take_bit 16 n) k = False" by (simp add: bit_take_bit_iff)
    moreover have "take_bit 16 n = n" using assms by (simp add: take_bit_nat_eq_self)
    ultimately show False using that by simp
  qed
  have "((ucast (of_nat (n AND 0xff) :: byte) AND 0xff)
           OR push_bit 8 (ucast (of_nat (drop_bit 8 n) :: byte) AND 0xff) :: uint32) = of_nat n" (is "?w = _")
  proof (rule bit_word_eqI)
    fix k assume "k < LENGTH(32)"
    have b255: "bit (255 :: nat) j \<longleftrightarrow> j < 8" for j
      using bit_mask_iff [of 8 j, where 'a = nat] by (simp add: mask_eq_exp_minus_1)
    show "bit ?w k = bit (of_nat n :: uint32) k"
      using small [of k] \<open>k < LENGTH(32)\<close>
      by (cases "k < 8") (auto simp: bit_simps byte_mask b255)
  qed
  then show ?thesis using assms by (simp add: unat_of_nat take_bit_nat_eq_self)
qed

lemma phys_header:
  assumes "t \<le> 4" "length d < 65536"
  shows "unat ((ucast (phys chk t d ! 4) AND 0xff) OR push_bit 8 (ucast (phys chk t d ! 5) AND 0xff) :: uint32)
      = length d"
    "scast (phys chk t d ! 6) = (of_nat t :: uint32)"
    "DecodeFixed32 (phys chk t d @ X) = crc32c_Mask (chk 0 (of_nat t # d))"
    "take (1 + length d) (drop 6 (phys chk t d @ X)) = of_nat t # d"
    "take (length d) (drop kHeaderSize (phys chk t d @ X)) = d"
proof -
  have 4: "phys chk t d ! 4 = of_nat (length d AND 0xff)" "phys chk t d ! 5 = of_nat (drop_bit 8 (length d))"
    "phys chk t d ! 6 = of_nat t"
    by (simp_all add: phys_def nth_append)
  show "unat ((ucast (phys chk t d ! 4) AND 0xff) OR push_bit 8 (ucast (phys chk t d ! 5) AND 0xff) :: uint32)
      = length d"
    unfolding 4 by (rule length_field [OF assms(2)])
  have "t = 0 \<or> t = 1 \<or> t = 2 \<or> t = 3 \<or> t = 4" using assms(1) by auto
  then show "scast (phys chk t d ! 6) = (of_nat t :: uint32)" unfolding 4 by auto
  show "DecodeFixed32 (phys chk t d @ X) = crc32c_Mask (chk 0 (of_nat t # d))"
    by (simp add: phys_def)
  show "take (1 + length d) (drop 6 (phys chk t d @ X)) = of_nat t # d"
    "take (length d) (drop kHeaderSize (phys chk t d @ X)) = d"
    by (simp_all add: phys_def EncodeFixed32_def kHeaderSize_def)
qed

lemma ParsePhysicalRecord_ok:
  assumes "reader_at rest off (phys chk t d @ S) r" "1 \<le> t" "t \<le> 4"
    and fits: "off + kHeaderSize + length d \<le> kBlockSize"
  shows "\<exists>r'. ParsePhysicalRecord chk result r = (of_nat t, d, r')
           \<and> reader_at rest (off + kHeaderSize + length d) S r' \<and> lr_reports r' = lr_reports r"
proof -
  have d: "length d < 65536" using fits by (simp add: kBlockSize_def)
  define X where "X = take (kBlockSize - off - (kHeaderSize + length d)) S"
  have buf: "lr_buffer r = phys chk t d @ X"
    using assms(1) fits by (simp add: reader_at_def length_phys X_def)
  have six: "6 < length (phys chk t d)" "kHeaderSize \<le> length (phys chk t d)"
    by (simp_all add: length_phys kHeaderSize_def)
  have "t = 1 \<or> t = 2 \<or> t = 3 \<or> t = 4" using assms(2,3) by auto
  then have nz: "(of_nat t :: uint32) \<noteq> 0" by auto
  note H = phys_header [OF assms(3) d, of chk]
  have B: "unat ((ucast (lr_buffer r ! 4) AND 0xff) OR push_bit 8 (ucast (lr_buffer r ! 5) AND 0xff) :: uint32)
      = length d" "scast (lr_buffer r ! 6) = (of_nat t :: uint32)"
    using H(1,2) six by (simp_all only: buf nth_append if_True order_less_trans [OF _ six(1)])
  have C: "chk 0 (take (1 + length d) (drop 6 (lr_buffer r))) = crc32c_Unmask (DecodeFixed32 (lr_buffer r))"
    "take (length d) (drop kHeaderSize (lr_buffer r)) = d"
    by (simp_all only: buf H(3,4,5) Unmask_Mask)
  have D: "drop (kHeaderSize + length d) (lr_buffer r) = X"
    "\<not> kHeaderSize + length d > length (lr_buffer r)"
    by (simp_all add: buf length_phys)
  have i: "lr_initial_offset r = 0" using assms(1) by (simp add: reader_at_def)
  let ?r = "r\<lparr>lr_buffer := X\<rparr>"
  have "ParsePhysicalRecord chk result r = (of_nat t, d, ?r)"
    using nz i by (simp only: ParsePhysicalRecord_def Let_def B C D record_types) simp
  moreover have "reader_at rest (off + kHeaderSize + length d) S ?r"
    using assms(1) fits by (auto simp: reader_at_def X_def length_phys add.assoc)
  ultimately show ?thesis by simp
qed

text \<open>A record the file ends inside of.\<close>

lemma ParsePhysicalRecord_trunc:
  assumes "reader_at rest off (take n (phys chk t d)) r" "n < length (phys chk t d)" "kHeaderSize \<le> n"
    and "t \<le> 4" and fits: "off + kHeaderSize + length d \<le> kBlockSize"
  shows "\<exists>r'. ParsePhysicalRecord chk result r = (kEof, result, r') \<and> lr_reports r' = lr_reports r
           \<and> \<not> lr_resyncing r'"
proof -
  have d: "length d < 65536" using fits by (simp add: kBlockSize_def)
  have n: "n < kHeaderSize + length d" using assms(2) by (simp add: length_phys)
  have buf: "lr_buffer r = take n (phys chk t d)" and eof: "lr_eof r" and rs: "\<not> lr_resyncing r"
    using assms(1) n fits by (auto simp: reader_at_def length_phys)
  have seven: "5 < n" using assms(3) by (simp add: kHeaderSize_def)
  have B: "unat ((ucast (lr_buffer r ! 4) AND 0xff) OR push_bit 8 (ucast (lr_buffer r ! 5) AND 0xff) :: uint32)
      = length d"
    using phys_header(1) [OF assms(4) d, of chk] seven by (simp add: buf)
  have D: "kHeaderSize + length d > length (lr_buffer r)" using n by (simp add: buf length_phys)
  show ?thesis using eof rs by (simp only: ParsePhysicalRecord_def Let_def B D) simp
qed

text \<open>What the reader relies on: a sequential file that yields the bytes of a stream, less than asked
  for only at its end.\<close>

definition reads_stream :: "('f \<Rightarrow> nat \<Rightarrow> (status \<times> slice \<times> 'f) option) \<Rightarrow> ('f \<Rightarrow> slice) \<Rightarrow> bool" where
  "reads_stream read rest \<longleftrightarrow>
     (\<forall>f n. \<exists>f'. read f n = Some (OK, take n (rest f), f') \<and> rest f' = drop n (rest f))"

lemma ReadPhysicalRecord_pad:
  assumes "reads_stream read rest" "reader_at rest off (pad off @ X) r"
  shows "\<exists>r'. ReadPhysicalRecord chk read result r = ReadPhysicalRecord chk read result r'
           \<and> reader_at rest (start_of off) X r' \<and> lr_reports r' = lr_reports r"
proof (cases "kBlockSize - off < kHeaderSize")
  case True
  then have p: "length (pad off) = kBlockSize - off" by (simp add: pad_def)
  have R: "\<not> lr_eof r" "length (lr_buffer r) < kHeaderSize" "rest (lr_file r) = X"
    "lr_initial_offset r = 0" "\<not> lr_resyncing r"
    using assms(2) True p by (auto simp: reader_at_def)
  obtain f' where f': "read (lr_file r) kBlockSize = Some (OK, take kBlockSize X, f')" "rest f' = drop kBlockSize X"
    using assms(1) R(3) by (metis reads_stream_def)
  let ?r = "r\<lparr>lr_file := f', lr_buffer := take kBlockSize X,
     lr_end_of_buffer_offset := lr_end_of_buffer_offset r + of_nat (length (take kBlockSize X))\<rparr>"
  let ?r' = "if length (take kBlockSize X) < kBlockSize then ?r\<lparr>lr_eof := True\<rparr> else ?r"
  have "ReadPhysicalRecord chk read result r = ReadPhysicalRecord chk read result ?r'"
    using R f' by (subst ReadPhysicalRecord.simps) (simp add: Let_def)
  moreover have "reader_at rest (start_of off) X ?r'"
    using R f' True by (auto simp: reader_at_def start_of_def)
  moreover have "lr_reports ?r' = lr_reports r" by simp
  ultimately show ?thesis by blast
next
  case False
  then show ?thesis using assms(2) by (auto simp: pad_def start_of_def)
qed

lemma ReadPhysicalRecord_ok:
  assumes "reads_stream read rest" "reader_at rest off (pad off @ phys chk t d @ S) r"
    and "1 \<le> t" "t \<le> 4" "length d \<le> room off"
  shows "\<exists>r'. ReadPhysicalRecord chk read result r = Some (of_nat t, d, r')
           \<and> reader_at rest (start_of off + kHeaderSize + length d) S r' \<and> lr_reports r' = lr_reports r"
proof -
  have fits: "start_of off + kHeaderSize + length d \<le> kBlockSize"
    using start_of_room [of off] assms(5) by simp
  obtain r1 where r1: "ReadPhysicalRecord chk read result r = ReadPhysicalRecord chk read result r1"
    "reader_at rest (start_of off) (phys chk t d @ S) r1" "lr_reports r1 = lr_reports r"
    using ReadPhysicalRecord_pad [OF assms(1,2)] by blast
  obtain r2 where r2: "ParsePhysicalRecord chk result r1 = (of_nat t, d, r2)"
    "reader_at rest (start_of off + kHeaderSize + length d) S r2" "lr_reports r2 = lr_reports r1"
    using ParsePhysicalRecord_ok [OF r1(2) assms(3,4) fits] by blast
  have "\<not> length (lr_buffer r1) < kHeaderSize"
    using r1(2) fits by (simp add: reader_at_def length_phys)
  then have "ReadPhysicalRecord chk read result r1 = Some (of_nat t, d, r2)"
    by (subst ReadPhysicalRecord.simps) (simp add: r2(1))
  then show ?thesis using r1 r2 by simp
qed

lemma ReadPhysicalRecord_short:
  assumes "reader_at rest off S r" "length S < kBlockSize - off" "length S < kHeaderSize"
  shows "\<exists>r'. ReadPhysicalRecord chk read result r = Some (kEof, result, r')
           \<and> lr_reports r' = lr_reports r \<and> \<not> lr_resyncing r'"
  using assms by (subst ReadPhysicalRecord.simps) (auto simp: reader_at_def)

lemma ReadPhysicalRecord_trunc:
  assumes "reads_stream read rest" "reader_at rest off (take n (pad off @ phys chk t d)) r"
    and "n < length (pad off @ phys chk t d)" "t \<le> 4" "length d \<le> room off"
  shows "\<exists>r'. ReadPhysicalRecord chk read result r = Some (kEof, result, r')
           \<and> lr_reports r' = lr_reports r \<and> \<not> lr_resyncing r'"
proof (cases "n < length (pad off)")
  case True
  then show ?thesis
    using ReadPhysicalRecord_short [OF assms(2)] by (simp add: pad_def split: if_splits)
next
  case False
  then obtain m where n: "n = length (pad off) + m" using le_Suc_ex by force
  have fits: "start_of off + kHeaderSize + length d \<le> kBlockSize"
    using start_of_room [of off] assms(5) by simp
  obtain r1 where r1: "ReadPhysicalRecord chk read result r = ReadPhysicalRecord chk read result r1"
    "reader_at rest (start_of off) (take m (phys chk t d)) r1" "lr_reports r1 = lr_reports r"
    using ReadPhysicalRecord_pad [OF assms(1), of off "take m (phys chk t d)" r] assms(2)
    by (auto simp: n)
  have m: "m < length (phys chk t d)" using assms(3) by (simp add: n)
  then have short: "length (take m (phys chk t d)) < kBlockSize - start_of off"
    using fits by (simp add: length_phys)
  show ?thesis
  proof (cases "m < kHeaderSize")
    case True
    then show ?thesis using ReadPhysicalRecord_short [OF r1(2) short] r1 by simp
  next
    case False
    then obtain r2 where r2: "ParsePhysicalRecord chk result r1 = (kEof, result, r2)"
      "lr_reports r2 = lr_reports r1" "\<not> lr_resyncing r2"
      using ParsePhysicalRecord_trunc [OF r1(2) m _ assms(4) fits] by auto
    have "\<not> length (lr_buffer r1) < kHeaderSize"
      using r1(2) False m short by (simp add: reader_at_def)
    then have "ReadPhysicalRecord chk read result r1 = Some (kEof, result, r2)"
      by (subst ReadPhysicalRecord.simps) (simp add: r2(1))
    then show ?thesis using r1 r2 by simp
  qed
qed

section \<open>Putting a record together\<close>

lemma HandleRecord_fragment:
  assumes "\<not> lr_resyncing r" "first \<longrightarrow> \<not> in_frag" "\<not> first \<longrightarrow> in_frag"
  shows "\<exists>r' off'. HandleRecord (of_nat (fragment_type first fin)) d in_frag scratch off r
      = (if fin then Inl (Some ((if first then [] else scratch) @ d))
         else Inr (True, (if first then [] else scratch) @ d, off'), r')
    \<and> (\<forall>rest n S. reader_at rest n S r \<longrightarrow> reader_at rest n S r') \<and> lr_reports r' = lr_reports r"
  using assms by (cases first; cases fin)
    (auto simp: HandleRecord_def fragment_type_def record_types Let_def reader_at_def)

lemma HandleRecord_eof:
  assumes "\<not> lr_resyncing r"
  shows "HandleRecord kEof d in_frag scratch off r = (Inl None, r)"
  using assms by (auto simp: HandleRecord_def record_types Let_def)

lemma fragment_type_ge: "1 \<le> fragment_type first fin"
  by (simp add: fragment_type_def record_types)

lemma ReadRecord_loop_ok:
  assumes "reads_stream read rest"
  shows "reader_at rest off (fst (emit chk off first data) @ S) r \<Longrightarrow> in_frag = (\<not> first) \<Longrightarrow>
    \<exists>r'. ReadRecord_loop chk read in_frag scratch poff frag r
           = Some (Some ((if first then [] else scratch) @ data), r')
      \<and> reader_at rest (snd (emit chk off first data)) S r' \<and> lr_reports r' = lr_reports r"
proof (induction off first data arbitrary: r in_frag scratch poff frag rule: emit_induct)
  case (last off first data)
  have "reader_at rest off (pad off @ phys chk (fragment_type first True) data @ S) r"
    using last by (simp add: emit_simps(1))
  from ReadPhysicalRecord_ok [OF assms this fragment_type_ge fragment_type_le last(1)]
  obtain r1 where r1: "ReadPhysicalRecord chk read frag r = Some (of_nat (fragment_type first True), data, r1)"
    "reader_at rest (start_of off + kHeaderSize + length data) S r1" "lr_reports r1 = lr_reports r" by blast
  have "\<not> lr_resyncing r1" using r1(2) by (simp add: reader_at_def)
  from HandleRecord_fragment [OF this, of first in_frag True data scratch poff] r1 last(3)
  show ?case using last(1)
    by (subst ReadRecord_loop.simps) (auto simp: emit_simps(1))
next
  case (more off first data)
  obtain tail off' where t: "emit chk kBlockSize False (drop (room off) data) = (tail, off')"
    by (metis surj_pair)
  let ?d = "take (room off) data"
  have "reader_at rest off (pad off @ phys chk (fragment_type first False) ?d @ tail @ S) r"
    using more.prems more.hyps t by (simp add: emit_simps(2))
  from ReadPhysicalRecord_ok [OF assms this fragment_type_ge fragment_type_le]
  obtain r1 where r1: "ReadPhysicalRecord chk read frag r = Some (of_nat (fragment_type first False), ?d, r1)"
    "reader_at rest kBlockSize (tail @ S) r1" "lr_reports r1 = lr_reports r"
    using more.hyps start_of_room [of off] by (auto simp: min_def)
  have "\<not> lr_resyncing r1" using r1(2) by (simp add: reader_at_def)
  from HandleRecord_fragment [OF this, of first in_frag False ?d scratch poff] more.prems(2)
  obtain r2 poff' where r2: "HandleRecord (of_nat (fragment_type first False)) ?d in_frag scratch poff r1
      = (Inr (True, (if first then [] else scratch) @ ?d, poff'), r2)"
    "reader_at rest kBlockSize (tail @ S) r2" "lr_reports r2 = lr_reports r"
    using r1 by auto
  have "\<exists>r'. ReadRecord_loop chk read True ((if first then [] else scratch) @ ?d) poff' ?d r2
      = Some (Some (((if first then [] else scratch) @ ?d) @ drop (room off) data), r')
      \<and> reader_at rest off' S r' \<and> lr_reports r' = lr_reports r2"
    using more.IH [of r2 True "(if first then [] else scratch) @ ?d" poff' ?d] r2 t by simp
  then show ?case using r1 r2 t more.hyps
    by (subst ReadRecord_loop.simps) (auto simp: emit_simps(2))
qed

lemma ReadRecord_loop_eof:
  assumes "\<exists>r'. ReadPhysicalRecord chk read frag r = Some (kEof, frag, r')
      \<and> lr_reports r' = lr_reports r \<and> \<not> lr_resyncing r'"
  shows "\<exists>r'. ReadRecord_loop chk read in_frag scratch poff frag r = Some (None, r')
      \<and> lr_reports r' = lr_reports r"
  using assms by (subst ReadRecord_loop.simps) (auto simp: HandleRecord_eof)

lemma ReadRecord_loop_trunc:
  assumes "reads_stream read rest"
  shows "reader_at rest off (take n (fst (emit chk off first data))) r \<Longrightarrow>
    n < length (fst (emit chk off first data)) \<Longrightarrow> in_frag = (\<not> first) \<Longrightarrow>
    \<exists>r'. ReadRecord_loop chk read in_frag scratch poff frag r = Some (None, r') \<and> lr_reports r' = lr_reports r"
proof (induction off first data arbitrary: n r in_frag scratch poff frag rule: emit_induct)
  case (last off first data)
  have "reader_at rest off (take n (pad off @ phys chk (fragment_type first True) data)) r"
    "n < length (pad off @ phys chk (fragment_type first True) data)"
    using last by (simp_all add: emit_simps(1))
  from ReadRecord_loop_eof [OF ReadPhysicalRecord_trunc [OF assms this fragment_type_le last(1)]]
  show ?case .
next
  case (more off first data)
  obtain tail off' where t: "emit chk kBlockSize False (drop (room off) data) = (tail, off')"
    by (metis surj_pair)
  let ?d = "take (room off) data"
  let ?A = "pad off @ phys chk (fragment_type first False) ?d"
  have at: "reader_at rest off (take n (?A @ tail)) r" "n < length (?A @ tail)"
    using more.prems more.hyps t by (simp_all add: emit_simps(2))
  show ?case
  proof (cases "n < length ?A")
    case True
    then have "reader_at rest off (take n ?A) r" using at by simp
    from ReadRecord_loop_eof [OF ReadPhysicalRecord_trunc [OF assms this True fragment_type_le]]
    show ?thesis by simp
  next
    case False
    then obtain m where n: "n = length ?A + m" using le_Suc_ex by force
    have "reader_at rest off (pad off @ phys chk (fragment_type first False) ?d @ take m tail) r"
      using at by (simp add: n)
    from ReadPhysicalRecord_ok [OF assms this fragment_type_ge fragment_type_le]
    obtain r1 where r1: "ReadPhysicalRecord chk read frag r = Some (of_nat (fragment_type first False), ?d, r1)"
      "reader_at rest kBlockSize (take m tail) r1" "lr_reports r1 = lr_reports r"
      using more.hyps start_of_room [of off] by (auto simp: min_def)
    have "\<not> lr_resyncing r1" using r1(2) by (simp add: reader_at_def)
    from HandleRecord_fragment [OF this, of first in_frag False ?d scratch poff] more.prems(3)
    obtain r2 poff' where r2: "HandleRecord (of_nat (fragment_type first False)) ?d in_frag scratch poff r1
        = (Inr (True, (if first then [] else scratch) @ ?d, poff'), r2)"
      "reader_at rest kBlockSize (take m tail) r2" "lr_reports r2 = lr_reports r"
      using r1 by auto
    have "\<exists>r'. ReadRecord_loop chk read True ((if first then [] else scratch) @ ?d) poff' ?d r2
        = Some (None, r') \<and> lr_reports r' = lr_reports r2"
      using more.IH [of m r2 True "(if first then [] else scratch) @ ?d" poff' ?d] r2 t at(2) n by simp
    then show ?thesis using r1 r2 by (subst ReadRecord_loop.simps) auto
  qed
qed

section \<open>A whole log\<close>

fun emit_all :: "checksum_fun \<Rightarrow> nat \<Rightarrow> slice list \<Rightarrow> slice \<times> nat" where
  "emit_all chk off [] = ([], off)"
| "emit_all chk off (x # xs) =
     (let (b, off') = emit chk off True x; (bs, off'') = emit_all chk off' xs in (b @ bs, off''))"

lemma emit_nonempty: "fst (emit chk off first data) \<noteq> []"
  by (subst emit.simps) (auto simp: Let_def phys_def EncodeFixed32_def split: prod.splits)

text \<open>The end of a block is the beginning of the next one.\<close>

lemma emit_block_start: "emit chk kBlockSize first data = emit chk 0 first data"
proof -
  have "room kBlockSize = room 0" "start_of kBlockSize = start_of 0" "pad kBlockSize = pad 0"
    by (simp_all add: room_def start_of_def pad_def kBlockSize_def kHeaderSize_def)
  then show ?thesis by (simp add: emit.simps [of chk kBlockSize] emit.simps [of chk 0])
qed

lemma emit_all_block_start: "xs \<noteq> [] \<Longrightarrow> emit_all chk kBlockSize xs = emit_all chk 0 xs"
  by (cases xs) (simp_all add: emit_block_start)

context log_file
begin

lemma AddRecords_OK:
  assumes "AddRecords extend append flush xs w = Some (OK, w')"
    and "valid (lw_dest w)" "pending (lw_dest w) = []" "lw_type_crc w = InitTypeCrc extend"
  shows "valid (lw_dest w') \<and> pending (lw_dest w') = [] \<and> lw_type_crc w' = InitTypeCrc extend
    \<and> view (lw_dest w') = view (lw_dest w) @ fst (emit_all extend (lw_block_offset w) xs)
    \<and> lw_block_offset w' = snd (emit_all extend (lw_block_offset w) xs)"
  using assms
proof (induction xs arbitrary: w)
  case (Cons x xs)
  then obtain w1 where w1: "AddRecord extend append flush x w = Some (OK, w1)"
    "AddRecords extend append flush xs w1 = Some (OK, w')"
    by (auto simp: bind_eq_Some_conv split: if_splits)
  have "AddRecord_loop extend append flush True x w = Some (OK, w1)" using w1(1) by (simp add: AddRecord_def)
  note one = AddRecord_loop_OK [OF this Cons.prems(2-4)]
  show ?case using Cons.IH [OF w1(2)] one by (simp add: split_def Let_def)
qed simp

end

lemma ReadRecord_start:
  "reader_at rest off S r \<Longrightarrow> ReadRecord chk read skip r = ReadRecord_loop chk read False [] 0 [] r"
  by (simp add: ReadRecord_def reader_at_def)

lemma ReadAll_prefix:
  assumes "reads_stream read rest"
  shows "reader_at rest off (fst (emit_all chk off xs) @ take n (fst (emit chk (snd (emit_all chk off xs)) True y))) r
    \<Longrightarrow> n < length (fst (emit chk (snd (emit_all chk off xs)) True y)) \<Longrightarrow>
    \<exists>r'. ReadAll chk read skip r = Some (xs, r') \<and> lr_reports r' = lr_reports r"
proof (induction xs arbitrary: off r)
  case Nil
  then have at: "reader_at rest off (take n (fst (emit chk off True y))) r"
    "n < length (fst (emit chk off True y))" by simp_all
  from ReadRecord_loop_trunc [OF assms at, of False "[]" 0 "[]"]
  show ?case by (subst ReadAll.simps) (auto simp: ReadRecord_start [OF at(1)])
next
  case (Cons x xs)
  obtain b off' where b: "emit chk off True x = (b, off')" by (metis surj_pair)
  let ?S = "fst (emit_all chk off' xs) @ take n (fst (emit chk (snd (emit_all chk off' xs)) True y))"
  have at: "reader_at rest off (fst (emit chk off True x) @ ?S) r"
    using Cons.prems(1) b by (simp add: split_def Let_def)
  from ReadRecord_loop_ok [OF assms at, of False "[]" 0 "[]"] b
  obtain r1 where r1: "ReadRecord_loop chk read False [] 0 [] r = Some (Some x, r1)"
    "reader_at rest off' ?S r1" "lr_reports r1 = lr_reports r" by auto
  from Cons.IH [OF r1(2)] Cons.prems(2) b
  obtain r2 where "ReadAll chk read skip r1 = Some (xs, r2)" "lr_reports r2 = lr_reports r1"
    by (auto simp: split_def Let_def)
  then show ?case
    using r1 by (subst ReadAll.simps) (simp add: ReadRecord_start [OF at])
qed

lemma reader_at_start:
  assumes "rest file = S"
  shows "reader_at rest kBlockSize S (new_Reader file reporter check 0)"
  using assms by (simp add: reader_at_def new_Reader_def)

text \<open>Reading a file that begins with a log and ends inside of the record that follows it.\<close>

lemma ReadAll_file:
  assumes "reads_stream read rest" "n < length (fst (emit chk (snd (emit_all chk 0 xs)) True y))"
    and "rest file = fst (emit_all chk 0 xs) @ take n (fst (emit chk (snd (emit_all chk 0 xs)) True y))"
  shows "\<exists>r. ReadAll chk read skip (new_Reader file reporter check 0) = Some (xs, r) \<and> lr_reports r = []"
proof -
  have eq: "fst (emit_all chk kBlockSize xs) = fst (emit_all chk 0 xs)"
    "emit chk (snd (emit_all chk kBlockSize xs)) True y = emit chk (snd (emit_all chk 0 xs)) True y"
    by (cases "xs = []", simp_all add: emit_all_block_start emit_block_start)+
  have "reader_at rest kBlockSize (fst (emit_all chk kBlockSize xs)
      @ take n (fst (emit chk (snd (emit_all chk kBlockSize xs)) True y))) (new_Reader file reporter check 0)"
    by (rule reader_at_start) (simp add: eq assms(3))
  from ReadAll_prefix [OF assms(1) this] assms(2) show ?thesis by (simp add: eq new_Reader_def)
qed

section \<open>Properties\<close>

lemma log_file_posix:
  assumes "accel_ok accel" "write_appends os fd content"
  shows "log_file (crc32c_Extend accel addr) (posix_append libcfs os t) (posix_flush os t)
           (posix_valid fd t) (posix_view content t) (posix_pending t)"
  by (intro log_file.intro checksum_crc32c posix_writable_file assms)

interpretation posix_log: log_file "crc32c_Extend AcceleratedCRC32C addr" "posix_append libcfs plain_os t"
    "posix_flush plain_os t" "posix_valid fd t" "posix_view (\<lambda>w. w) t" "posix_pending t" for addr libcfs t fd
  by (rule log_file_posix [OF accel_ok_none plain_os_appends])

text \<open>A new log file: the writer of a file just created by \<^verbatim>\<open>NewWritableFile\<close>.\<close>

abbreviation new_log :: "checksum_fun \<Rightarrow> string \<Rightarrow> int \<Rightarrow> 'w \<Rightarrow> (posix_wfile \<times> 'w) log_writer" where
  "new_log chk filename fd w \<equiv> new_Writer chk (new_PosixWritableFile filename fd, w) 0"

lemma new_log_simps:
  "lw_dest (new_log chk filename fd w) = (new_PosixWritableFile filename fd, w)"
  "lw_block_offset (new_log chk filename fd w) = 0" "lw_type_crc (new_log chk filename fd w) = InitTypeCrc chk"
  "posix_valid fd t (new_PosixWritableFile filename fd, w)"
  "posix_pending t (new_PosixWritableFile filename fd, w) = []"
  "posix_view content t (new_PosixWritableFile filename fd, w) = content w"
  by (simp_all add: new_Writer_def new_PosixWritableFile_def posix_file_defs buf_of_def)

lemma new_log_written:
  assumes "accel_ok accel" "write_appends os fd content"
    and "AddRecords (crc32c_Extend accel addr) (posix_append libcfs os t) (posix_flush os t) xs
           (new_log (crc32c_Extend accel addr) filename fd w) = Some (OK, lw)"
    and "lw_dest lw = (f', w')" "content w = []"
  shows "content w' = fst (emit_all (crc32c_Extend accel addr) 0 xs)
    \<and> lw_block_offset lw = snd (emit_all (crc32c_Extend accel addr) 0 xs)
    \<and> posix_valid fd t (f', w') \<and> posix_pending t (f', w') = []
    \<and> lw_type_crc lw = InitTypeCrc (crc32c_Extend accel addr)"
proof -
  note A = log_file.AddRecords_OK [OF log_file_posix [OF assms(1,2)] assms(3), unfolded new_log_simps(1-3),
      OF new_log_simps(4,5) refl]
  then have "posix_view content t (f', w') = fst (emit_all (crc32c_Extend accel addr) 0 xs)"
    using assms(4,5) by (simp add: new_log_simps(6))
  moreover from A have "posix_pending t (f', w') = []" using assms(4) by simp
  ultimately show ?thesis using A assms(4) by (simp add: posix_view_def posix_pending_def)
qed

text \<open>C5: What one thread writes to a fresh log through \<^verbatim>\<open>log::Writer\<close> and \<^verbatim>\<open>PosixWritableFile\<close>, every
  \<^verbatim>\<open>AddRecord\<close> reporting success, \<^verbatim>\<open>log::Reader\<close> reads back from the file: the same records, of any
  size and in the same order, with no drop reported, and then the end of the log.\<close>

theorem log_roundtrip:
  assumes "accel_ok accel" "write_appends os fd content"
    and "AddRecords (crc32c_Extend accel addr) (posix_append libcfs os t) (posix_flush os t) xs
           (new_log (crc32c_Extend accel addr) filename fd w) = Some (OK, lw)"
    and "lw_dest lw = (f', w')" "content w = []"
    and "reads_stream read rest" "rest file = content w'"
  shows "\<exists>r. ReadAll (crc32c_Extend accel addr') read skip (new_Reader file reporter check 0) = Some (xs, r)
           \<and> lr_reports r = []"
proof -
  have chk: "crc32c_Extend accel addr' = crc32c_Extend accel addr"
    by (intro ext) (simp add: crc32c_Extend_spec [OF assms(1)])
  show ?thesis unfolding chk
    using new_log_written [OF assms(1-5)] assms(7)
    by (intro ReadAll_file [OF assms(6), of 0 _ xs "[]"]) (simp_all add: emit_nonempty)
qed

lemma plain_reads_stream:
  "reads_stream (\<lambda>w n. PosixSequentialFile_Read libcfs plain_os fd filename n w) (\<lambda>w. w)"
  by (auto simp: reads_stream_def PosixSequentialFile_Read.simps plain_os_def min_def)

lemma plain_Flush:
  "\<exists>f'. Flush plain_os t f w = Some (OK, f', w @ buf_of t f) \<and> buf_of t f' = [] \<and> pw_fd f' = pw_fd f"
proof -
  obtain f' where "GetCurThreadBuf t f = (buf_of t f, f')" "pw_fd f' = pw_fd f"
    using GetCurThreadBuf_eq by metis
  then show ?thesis by (simp add: Flush_def FlushBuffer_def WriteUnbuffered.simps plain_os_def)
qed

lemma plain_AddRecord:
  assumes "lw_block_offset lw + kHeaderSize + length x < kBlockSize" "posix_valid fd t (lw_dest lw)"
    "posix_pending t (lw_dest lw) = []"
  shows "\<exists>lw'. AddRecord chk (posix_append libcfs plain_os t) (posix_flush plain_os t) x lw = Some (OK, lw')
    \<and> posix_valid fd t (lw_dest lw') \<and> posix_pending t (lw_dest lw') = []
    \<and> lw_block_offset lw' = lw_block_offset lw + kHeaderSize + length x
    \<and> length (snd (lw_dest lw')) = length (snd (lw_dest lw)) + kHeaderSize + length x"
proof -
  obtain f w where d: "lw_dest lw = (f, w)" by (metis surj_pair)
  let ?buf = "EncodeFixed32 (crc32c_Mask (chk (lw_type_crc lw ! fragment_type True True) x))
    @ [of_nat (length x AND 0xff), of_nat (drop_bit 8 (length x)), of_nat (fragment_type True True)]"
  have b: "buf_of t f = []" "pw_fd f = fd" using assms(2,3) d by (simp_all add: posix_file_defs)
  have k: "kBlockSize < kWritableFileBufferSize" by (simp add: kBlockSize_def kWritableFileBufferSize_def)
  obtain f1 where f1: "Append libcfs plain_os t f ?buf w = Some (OK, f1, w)"
    using Append_fits [of t f ?buf libcfs plain_os w] b assms(1) k by (auto simp: kHeaderSize_def)
  note A1 = Append_OK [OF plain_os_appends f1]
  have b1: "buf_of t f1 = ?buf" "pw_fd f1 = fd" using A1(1,3) b by simp_all
  obtain f2 where f2: "Append libcfs plain_os t f1 x w = Some (OK, f2, w)"
    using Append_fits [of t f1 x libcfs plain_os w] b1 assms(1) k by (auto simp: kHeaderSize_def)
  note A2 = Append_OK [OF plain_os_appends f2]
  have b2: "buf_of t f2 = ?buf @ x" "pw_fd f2 = fd" using A2(1,3) b1 assms(1) k by (simp_all add: kHeaderSize_def)
  obtain f3 where f3: "Flush plain_os t f2 w = Some (OK, f3, w @ ?buf @ x)" "buf_of t f3 = []" "pw_fd f3 = fd"
    using plain_Flush [of t f2 w] b2 by auto
  have "SwitchBlock (posix_append libcfs plain_os t) lw = Some lw"
    using assms(1) by (simp add: SwitchBlock_def Let_def)
  moreover have "length x < kBlockSize - lw_block_offset lw - kHeaderSize" using assms(1) by simp
  ultimately have "AddRecord chk (posix_append libcfs plain_os t) (posix_flush plain_os t) x lw
    = Some (OK, lw\<lparr>lw_dest := (f3, w @ ?buf @ x), lw_block_offset := lw_block_offset lw + kHeaderSize + length x\<rparr>)"
    using f1 f2 f3(1) d
    by (subst AddRecord_def, subst AddRecord_loop.simps)
      (simp add: EmitPhysicalRecord_def Let_def)
  then show ?thesis using f3 d by (simp add: posix_file_defs kHeaderSize_def)
qed

lemma plain_log_two:
  "\<exists>lw1 f1 w1 lw2 f2 w2.
     AddRecords chk (posix_append libcfs plain_os t) (posix_flush plain_os t) [[5, 6]]
       (new_log chk filename fd []) = Some (OK, lw1) \<and> lw_dest lw1 = (f1, w1) \<and> length w1 = 9
     \<and> AddRecord chk (posix_append libcfs plain_os t) (posix_flush plain_os t) [7] lw1 = Some (OK, lw2)
     \<and> lw_dest lw2 = (f2, w2) \<and> length w2 = 17"
proof -
  obtain lw1 where 1: "AddRecord chk (posix_append libcfs plain_os t) (posix_flush plain_os t) [5, 6]
      (new_log chk filename fd []) = Some (OK, lw1)" "posix_valid fd t (lw_dest lw1)"
    "posix_pending t (lw_dest lw1) = []" "lw_block_offset lw1 = 9" "length (snd (lw_dest lw1)) = 9"
    using plain_AddRecord [of "new_log chk filename fd []" "[5, 6]" fd t chk libcfs]
    by (auto simp: new_log_simps kHeaderSize_def kBlockSize_def)
  moreover obtain lw2 where "AddRecord chk (posix_append libcfs plain_os t) (posix_flush plain_os t) [7] lw1
      = Some (OK, lw2)" "length (snd (lw_dest lw2)) = 17"
    using plain_AddRecord [of lw1 "[7]" fd t chk libcfs] 1 by (auto simp: kHeaderSize_def kBlockSize_def)
  ultimately show ?thesis by (cases "lw_dest lw1"; cases "lw_dest lw2") auto
qed

abbreviation plain_read where
  "plain_read \<equiv> (\<lambda>w n. PosixSequentialFile_Read False plain_os 3 ''000003.log'' n w)"

abbreviation posix_skip where
  "posix_skip \<equiv> (\<lambda>w n. PosixSequentialFile_Skip n w)"

theorem log_roundtrip_witness:
  "\<exists>lw f' w' r. AddRecords (crc32c_Extend AcceleratedCRC32C 0) (posix_append False plain_os 1)
       (posix_flush plain_os 1) [[5, 6]] (new_log (crc32c_Extend AcceleratedCRC32C 0) ''000003.log'' 3 [])
         = Some (OK, lw)
     \<and> lw_dest lw = (f', w')
     \<and> ReadAll (crc32c_Extend AcceleratedCRC32C 0) plain_read posix_skip (new_Reader w' True True 0)
         = Some ([[5, 6]], r) \<and> lr_reports r = []"
proof -
  obtain lw f' w' where 1: "AddRecords (crc32c_Extend AcceleratedCRC32C 0) (posix_append False plain_os 1)
       (posix_flush plain_os 1) [[5, 6]] (new_log (crc32c_Extend AcceleratedCRC32C 0) ''000003.log'' 3 [])
         = Some (OK, lw)" "lw_dest lw = (f', w')"
    using plain_log_two by blast
  from log_roundtrip [OF accel_ok_none plain_os_appends 1 refl plain_reads_stream refl] 1
  show ?thesis by blast
qed

text \<open>C6: When the file ends somewhere inside of a record \<^verbatim>\<open>y\<close>, because the writer died before it was
  complete, the reader returns exactly the records before it and reports no corruption, at
  whatever byte the file ends: in the padding of a block, in a header, in a fragment or between
  two fragments of \<^verbatim>\<open>y\<close>.\<close>

theorem log_crash_prefix:
  assumes "accel_ok accel" "write_appends os fd content"
    and "AddRecords (crc32c_Extend accel addr) (posix_append libcfs os t) (posix_flush os t) xs
           (new_log (crc32c_Extend accel addr) filename fd w) = Some (OK, lw1)"
    and "lw_dest lw1 = (f1, w1)" "content w = []"
    and "AddRecord (crc32c_Extend accel addr) (posix_append libcfs os t) (posix_flush os t) y lw1 = Some (OK, lw2)"
    and "lw_dest lw2 = (f2, w2)"
    and "reads_stream read rest" "length (content w1) \<le> n" "n < length (content w2)"
    and "rest file = take n (content w2)"
  shows "\<exists>r. ReadAll (crc32c_Extend accel addr') read skip (new_Reader file reporter check 0) = Some (xs, r)
           \<and> lr_reports r = []"
proof -
  let ?chk = "crc32c_Extend accel addr"
  have chk: "crc32c_Extend accel addr' = ?chk"
    by (intro ext) (simp add: crc32c_Extend_spec [OF assms(1)])
  note L = new_log_written [OF assms(1-5)]
  let ?e = "fst (emit ?chk (snd (emit_all ?chk 0 xs)) True y)"
  have "posix_view content t (f2, w2) = posix_view content t (f1, w1) @ ?e \<and> posix_pending t (f2, w2) = []"
    using log_file.AddRecord_loop_OK [OF log_file_posix [OF assms(1,2)], of addr libcfs t True y lw1 lw2] assms(4,6,7) L
    by (simp add: AddRecord_def)
  then have c2: "content w2 = fst (emit_all ?chk 0 xs) @ ?e"
    using L by (auto simp: posix_view_def posix_pending_def)
  obtain m where n: "n = length (fst (emit_all ?chk 0 xs)) + m" using assms(9) L le_Suc_ex by auto
  show ?thesis unfolding chk
    using assms(10,11) by (intro ReadAll_file [OF assms(8), of m _ xs y]) (simp_all add: c2 n)
qed

theorem log_crash_prefix_witness:
  "\<exists>lw1 f1 w1 lw2 f2 w2 r. length w1 = 9 \<and> length w2 = 17
     \<and> AddRecords (crc32c_Extend AcceleratedCRC32C 0) (posix_append False plain_os 1)
         (posix_flush plain_os 1) [[5, 6]] (new_log (crc32c_Extend AcceleratedCRC32C 0) ''000003.log'' 3 [])
         = Some (OK, lw1) \<and> lw_dest lw1 = (f1, w1)
     \<and> AddRecord (crc32c_Extend AcceleratedCRC32C 0) (posix_append False plain_os 1) (posix_flush plain_os 1)
         [7] lw1 = Some (OK, lw2) \<and> lw_dest lw2 = (f2, w2)
     \<and> ReadAll (crc32c_Extend AcceleratedCRC32C 0) plain_read posix_skip (new_Reader (take 13 w2) True True 0)
         = Some ([[5, 6]], r) \<and> lr_reports r = []"
proof -
  obtain lw1 f1 w1 lw2 f2 w2 where
    1: "AddRecords (crc32c_Extend AcceleratedCRC32C 0) (posix_append False plain_os 1)
         (posix_flush plain_os 1) [[5, 6]] (new_log (crc32c_Extend AcceleratedCRC32C 0) ''000003.log'' 3 [])
         = Some (OK, lw1)" "lw_dest lw1 = (f1, w1)"
    and 2: "AddRecord (crc32c_Extend AcceleratedCRC32C 0) (posix_append False plain_os 1) (posix_flush plain_os 1)
         [7] lw1 = Some (OK, lw2)" "lw_dest lw2 = (f2, w2)"
    and n: "length w1 = 9" "length w2 = 17"
    using plain_log_two by blast
  have "length w1 \<le> 13" "13 < length w2" using n by simp_all
  from log_crash_prefix [OF accel_ok_none plain_os_appends 1 refl 2 plain_reads_stream this refl]
  obtain r where "ReadAll (crc32c_Extend AcceleratedCRC32C 0) plain_read posix_skip
      (new_Reader (take 13 w2) True True 0) = Some ([[5, 6]], r)" "lr_reports r = []" by blast
  then show ?thesis using 1 2 n by blast
qed

end
