(* ===== verification/LDB_Table_Props.thy ===== *)
theory LDB_Table_Props
  imports LDB_Table LDB_Block_Props LDB_Log_Props
begin

text \<open>
  A table gives back what was put into it.  The invariant of the builder describes the file as a
  sequence of stored blocks with an index key for each; searching the index and then one block is
  shown to be searching the list of all entries.
\<close>

section \<open>Blocks in a file\<close>

definition snappy_ok :: "snappy_lib option \<Rightarrow> bool" where
  "snappy_ok lib \<longleftrightarrow> (\<forall>l raw. lib = Some l \<longrightarrow>
     GetUncompressedLength l (RawCompress l raw) = Some (length raw) \<and> RawUncompress l (RawCompress l raw) = Some raw)"

text \<open>A read within the file returns the bytes asked for, as \<^verbatim>\<open>pread(2)\<close> does on a regular file.\<close>

definition reads_file :: "'f read_fun \<Rightarrow> ('f \<Rightarrow> slice) \<Rightarrow> bool" where
  "reads_file read bytes \<longleftrightarrow> (\<forall>f off n. unat off + n \<le> length (bytes f) \<longrightarrow>
     (\<exists>f'. read off n f = Some (OK, take n (drop (unat off) (bytes f)), f') \<and> bytes f' = bytes f))"

definition stored_as :: "checksum_fun \<Rightarrow> slice \<Rightarrow> CompressionType \<Rightarrow> slice" where
  "stored_as chk b ty = b @ [compression_code ty] @ EncodeFixed32 (crc32c_Mask (chk 0 (b @ [compression_code ty])))"

definition unpacks :: "snappy_lib option \<Rightarrow> slice \<Rightarrow> CompressionType \<Rightarrow> slice \<Rightarrow> bool" where
  "unpacks lib b ty raw \<longleftrightarrow> (case ty of
      kNoCompression \<Rightarrow> raw = b
    | kSnappyCompression \<Rightarrow> Snappy_GetUncompressedLength lib b = Some (length raw) \<and> Snappy_Uncompress lib b = Some raw)"

definition stored :: "checksum_fun \<Rightarrow> snappy_lib option \<Rightarrow> slice \<Rightarrow> block_handle \<Rightarrow> slice \<Rightarrow> bool" where
  "stored chk lib content h raw \<longleftrightarrow> (\<exists>pre b ty rest. content = pre @ stored_as chk b ty @ rest
     \<and> unat (bh_offset h) = length pre \<and> unat (bh_size h) = length b \<and> unpacks lib b ty raw)"

lemma stored_append: "stored chk lib content h raw \<Longrightarrow> stored chk lib (content @ x) h raw"
  unfolding stored_def by (metis append_assoc)

lemma stored_as_parts:
  "length (stored_as chk b ty) = length b + 5" "stored_as chk b ty ! length b = compression_code ty"
  "take (length b) (stored_as chk b ty) = b" "take (length b + 1) (stored_as chk b ty) = b @ [compression_code ty]"
  "DecodeFixed32 (drop (length b + 1) (stored_as chk b ty)) = crc32c_Mask (chk 0 (b @ [compression_code ty]))"
  using DecodeFixed32_Encode [of "crc32c_Mask (chk 0 (b @ [compression_code ty]))" "[]"]
  by (simp_all add: stored_as_def)

lemma ReadBlock_stored:
  assumes "reads_file read bytes" "stored chk lib (bytes f) h raw" "length (bytes f) < 2 ^ 64"
  shows "\<exists>f'. ReadBlock chk lib read v h f = Some (Inr raw, f') \<and> bytes f' = bytes f"
proof -
  obtain pre b ty rest where c: "bytes f = pre @ stored_as chk b ty @ rest"
    and h: "unat (bh_offset h) = length pre" "unat (bh_size h) = length b" "unpacks lib b ty raw"
    using assms(2) by (auto simp: stored_def)
  have len: "unat (bh_size h + 5) = length b + 5"
    using assms(3) h(2) unfolding c by (simp add: unat_word_ariths stored_as_parts(1))
  obtain f' where r: "read (bh_offset h) (length b + 5) f = Some (OK, stored_as chk b ty, f')" "bytes f' = bytes f"
    using assms(1) [unfolded reads_file_def, rule_format, of "bh_offset h" "length b + 5" f] h(1)
    by (auto simp: c stored_as_parts(1))
  show ?thesis
  proof (cases ty)
    case kNoCompression
    then show ?thesis using r h
      by (simp add: ReadBlock_def Let_def len stored_as_parts [simplified] kBlockTrailerSize_def unpacks_def)
  next
    case kSnappyCompression
    then show ?thesis using r h
      by (simp add: ReadBlock_def Let_def len stored_as_parts [simplified] kBlockTrailerSize_def unpacks_def compression_code_def)
  qed
qed

section \<open>Block handles and the footer\<close>

lemma length_varint64: "length (EncodeVarint64 v) \<le> 10"
  using varint_length_bound [of v 9] unat_bound [of v] by (simp add: EncodeVarint64_def)

lemma handle_roundtrip: "BlockHandle_DecodeFrom (BlockHandle_EncodeTo h [] @ rest) = Inr (h, rest)"
  by (simp add: BlockHandle_DecodeFrom_def BlockHandle_EncodeTo_def PutVarint64_def)

lemma handle_length: "length (BlockHandle_EncodeTo h []) \<le> 20"
  using length_varint64 [of "bh_offset h"] length_varint64 [of "bh_size h"]
  by (simp add: BlockHandle_EncodeTo_def PutVarint64_def)

lemma handle_append: "BlockHandle_EncodeTo h dst = dst @ BlockHandle_EncodeTo h []"
  by (simp add: BlockHandle_EncodeTo_def PutVarint64_def)

lemma magic_join: "push_bit 32 (ucast (ucast (drop_bit 32 x) :: uint32)) OR ucast (ucast (x AND 0xffffffff) :: uint32) = (x :: uint64)"
proof -
  have "x AND 0xffffffff = take_bit 32 x" by (simp add: take_bit_eq_mask mask_eq_exp_minus_1)
  then show ?thesis by (simp only:) (rule bit_word_eqI, auto simp: bit_simps)
qed

lemma footer_roundtrip:
  "length (Footer_EncodeTo ft []) = kEncodedLength" "\<exists>rest. Footer_DecodeFrom (Footer_EncodeTo ft []) = Inr (ft, rest)"
proof -
  let ?m = "BlockHandle_EncodeTo (ft_metaindex_handle ft) []" and ?i = "BlockHandle_EncodeTo (ft_index_handle ft) []"
  let ?lo = "EncodeFixed32 (ucast (kTableMagicNumber AND 0xffffffff))" and ?hi = "EncodeFixed32 (ucast (drop_bit 32 kTableMagicNumber))"
  define pad where "pad = replicate (40 - length (?m @ ?i)) (0 :: byte)"
  have l: "length (?m @ ?i) \<le> 40" using handle_length [of "ft_metaindex_handle ft"] handle_length [of "ft_index_handle ft"] by simp
  then have e: "Footer_EncodeTo ft [] = ?m @ ?i @ pad @ ?lo @ ?hi" and lp: "length (?m @ ?i @ pad) = 40"
    using handle_append [of "ft_index_handle ft" ?m]
    by (simp_all add: Footer_EncodeTo_def kMaxEncodedLength_def pad_def PutFixed32_def)
  then show "length (Footer_EncodeTo ft []) = kEncodedLength" by (simp add: kEncodedLength_def kMaxEncodedLength_def)
  have "drop 40 (Footer_EncodeTo ft []) = ?lo @ ?hi"
    using lp by (simp add: e)
  moreover have "DecodeFixed32 ?hi = ucast (drop_bit 32 kTableMagicNumber)"
    using DecodeFixed32_Encode [of _ "[]"] by simp
  ultimately show "\<exists>rest. Footer_DecodeFrom (Footer_EncodeTo ft []) = Inr (ft, rest)"
    by (simp add: Footer_DecodeFrom_def kEncodedLength_def kMaxEncodedLength_def Let_def magic_join)
      (simp add: e handle_roundtrip)
qed

section \<open>The size of a block\<close>

lemma length_varint32: "length (EncodeVarint32 v) \<le> 5"
  using varint_length_bound [of v 4] unat_bound [of v] by (simp add: EncodeVarint32_loop)

abbreviation block_bytes :: "(slice \<times> slice) list \<Rightarrow> nat" where
  "block_bytes es \<equiv> sum_list (map (\<lambda>(k, v). length k + length v + 19) es)"

definition entry_bytes :: "(slice \<times> slice) list \<Rightarrow> nat" where
  "entry_bytes es = sum_list (map (\<lambda>(k, v). length k + length v + 39) es)"

lemma build_snoc: "build interval (es @ [(k, v)]) = BlockBuilder_Add interval k v (build interval es)"
  by (simp add: build_def)

lemma build_size: "CurrentSizeEstimate (build interval es) \<le> 8 + block_bytes es"
proof (induction es rule: rev_induct)
  case Nil
  show ?case by (simp add: build_def new_BlockBuilder_def CurrentSizeEstimate_def)
next
  case (snoc e es)
  obtain k v where e: "e = (k, v)" by fastforce
  have "CurrentSizeEstimate (BlockBuilder_Add interval k v b) \<le> CurrentSizeEstimate b + (length k + length v + 19)" for b
    using length_varint32 [of "of_nat (diff_index (bb_last_key b) k)"] length_varint32 [of "of_nat (length k - diff_index (bb_last_key b) k)"]
      length_varint32 [of "of_nat (length v)"] length_varint32 [of "of_nat (length k)"] length_varint32 [of 0]
    by (auto simp: BlockBuilder_Add_def CurrentSizeEstimate_def PutVarint32_def Let_def)
  from this [of "build interval es"] snoc show ?case by (simp add: e build_snoc)
qed

lemma build_buffer_empty: "bb_buffer (build interval es) = [] \<longleftrightarrow> es = []"
proof (cases es rule: rev_cases)
  case (snoc ys e)
  obtain k v where "e = (k, v)" by fastforce
  then show ?thesis using snoc varint32_pos [of "of_nat (length v)"]
    by (auto simp: build_snoc BlockBuilder_Add_def PutVarint32_def Let_def split: prod.splits)
qed (simp add: build_def new_BlockBuilder_def)

lemma Reset_build: "BlockBuilder_Reset b = build interval []"
  by (simp add: BlockBuilder_Reset_def build_def new_BlockBuilder_def)

section \<open>Searching an index\<close>

text \<open>An index entry with its block: the index key, the handle and the entries of the block.\<close>

type_synonym indexed_block = "(slice \<times> block_handle) \<times> (slice \<times> slice) list"

abbreviation entries_of :: "indexed_block list \<Rightarrow> (slice \<times> slice) list" where
  "entries_of bs \<equiv> concat (map snd bs)"

definition first_ge :: "comparator \<Rightarrow> slice \<Rightarrow> (slice \<times> 'v) list \<Rightarrow> (slice \<times> 'v) option" where
  "first_ge c k es = List.find (\<lambda>e. \<not> Compare c (fst e) k < 0) es"

lemma first_ge_simps [simp]:
  "first_ge c k [] = None"
  "first_ge c k (e # es) = (if Compare c (fst e) k < 0 then first_ge c k es else Some e)"
  by (simp_all add: first_ge_def)

lemma first_ge_append: "first_ge c k (xs @ ys) = (case first_ge c k xs of None \<Rightarrow> first_ge c k ys | Some e \<Rightarrow> Some e)"
  by (induction xs) simp_all

lemma first_ge_None: "first_ge c k es = None \<longleftrightarrow> (\<forall>e \<in> set es. Compare c (fst e) k < 0)"
  by (induction es) auto

lemma first_ge_nth:
  "first_ge c k es = (let i = length (takeWhile (\<lambda>(k', v). Compare c k' k < 0) es) in if i < length es then Some (es ! i) else None)"
  by (induction es) (auto simp: Let_def)

lemma first_ge_map: "first_ge c k (map (\<lambda>e. (f e, g e)) xs) = map_option (\<lambda>e. (f e, g e)) (List.find (\<lambda>e. \<not> Compare c (f e) k < 0) xs)"
  by (induction xs) simp_all

text \<open>A seek in a finished block.\<close>

context key_order
begin

lemma compare_less_le_trans:
  assumes "valid a" "valid b" "valid d" "Compare c a b < 0" "Compare c b d \<le> 0"
  shows "Compare c a d < 0"
  using assms compare_trans [of a b d] compare_0 [of b d] by (cases "Compare c b d = 0") auto

lemma block_seek:
  assumes "1 \<le> interval" "sorted_wrt (\<lambda>d e. Compare c (fst d) (fst e) < 0) es" "\<forall>e \<in> set es. valid (fst e)"
    and "CurrentSizeEstimate (build interval es) < 2 ^ 32" "valid k"
  shows "\<exists>iter. Block_Seek c k (NewIterator (fst (BlockBuilder_Finish (build interval es)))) = Some iter
    \<and> iterator_status iter = OK \<and> iterator_entry iter = first_ge c k es"
proof -
  have "run_cursor c es [OpSeek k] (length es) = Some [(OK, first_ge c k es)]"
    by (simp add: first_ge_nth Let_def)
  from block_refines [OF assms(1-3) _ this] assms(4,5) obtain blk where
    blk: "NewIterator (fst (BlockBuilder_Finish (build interval es))) = BlockIter blk (new_Iter blk)"
    "run_iter c blk [OpSeek k] (new_Iter blk) = Some [(OK, first_ge c k es)]"
    by (auto simp: CurrentSizeEstimate_exact)
  then obtain it where "Iter_Seek c blk k (new_Iter blk) = Some it" "iter_output blk it = (OK, first_ge c k es)"
    by (auto simp: bind_eq_Some_conv)
  then show ?thesis using blk(1) by (auto simp: iter_output_def)
qed

end

text \<open>
  What the clients of a table need of the keys: their order, a filter policy, and that no key
  between the last key of a block and its separator has the user key of the next block's first key.
\<close>

locale table_keys = key_order kvalid c + filter_contract policy same
  for kvalid :: "slice \<Rightarrow> bool" and c :: comparator and policy :: filter_policy and same :: "slice \<Rightarrow> slice \<Rightarrow> bool" +
  assumes gap: "kvalid a \<Longrightarrow> kvalid b \<Longrightarrow> kvalid k \<Longrightarrow> Compare c a b < 0 \<Longrightarrow> Compare c a k < 0 \<Longrightarrow>
      Compare c k (FindShortestSeparator c a b) \<le> 0 \<Longrightarrow> \<not> same b k"
    and separator_length: "length (FindShortestSeparator c a b) \<le> length a"
    and successor_length: "length (FindShortSuccessor c a) \<le> length a"
begin

text \<open>Each index key is at or after the last key of its block and before the first key of the next.\<close>

fun seps :: "indexed_block list \<Rightarrow> (slice \<times> slice) list \<Rightarrow> bool" where
  "seps [] ys = True"
| "seps (((k, h), p) # bs) ys = (p \<noteq> [] \<and> kvalid k \<and> length k \<le> length (fst (last p)) \<and> Compare c (fst (last p)) k \<le> 0
     \<and> (entries_of bs @ ys \<noteq> [] \<longrightarrow> k = FindShortestSeparator c (fst (last p)) (fst (hd (entries_of bs @ ys)))) \<and> seps bs ys)"

abbreviation ordered :: "(slice \<times> slice) list \<Rightarrow> bool" where
  "ordered es \<equiv> sorted_wrt (\<lambda>d e. Compare c (fst d) (fst e) < 0) es \<and> (\<forall>e \<in> set es. kvalid (fst e))"

lemma seps_snoc: "seps (bs @ [x]) ys \<longleftrightarrow> seps bs (snd x @ ys) \<and> seps [x] ys"
  by (induction bs) auto

lemma seps_more: "ys \<noteq> [] \<Longrightarrow> seps bs ys \<Longrightarrow> seps bs (ys @ zs)"
  by (induction bs) (auto simp: hd_append)

lemma ordered_last:
  assumes "ordered p" "p \<noteq> []" "Compare c (fst (last p)) k < 0" "kvalid k"
  shows "\<forall>e \<in> set p. Compare c (fst e) k < 0"
proof
  fix e assume e: "e \<in> set p"
  obtain q l where p: "p = q @ [l]" using assms(2) by (metis rev_exhaust)
  show "Compare c (fst e) k < 0"
    using e assms(1,3,4) compare_trans [of "fst e" "fst l" k] by (auto simp: p sorted_wrt_append)
qed

lemma sep_before_next:
  assumes "seps (((k, h), p) # bs) ys" "ordered (p @ entries_of bs @ ys)" "entries_of bs @ ys \<noteq> []"
  shows "Compare c k (fst (hd (entries_of bs @ ys))) < 0"
proof -
  let ?n = "hd (entries_of bs @ ys)"
  have m: "last p \<in> set p" "?n \<in> set (entries_of bs @ ys)"
    using assms(1) hd_in_set [OF assms(3)] by auto
  then have lt: "Compare c (fst (last p)) (fst ?n) < 0"
    using assms(2) unfolding sorted_wrt_append by blast
  have v: "kvalid (fst e)" if "e \<in> set p \<union> set (entries_of bs @ ys)" for e
    using assms(2) that by auto
  have v2: "kvalid (fst (last p))" "kvalid (fst ?n)" using v m by blast+
  have k: "FindShortestSeparator c (fst (last p)) (fst ?n) = k" using assms(1,3) unfolding seps.simps by blast
  show ?thesis using separator [OF v2 lt] unfolding k by blast
qed

lemma ordered_tail: "ordered (p @ es) \<Longrightarrow> ordered es" "ordered (p @ es) \<Longrightarrow> ordered p"
  by (auto simp: sorted_wrt_append)

lemma after_sep:
  assumes "seps (((k, h), p) # bs) ys" "ordered (p @ entries_of bs @ ys)" "e \<in> set (entries_of bs @ ys)"
  shows "Compare c k (fst e) < 0"
proof -
  obtain n ns where ns: "entries_of bs @ ys = n # ns" using assms(3) by (cases "entries_of bs @ ys") auto
  have "Compare c k (fst n) < 0" using sep_before_next [OF assms(1,2)] unfolding ns by simp
  moreover have "kvalid k" using assms(1) by simp
  moreover have "ordered (n # ns)" using ordered_tail(1) [OF assms(2)] unfolding ns .
  ultimately show ?thesis using assms(3) compare_trans [of k "fst n" "fst e"] unfolding ns by auto
qed

text \<open>Searching the index and then the block is searching all entries, but for a key that is in none.\<close>

definition finds :: "slice \<Rightarrow> (slice \<times> slice) option \<Rightarrow> indexed_block \<Rightarrow> bool" where
  "finds k res x \<longleftrightarrow> (\<forall>e. first_ge c k (snd x) = Some e \<longrightarrow> res = Some e)
     \<and> (\<forall>e. res = Some e \<and> same (fst e) k \<longrightarrow> first_ge c k (snd x) = Some e)"

lemma index_search:
  assumes "seps bs []" "ordered (entries_of bs)" "kvalid k"
  shows "case List.find (\<lambda>x. \<not> Compare c (fst (fst x)) k < 0) bs of
      None \<Rightarrow> first_ge c k (entries_of bs) = None
    | Some x \<Rightarrow> x \<in> set bs \<and> finds k (first_ge c k (entries_of bs)) x"
  using assms(1,2)
proof (induction bs)
  case (Cons x bs)
  obtain s h p where x: "x = ((s, h), p)" by (metis surj_pair)
  have s: "p \<noteq> []" "kvalid s" "Compare c (fst (last p)) s \<le> 0" "seps bs []" using Cons.prems by (simp_all add: x)
  have "ordered (p @ entries_of bs)" using Cons.prems(2) by (simp add: x)
  note o = ordered_tail(2) [OF this] ordered_tail(1) [OF this]
  have vl: "kvalid (fst (last p))" using o(1) s(1) by simp
  show ?case
  proof (cases "Compare c s k < 0")
    case True
    then have "\<forall>e \<in> set p. Compare c (fst e) k < 0"
      using ordered_last [OF o(1) s(1) _ assms(3)] compare_le_trans [OF vl s(2) assms(3) s(3)] by blast
    then have "first_ge c k p = None" by (simp add: first_ge_None)
    then have "first_ge c k (p @ entries_of bs) = first_ge c k (entries_of bs)" by (simp only: first_ge_append option.case)
    with Cons.IH [OF s(4) o(2)] True show ?thesis
      by (cases "List.find (\<lambda>x. \<not> Compare c (fst (fst x)) k < 0) bs") (simp_all add: x)
  next
    case False
    have "\<not> same (fst e) k" if P: "first_ge c k p = None" and E: "first_ge c k (entries_of bs) = Some e" for e
    proof -
      obtain n ns where ns: "entries_of bs = n # ns" using E by (cases "entries_of bs") auto
      have sn: "Compare c s (fst n) < 0" "s = FindShortestSeparator c (fst (last p)) (fst n)"
        using sep_before_next [of s h p bs "[]"] Cons.prems by (auto simp: x ns)
      have vn: "kvalid (fst n)" using o(2) by (simp add: ns)
      have ks: "Compare c k s \<le> 0" using False compare_swap [of s k] compare_0 [of s k] compare_swap [of k s] s(2) assms(3) by linarith
      have "Compare c k (fst n) < 0" using compare_le_trans [OF assms(3) s(2) vn ks sn(1)] .
      then have "e = n" using E compare_swap [OF assms(3) vn] by (simp add: ns)
      moreover have "Compare c (fst (last p)) k < 0" using P s(1) by (simp add: first_ge_None)
      moreover have "Compare c (fst (last p)) (fst n) < 0"
        using compare_le_trans [OF vl s(2) vn s(3) sn(1)] .
      ultimately show ?thesis using gap [OF vl vn assms(3)] ks sn(2) by blast
    qed
    with False show ?thesis by (cases "first_ge c k p") (auto simp: x finds_def first_ge_append)
  qed
qed simp

lemma index_ordered:
  "seps bs [] \<Longrightarrow> ordered (entries_of bs) \<Longrightarrow>
     sorted_wrt (\<lambda>x y. Compare c (fst (fst x)) (fst (fst y)) < 0) bs \<and> (\<forall>x \<in> set bs. kvalid (fst (fst x)))"
proof (induction bs)
  case (Cons x bs)
  obtain s h p where x: "x = ((s, h), p)" by (metis surj_pair)
  have o: "ordered (p @ entries_of bs)" using Cons.prems(2) by (simp add: x)
  have bs: "sorted_wrt (\<lambda>x y. Compare c (fst (fst x)) (fst (fst y)) < 0) bs" "\<forall>x \<in> set bs. kvalid (fst (fst x))"
    using Cons ordered_tail(1) [OF o] by (simp_all add: x)
  moreover have "Compare c s (fst (fst y)) < 0" if y: "y \<in> set bs" for y
  proof -
    obtain s' h' p' where y': "y = ((s', h'), p')" by (metis surj_pair)
    have q: "p' \<noteq> [] \<and> Compare c (fst (last p')) s' \<le> 0" if "seps bs []" "((s', h'), p') \<in> set bs" for bs
      using that by (induction bs) auto
    have "p' \<noteq> []" "Compare c (fst (last p')) s' \<le> 0" using q [of bs] Cons.prems(1) y by (auto simp: x y')
    moreover from this have "last p' \<in> set p'" by simp
    then have l: "last p' \<in> set (entries_of bs @ [])" using y by (auto simp: y' intro!: bexI [of _ "((s', h'), p')"])
    moreover have "Compare c s (fst (last p')) < 0" using after_sep [of s h p bs "[]", OF _ _ l] Cons.prems by (simp add: x)
    moreover have "kvalid (fst (last p'))" "kvalid s" "kvalid s'" using o l bs(2) y Cons.prems(1) by (auto simp: x y')
    ultimately show ?thesis
      using compare_less_le_trans [of s "fst (last p')" s'] by (simp add: y')
  qed
  moreover have "kvalid s" using Cons.prems(1) by (simp add: x)
  ultimately show ?case by (simp add: x)
qed simp

end

section \<open>The builder\<close>

locale table_env = log_file extend append flush fvalid view pending + table_keys kvalid c policy same
  for extend :: checksum_fun and append :: "'s append_fun" and flush :: "'s flush_fun"
    and fvalid :: "'s \<Rightarrow> bool" and view pending :: "'s \<Rightarrow> slice"
    and kvalid :: "slice \<Rightarrow> bool" and c :: comparator and policy :: filter_policy and same :: "slice \<Rightarrow> slice \<Rightarrow> bool" +
  fixes lib :: "snappy_lib option" and opt :: table_options
  assumes snappy: "snappy_ok lib"
    and opt_comparator: "opt_comparator opt = c" and opt_interval: "1 \<le> opt_restart_interval opt"
    and opt_policy: "opt_filter_policy opt \<in> {None, Some policy}" and policy_name: "length (policy_Name policy) < 2 ^ 31"
begin

abbreviation block_of :: "(slice \<times> slice) list \<Rightarrow> slice" where
  "block_of p \<equiv> fst (BlockBuilder_Finish (build (opt_restart_interval opt) p))"

abbreviation file_view :: "'s table_builder \<Rightarrow> slice" where
  "file_view r \<equiv> view (tb_file r)"

definition writes :: "'s table_builder \<Rightarrow> block_handle \<Rightarrow> slice \<Rightarrow> 's table_builder \<Rightarrow> bool" where
  "writes r h raw r' \<longleftrightarrow> (\<exists>b ty f. unpacks lib b ty raw \<and> fvalid f
     \<and> view f = file_view r @ stored_as extend b ty \<and> h = \<lparr>bh_offset = tb_offset r, bh_size = of_nat (length b)\<rparr>
     \<and> r' = r\<lparr>tb_file := f, tb_offset := tb_offset r + of_nat (length b + 5), tb_status := OK\<rparr>)"

lemma writes_stored:
  assumes "writes r h raw r'" "unat (tb_offset r) = length (file_view r)" "length (file_view r') < 2 ^ 64"
  shows "stored extend lib (file_view r') h raw" "unat (tb_offset r') = length (file_view r')"
    "tb_offset r \<le> tb_offset r'" "bh_offset h = tb_offset r"
proof -
  obtain b ty where W: "unpacks lib b ty raw" "file_view r' = file_view r @ stored_as extend b ty"
    "h = \<lparr>bh_offset = tb_offset r, bh_size = of_nat (length b)\<rparr>" "tb_offset r' = tb_offset r + of_nat (length b + 5)"
    using assms(1) by (auto simp: writes_def)
  have l: "length (file_view r) + (length b + 5) < 2 ^ 64" using assms(3) by (simp add: W(2) stored_as_parts(1))
  then have ub: "unat (of_nat (length b) :: uint64) = length b" "unat (of_nat (length b + 5) :: uint64) = length b + 5"
    by (simp_all only: unat_of_nat) (simp_all add: take_bit_nat_eq_self)
  then show o: "unat (tb_offset r') = length (file_view r')"
    using W assms(2) l by (simp add: stored_as_parts(1) unat_word_ariths)
  have "file_view r' = file_view r @ stored_as extend b ty @ [] \<and> unat (bh_offset h) = length (file_view r)
    \<and> unat (bh_size h) = length b \<and> unpacks lib b ty raw"
    using W assms(2) ub(1) by simp
  then show "stored extend lib (file_view r') h raw" unfolding stored_def by blast
  show "bh_offset h = tb_offset r" using W(3) by simp
  show "tb_offset r \<le> tb_offset r'" using o assms(2) by (simp add: word_le_nat_alt W(2))
qed

lemma WriteRawBlock_writes:
  assumes "WriteRawBlock extend append b ty r = Some (h, r')" "tb_status r' = OK" "fvalid (tb_file r)" "unpacks lib b ty raw"
  shows "writes r h raw r'" "file_view r' = file_view r @ stored_as extend b ty"
proof -
  obtain s1 f1 where 1: "append (tb_file r) b = Some (s1, f1)"
    using assms(1) by (auto simp: WriteRawBlock_def Let_def bind_eq_Some_conv)
  have "s1 = OK" using assms(1,2) 1 by (auto simp: WriteRawBlock_def Let_def split: if_splits)
  let ?t = "compression_code ty # EncodeFixed32 (crc32c_Mask (extend (extend 0 b) [compression_code ty]))"
  obtain s2 f2 where 2: "append f1 ?t = Some (s2, f2)"
    "r' = r\<lparr>tb_file := f2, tb_status := s2, tb_offset := (if s2 = OK then tb_offset r + of_nat (length b + kBlockTrailerSize) else tb_offset r)\<rparr>"
    "h = \<lparr>bh_offset = tb_offset r, bh_size = of_nat (length b)\<rparr>"
    using assms(1) 1 \<open>s1 = OK\<close> by (auto simp: WriteRawBlock_def Let_def bind_eq_Some_conv)
  have "s2 = OK" using assms(2) 2(2) by simp
  have v: "fvalid f2" "view f2 = view (tb_file r) @ b @ ?t"
    using append_OK [OF assms(3), of b f1] append_OK [of f1 ?t f2] 1 2(1) \<open>s1 = OK\<close> \<open>s2 = OK\<close> by simp_all
  moreover have "b @ ?t = stored_as extend b ty" by (simp add: stored_as_def extend_append)
  moreover have "r' = r\<lparr>tb_file := f2, tb_offset := tb_offset r + of_nat (length b + 5), tb_status := OK\<rparr>"
    using 2(2) \<open>s2 = OK\<close> by (simp add: kBlockTrailerSize_def)
  ultimately show "writes r h raw r'" "file_view r' = file_view r @ stored_as extend b ty"
    unfolding writes_def using 2(3) assms(4) by auto
qed

lemma WriteBlock_writes:
  assumes "WriteBlock extend lib opt append block r = Some (h, r')" "tb_status r' = OK" "fvalid (tb_file r)"
  shows "writes r h (fst (BlockBuilder_Finish block)) r'"
proof -
  let ?raw = "fst (BlockBuilder_Finish block)"
  have plain: "unpacks lib ?raw kNoCompression ?raw" by (simp add: unpacks_def)
  have "\<exists>b ty. WriteRawBlock extend append b ty r = Some (h, r') \<and> unpacks lib b ty ?raw"
  proof (cases "opt_compression opt")
    case kNoCompression
    then show ?thesis using assms(1) plain by (auto simp: WriteBlock_def Let_def)
  next
    case kSnappyCompression
    show ?thesis
    proof (cases lib)
      case None
      then show ?thesis using assms(1) plain kSnappyCompression by (auto simp: WriteBlock_def Let_def Snappy_Compress_def)
    next
      case (Some l)
      then have "unpacks lib (RawCompress l ?raw) kSnappyCompression ?raw"
        using snappy by (simp add: unpacks_def snappy_ok_def Snappy_GetUncompressedLength_def Snappy_Uncompress_def)
      then show ?thesis using assms(1) plain kSnappyCompression Some
        by (auto simp: WriteBlock_def Let_def Snappy_Compress_def split: if_splits)
    qed
  qed
  then show ?thesis using WriteRawBlock_writes(1) assms(2,3) by blast
qed

subsection \<open>The invariant\<close>

fun pend_entries :: "(block_handle \<times> (slice \<times> slice) list) option \<Rightarrow> (slice \<times> slice) list" where
  "pend_entries None = []"
| "pend_entries (Some (h, p)) = p"

definition blocks_of :: "indexed_block list \<Rightarrow> (block_handle \<times> (slice \<times> slice) list) option
    \<Rightarrow> (block_handle \<times> (slice \<times> slice) list) set" where
  "blocks_of bs pend = (\<lambda>((k, h), p). (h, p)) ` set bs \<union> set_option pend"

definition index_of :: "indexed_block list \<Rightarrow> (slice \<times> slice) list" where
  "index_of bs = map (\<lambda>x. (fst (fst x), BlockHandle_EncodeTo (snd (fst x)) [])) bs"

definition filtered :: "'s table_builder \<Rightarrow> (block_handle \<times> (slice \<times> slice) list) set \<Rightarrow> (slice \<times> slice) list \<Rightarrow> bool" where
  "filtered r blocks cur \<longleftrightarrow> (opt_filter_policy opt \<noteq> None \<longrightarrow> (\<exists>fb. tb_filter_block r = Some fb
     \<and> fb_inv fb (tb_offset r) ((\<Union>(h, p) \<in> blocks. Pair (bh_offset h) ` fst ` set p) \<union> Pair (tb_offset r) ` fst ` set cur)))"

text \<open>
  \<^verbatim>\<open>bs\<close> are the blocks that are in the index, \<^verbatim>\<open>pend\<close> is a block that has been written and waits for the
  next key, \<^verbatim>\<open>cur\<close> are the entries of the block being filled.
\<close>

definition tinv :: "'s table_builder \<Rightarrow> indexed_block list \<Rightarrow> (block_handle \<times> (slice \<times> slice) list) option
    \<Rightarrow> (slice \<times> slice) list \<Rightarrow> bool" where
  "tinv r bs pend cur \<longleftrightarrow> fvalid (tb_file r) \<and> unat (tb_offset r) = length (file_view r)
     \<and> (\<forall>(h, p) \<in> blocks_of bs pend. stored extend lib (file_view r) h (block_of p))
     \<and> tb_pending_index_entry r = (pend \<noteq> None)
     \<and> (case pend of None \<Rightarrow> bs \<noteq> [] \<longrightarrow> cur \<noteq> [] | Some (h, p) \<Rightarrow> tb_pending_handle r = h \<and> p \<noteq> [] \<and> cur = [])
     \<and> tb_data_block r = build (opt_restart_interval opt) cur \<and> tb_index_block r = build 1 (index_of bs)
     \<and> (pend_entries pend @ cur \<noteq> [] \<longrightarrow> tb_last_key r = fst (last (pend_entries pend @ cur)))
     \<and> seps bs (pend_entries pend @ cur) \<and> filtered r (blocks_of bs pend) cur"

abbreviation all_entries :: "indexed_block list \<Rightarrow> (block_handle \<times> (slice \<times> slice) list) option
    \<Rightarrow> (slice \<times> slice) list \<Rightarrow> (slice \<times> slice) list" where
  "all_entries bs pend cur \<equiv> entries_of bs @ pend_entries pend @ cur"

lemma tinv_new:
  assumes "fvalid file" "view file = []"
  shows "tinv (new_TableBuilder opt file) [] None []"
proof -
  have "fb_inv (StartBlock policy 0 new_FilterBlockBuilder) 0 {}"
    using fb_inv_StartBlock [OF fb_inv_new] by simp
  then have "filtered (new_TableBuilder opt file) (blocks_of [] None) []"
    using opt_policy by (auto simp: filtered_def new_TableBuilder_def blocks_of_def)
  then show ?thesis using assms
    by (simp add: tinv_def new_TableBuilder_def blocks_of_def index_of_def build_def)
qed

lemma stored_grows: "stored extend lib v h raw \<Longrightarrow> \<exists>x. v' = v @ x \<Longrightarrow> stored extend lib v' h raw"
  using stored_append by blast

lemma Flush_steps:
  assumes "TableBuilder_Flush extend lib opt append flush r = Some r'" "tb_status r' = OK" "fvalid (tb_file r)"
    and "bb_buffer (tb_data_block r) \<noteq> []"
  obtains h r1 f where "tb_status r = OK" "writes r h (fst (BlockBuilder_Finish (tb_data_block r))) r1"
    "fvalid f" "view f = file_view r1"
    "r' = r1\<lparr>tb_data_block := BlockBuilder_Reset (tb_data_block r), tb_pending_handle := h, tb_pending_index_entry := True,
       tb_file := f, tb_filter_block := (case opt_filter_policy opt of None \<Rightarrow> tb_filter_block r
         | Some p \<Rightarrow> map_option (StartBlock p (tb_offset r1)) (tb_filter_block r))\<rparr>"
proof -
  have st: "tb_status r = OK" using assms(1,2) by (auto simp: TableBuilder_Flush_def split: if_splits)
  then obtain h r1 where W: "WriteBlock extend lib opt append (tb_data_block r) r = Some (h, r1)"
    using assms(1,4) by (auto simp: TableBuilder_Flush_def Let_def bind_eq_Some_conv)
  have "tb_status r1 = OK"
    using assms(1,2,4) W st by (auto simp: TableBuilder_Flush_def Let_def bind_eq_Some_conv split: if_splits option.splits)
  from WriteBlock_writes [OF W this assms(3)] have wr: "writes r h (fst (BlockBuilder_Finish (tb_data_block r))) r1" .
  then have r1: "fvalid (tb_file r1)" "tb_data_block r1 = tb_data_block r" "tb_filter_block r1 = tb_filter_block r" "tb_status r1 = OK"
    by (auto simp: writes_def)
  obtain s f where F: "flush (tb_file r1) = Some (s, f)" "r' = r1\<lparr>tb_data_block := BlockBuilder_Reset (tb_data_block r),
       tb_pending_handle := h, tb_pending_index_entry := True, tb_file := f, tb_status := s,
       tb_filter_block := (case opt_filter_policy opt of None \<Rightarrow> tb_filter_block r
         | Some p \<Rightarrow> map_option (StartBlock p (tb_offset r1)) (tb_filter_block r))\<rparr>"
    using assms(1,4) W st r1 by (auto simp: TableBuilder_Flush_def Let_def bind_eq_Some_conv split: option.splits)
  have "s = OK" using F(2) assms(2) by simp
  then show ?thesis using that [OF st wr] flush_OK [OF r1(1)] F r1(4) by auto
qed

lemma tinv_Flush:
  assumes inv: "tinv r bs pend cur" and fl: "TableBuilder_Flush extend lib opt append flush r = Some r'"
    and ok: "tb_status r' = OK" and small: "length (file_view r') < 2 ^ 64"
  shows "\<exists>pend'. tinv r' bs pend' [] \<and> pend_entries pend' = pend_entries pend @ cur"
proof (cases "cur = []")
  case True
  then have "bb_buffer (tb_data_block r) = []" using inv by (simp add: tinv_def build_buffer_empty)
  then have "r' = r" using fl by (simp add: TableBuilder_Flush_def split: if_splits)
  then show ?thesis using inv True by auto
next
  case False
  then have pend: "pend = None" and db: "tb_data_block r = build (opt_restart_interval opt) cur"
    using inv by (auto simp: tinv_def split: option.splits)
  have fv: "fvalid (tb_file r)" "bb_buffer (tb_data_block r) \<noteq> []"
    using inv False by (simp_all add: tinv_def build_buffer_empty)
  from Flush_steps [OF fl ok fv] obtain h r1 f where wr: "writes r h (block_of cur) r1" and f: "fvalid f" "view f = file_view r1"
    and r': "r' = r1\<lparr>tb_data_block := BlockBuilder_Reset (build (opt_restart_interval opt) cur), tb_pending_handle := h, tb_pending_index_entry := True,
       tb_file := f, tb_filter_block := (case opt_filter_policy opt of None \<Rightarrow> tb_filter_block r
         | Some p \<Rightarrow> map_option (StartBlock p (tb_offset r1)) (tb_filter_block r))\<rparr>"
    unfolding db by blast
  have v: "file_view r' = file_view r1" "tb_offset r' = tb_offset r1" using r' f by simp_all
  have same1: "tb_index_block r1 = tb_index_block r" "tb_last_key r1 = tb_last_key r" "\<exists>x. file_view r1 = file_view r @ x"
    using wr by (auto simp: writes_def)
  have off: "unat (tb_offset r) = length (file_view r)" using inv by (simp add: tinv_def)
  note st = writes_stored [OF wr off small [unfolded v(1)]]
  have bl: "blocks_of bs (Some (h, cur)) = insert (h, cur) (blocks_of bs None)" by (auto simp: blocks_of_def)
  have "filtered r' (blocks_of bs (Some (h, cur))) []"
  proof (cases "opt_filter_policy opt")
    case (Some p)
    then have p: "p = policy" using opt_policy by simp
    obtain fb where fb: "tb_filter_block r = Some fb" "fb_inv fb (tb_offset r)
        ((\<Union>(h, p) \<in> blocks_of bs None. Pair (bh_offset h) ` fst ` set p) \<union> Pair (tb_offset r) ` fst ` set cur)"
      using inv Some by (auto simp: tinv_def filtered_def pend)
    from fb_inv_StartBlock [OF fb(2) st(3)] fb(1) show ?thesis
      unfolding filtered_def by (simp add: v(2) r' Some p bl st(4) Un_commute)
  qed (simp add: filtered_def)
  moreover have "\<forall>(h, p) \<in> blocks_of bs (Some (h, cur)). stored extend lib (file_view r') h (block_of p)"
    using inv st(1) same1(3) stored_grows unfolding tinv_def bl v(1) pend by blast
  ultimately have "tinv r' bs (Some (h, cur)) []"
    using inv f st(2) same1 False unfolding tinv_def
    by (simp add: v r' pend Reset_build [of _ "opt_restart_interval opt"])
  then show ?thesis using pend by auto
qed

lemma index_of_snoc: "build n (index_of (bs @ [((k, h), p)])) = BlockBuilder_Add n k (BlockHandle_EncodeTo h []) (build n (index_of bs))"
  by (simp add: index_of_def build_def)

lemma tinv_index_entry:
  assumes inv: "tinv r bs (Some (h, p)) []" and ord: "ordered (entries_of bs @ p @ [(k, v)])"
  shows "\<exists>bs'. entries_of bs' = entries_of bs @ p \<and> seps bs' [(k, v)] \<and> blocks_of bs' None = blocks_of bs (Some (h, p))
    \<and> tb_index_block (index_entry (\<lambda>l. FindShortestSeparator c l k) r) = build 1 (index_of bs')"
proof -
  let ?s = "FindShortestSeparator c (fst (last p)) k"
  have p: "p \<noteq> []" "tb_last_key r = fst (last p)" "tb_pending_handle r = h" "tb_pending_index_entry r"
    "tb_index_block r = build 1 (index_of bs)" "seps bs p"
    using inv by (simp_all add: tinv_def)
  have "last p \<in> set p" using p(1) by simp
  then have l: "kvalid (fst (last p))" "kvalid k" "Compare c (fst (last p)) k < 0"
    using ord by (auto simp: sorted_wrt_append)
  then have "seps (bs @ [((?s, h), p)]) [(k, v)]"
    using separator [OF l] separator_length p seps_more [OF p(1,6), of "[(k, v)]"] by (simp add: seps_snoc)
  then show ?thesis
    using p by (intro exI [of _ "bs @ [((?s, h), p)]"]) (auto simp: index_entry_def index_of_snoc blocks_of_def Let_def)
qed

text \<open>The part of \<^verbatim>\<open>Add\<close> before the block may be flushed.\<close>

abbreviation add_fields :: "slice \<Rightarrow> slice \<Rightarrow> 's table_builder \<Rightarrow> 's table_builder" where
  "add_fields k v r \<equiv> r\<lparr>tb_filter_block := map_option (AddKey k) (tb_filter_block r), tb_last_key := k,
     tb_num_entries := tb_num_entries r + 1,
     tb_data_block := BlockBuilder_Add (opt_restart_interval opt) k v (tb_data_block r)\<rparr>"

lemma index_entry_frame:
  "tb_file (index_entry g r) = tb_file r" "tb_offset (index_entry g r) = tb_offset r" "tb_status (index_entry g r) = tb_status r"
  "tb_data_block (index_entry g r) = tb_data_block r" "tb_filter_block (index_entry g r) = tb_filter_block r"
  "\<not> tb_pending_index_entry (index_entry g r)"
  by (simp_all add: index_entry_def Let_def)

lemma tinv_add_fields:
  assumes inv: "tinv r bs pend cur" and ord: "ordered (all_entries bs pend cur @ [(k, v)])"
  shows "\<exists>bs'. tinv (add_fields k v (index_entry (\<lambda>l. FindShortestSeparator c l k) r)) bs' None (cur @ [(k, v)])
    \<and> entries_of bs' @ cur = all_entries bs pend cur"
proof -
  let ?r = "index_entry (\<lambda>l. FindShortestSeparator c l k) r"
  have "\<exists>bs'. entries_of bs' @ cur = all_entries bs pend cur \<and> seps bs' (cur @ [(k, v)])
    \<and> blocks_of bs' None = blocks_of bs pend \<and> tb_index_block ?r = build 1 (index_of bs')"
  proof (cases pend)
    case None
    then have "\<not> tb_pending_index_entry r" "bs \<noteq> [] \<longrightarrow> cur \<noteq> []" "seps bs cur" "tb_index_block r = build 1 (index_of bs)"
      using inv by (simp_all add: tinv_def)
    moreover from this have "seps bs (cur @ [(k, v)])" using seps_more [of cur bs "[(k, v)]"] by (cases "bs = []") simp_all
    ultimately show ?thesis using None by (intro exI [of _ bs]) (simp add: index_entry_def)
  next
    case (Some x)
    obtain h p where x: "pend = Some (h, p)" using Some by (cases x) simp
    moreover from this have cur: "cur = []" using inv by (simp add: tinv_def)
    ultimately show ?thesis using tinv_index_entry [of r bs h p k v] inv ord by simp
  qed
  then obtain bs' where bs': "entries_of bs' @ cur = all_entries bs pend cur" "seps bs' (cur @ [(k, v)])"
    "blocks_of bs' None = blocks_of bs pend" "tb_index_block ?r = build 1 (index_of bs')" by blast
  have "filtered (add_fields k v ?r) (blocks_of bs pend) (cur @ [(k, v)])"
  proof (cases "opt_filter_policy opt")
    case (Some p)
    then obtain fb where fb: "tb_filter_block r = Some fb" "fb_inv fb (tb_offset r)
        ((\<Union>(h, p) \<in> blocks_of bs pend. Pair (bh_offset h) ` fst ` set p) \<union> Pair (tb_offset r) ` fst ` set cur)"
      using inv by (auto simp: tinv_def filtered_def)
    from fb_inv_AddKey [OF fb(2), of k] fb(1) show ?thesis
      unfolding filtered_def by (simp add: index_entry_frame)
  qed (simp add: filtered_def)
  then have "tinv (add_fields k v ?r) bs' None (cur @ [(k, v)])"
    using inv bs'(2,4) unfolding tinv_def bs'(3)
    by (simp add: index_entry_frame build_snoc)
  then show ?thesis using bs'(1) by blast
qed

lemma Flush_view:
  assumes "TableBuilder_Flush extend lib opt append flush r = Some r'" "tb_status r' = OK" "fvalid (tb_file r)"
  shows "tb_status r = OK \<and> fvalid (tb_file r') \<and> (\<exists>x. file_view r' = file_view r @ x)"
proof (cases "bb_buffer (tb_data_block r) = []")
  case True
  then show ?thesis using assms by (auto simp: TableBuilder_Flush_def split: if_splits)
next
  case False
  from Flush_steps [OF assms False] show ?thesis by cases (auto simp: writes_def)
qed

lemma Add_cases:
  assumes "TableBuilder_Add extend lib opt append flush k v r = Some r'" "tb_status r' = OK"
  defines "r1 \<equiv> add_fields k v (index_entry (\<lambda>l. FindShortestSeparator c l k) r)"
  shows "tb_status r = OK \<and> (r' = r1 \<or> TableBuilder_Flush extend lib opt append flush r1 = Some r')"
proof -
  have "tb_status r = OK" using assms(1,2) by (auto simp: TableBuilder_Add_def split: if_splits)
  then show ?thesis using assms(1)
    by (auto simp: TableBuilder_Add_def Let_def opt_comparator r1_def index_entry_frame split: if_splits)
qed

lemma Add_view:
  assumes "TableBuilder_Add extend lib opt append flush k v r = Some r'" "tb_status r' = OK" "fvalid (tb_file r)"
  shows "tb_status r = OK \<and> fvalid (tb_file r') \<and> (\<exists>x. file_view r' = file_view r @ x)"
  using Add_cases [OF assms(1,2)] Flush_view [OF _ assms(2), of "add_fields k v (index_entry (\<lambda>l. FindShortestSeparator c l k) r)"] assms(3)
  by (auto simp: index_entry_frame)

lemma add_entries_ok:
  assumes "add_entries extend lib opt append flush es r = Some r'" "tb_status r' = OK"
  shows "tb_status r = OK"
proof (rule ccontr)
  assume nok: "tb_status r \<noteq> OK"
  have "add_entries extend lib opt append flush xs r = Some r" for xs
    using nok by (induction xs) (auto simp: TableBuilder_Add_def)
  then show False using nok assms by simp
qed

lemma add_entries_view:
  "add_entries extend lib opt append flush es r = Some r' \<Longrightarrow> tb_status r' = OK \<Longrightarrow> fvalid (tb_file r) \<Longrightarrow>
     tb_status r = OK \<and> fvalid (tb_file r') \<and> (\<exists>x. file_view r' = file_view r @ x)"
proof (induction es arbitrary: r)
  case (Cons e es)
  obtain k v where e: "e = (k, v)" by fastforce
  obtain r1 where r1: "TableBuilder_Add extend lib opt append flush k v r = Some r1" "add_entries extend lib opt append flush es r1 = Some r'"
    using Cons.prems(1) by (auto simp: e bind_eq_Some_conv)
  note ok = add_entries_ok [OF r1(2) Cons.prems(2)]
  note A = Add_view [OF r1(1) ok Cons.prems(3)]
  with Cons.IH [OF r1(2) Cons.prems(2)] show ?case by auto
qed simp

lemma tinv_Add:
  assumes inv: "tinv r bs pend cur" and ord: "ordered (all_entries bs pend cur @ [(k, v)])"
    and add: "TableBuilder_Add extend lib opt append flush k v r = Some r'" "tb_status r' = OK" and small: "length (file_view r') < 2 ^ 64"
  shows "\<exists>bs' pend' cur'. tinv r' bs' pend' cur' \<and> all_entries bs' pend' cur' = all_entries bs pend cur @ [(k, v)]"
proof -
  obtain bs' where bs': "tinv (add_fields k v (index_entry (\<lambda>l. FindShortestSeparator c l k) r)) bs' None (cur @ [(k, v)])"
    "entries_of bs' @ cur = all_entries bs pend cur"
    using tinv_add_fields [OF inv ord] by blast
  from Add_cases [OF add] consider
    "r' = add_fields k v (index_entry (\<lambda>l. FindShortestSeparator c l k) r)"
    | "TableBuilder_Flush extend lib opt append flush (add_fields k v (index_entry (\<lambda>l. FindShortestSeparator c l k) r)) = Some r'" by blast
  then show ?thesis
  proof cases
    case 1
    then show ?thesis using bs' by (intro exI [of _ bs'] exI [of _ None] exI [of _ "cur @ [(k, v)]"]) (simp flip: bs'(2))
  next
    case 2
    from tinv_Flush [OF bs'(1) this add(2) small] obtain pend' where "tinv r' bs' pend' []" "pend_entries pend' = cur @ [(k, v)]"
      by auto
    then show ?thesis using bs'(2) by (intro exI [of _ bs'] exI [of _ pend'] exI [of _ "[]"]) (simp flip: bs'(2))
  qed
qed

lemma tinv_add_entries:
  "tinv r bs pend cur \<Longrightarrow> ordered (all_entries bs pend cur @ es) \<Longrightarrow>
     add_entries extend lib opt append flush es r = Some r' \<Longrightarrow> tb_status r' = OK \<Longrightarrow> length (file_view r') < 2 ^ 64 \<Longrightarrow>
     \<exists>bs' pend' cur'. tinv r' bs' pend' cur' \<and> all_entries bs' pend' cur' = all_entries bs pend cur @ es"
proof (induction es arbitrary: r bs pend cur)
  case Nil
  then show ?case by auto
next
  case (Cons e es)
  obtain k v where e: "e = (k, v)" by fastforce
  obtain r1 where r1: "TableBuilder_Add extend lib opt append flush k v r = Some r1" "add_entries extend lib opt append flush es r1 = Some r'"
    using Cons.prems(3) by (auto simp: e bind_eq_Some_conv)
  note ok = add_entries_ok [OF r1(2) Cons.prems(4)]
  have "fvalid (tb_file r)" using Cons.prems(1) by (simp add: tinv_def)
  from Add_view [OF r1(1) ok this] have fv: "fvalid (tb_file r1)" by blast
  note V = add_entries_view [OF r1(2) Cons.prems(4) fv]
  have ord: "ordered ((all_entries bs pend cur @ [(k, v)]) @ es)" using Cons.prems(2) by (simp add: e)
  obtain bs1 pend1 cur1 where t1: "tinv r1 bs1 pend1 cur1" "all_entries bs1 pend1 cur1 = all_entries bs pend cur @ [(k, v)]"
    using tinv_Add [OF Cons.prems(1) ordered_tail(2) [OF ord] r1(1) ok] V Cons.prems(5) by auto
  from Cons.IH [OF t1(1) _ r1(2) Cons.prems(4,5)] ord show ?case unfolding t1(2) by (simp add: e)
qed

subsection \<open>The finished file\<close>

definition filter_covers :: "slice \<Rightarrow> (block_handle \<times> (slice \<times> slice) list) set \<Rightarrow> bool" where
  "filter_covers F blocks \<longleftrightarrow> (\<forall>(h, p) \<in> blocks. \<forall>e \<in> set p. \<forall>key. same (fst e) key \<longrightarrow>
     FilterBlock_KeyMayMatch policy (new_FilterBlockReader F) (bh_offset h) key)"

definition table_file :: "slice \<Rightarrow> indexed_block list \<Rightarrow> bool" where
  "table_file content bs \<longleftrightarrow> (\<exists>pre mh ih.
     content = pre @ Footer_EncodeTo \<lparr>ft_metaindex_handle = mh, ft_index_handle = ih\<rparr> []
     \<and> stored extend lib content ih (fst (BlockBuilder_Finish (build 1 (index_of bs))))
     \<and> (\<forall>(h, p) \<in> blocks_of bs None. stored extend lib content h (block_of p)) \<and> seps bs []
     \<and> (opt_filter_policy opt \<noteq> None \<longrightarrow> (\<exists>fh F. stored extend lib content fh F \<and> filter_covers F (blocks_of bs None)
          \<and> stored extend lib content mh (block_of [(filter_key policy, BlockHandle_EncodeTo fh [])]))))"

lemma last_index_entry:
  assumes inv: "tinv r bs pend []" and ord: "ordered (all_entries bs pend [])"
    and eq: "tb_pending_index_entry r3 = tb_pending_index_entry r" "tb_pending_handle r3 = tb_pending_handle r"
    "tb_last_key r3 = tb_last_key r" "tb_index_block r3 = tb_index_block r"
  shows "\<exists>bs'. entries_of bs' = all_entries bs pend [] \<and> seps bs' [] \<and> blocks_of bs' None = blocks_of bs pend
    \<and> tb_index_block (index_entry (FindShortSuccessor c) r3) = build 1 (index_of bs')"
proof (cases pend)
  case None
  then show ?thesis using inv eq by (intro exI [of _ bs]) (simp add: tinv_def index_entry_def)
next
  case (Some x)
  obtain h p where x: "pend = Some (h, p)" using Some by (cases x) simp
  let ?s = "FindShortSuccessor c (fst (last p))"
  have p: "p \<noteq> []" "tb_last_key r = fst (last p)" "tb_pending_handle r = h" "tb_pending_index_entry r"
    "tb_index_block r = build 1 (index_of bs)" "seps bs p"
    using inv by (simp_all add: tinv_def x)
  have "kvalid (fst (last p))" using ord p(1) by (simp add: x)
  then have "seps (bs @ [((?s, h), p)]) []"
    using successor successor_length p by (simp add: seps_snoc)
  then show ?thesis
    using p eq by (intro exI [of _ "bs @ [((?s, h), p)]"]) (auto simp: x index_entry_def index_of_snoc blocks_of_def Let_def)
qed

lemma Finish_steps:
  assumes "TableBuilder_Finish extend lib opt append flush r = Some (OK, r')"
  obtains r1 fh r2 mh r3 ih r4 where
    "TableBuilder_Flush extend lib opt append flush r = Some r1" "tb_status r1 = OK"
    "Finish_filter extend opt append (r1\<lparr>tb_closed := True\<rparr>) = Some (fh, r2)" "tb_status r2 = OK"
    "Finish_metaindex extend lib opt append fh r2 = Some (mh, r3)" "tb_status r3 = OK"
    "Finish_index extend lib opt append r3 = Some (ih, r4)" "tb_status r4 = OK"
    "Finish_footer append mh ih r4 = Some r'" "tb_status r' = OK"
proof -
  obtain r1 fh r2 mh r3 ih r4 where r:
    "TableBuilder_Flush extend lib opt append flush r = Some r1"
    "Finish_filter extend opt append (r1\<lparr>tb_closed := True\<rparr>) = Some (fh, r2)"
    "Finish_metaindex extend lib opt append fh r2 = Some (mh, r3)"
    "Finish_index extend lib opt append r3 = Some (ih, r4)"
    "Finish_footer append mh ih r4 = Some r'" "tb_status r' = OK"
    using assms by (auto simp: TableBuilder_Finish_def bind_eq_Some_conv)
  have 4: "tb_status r4 = OK" using r(5,6) by (auto simp: Finish_footer_def split: if_splits)
  have 3: "tb_status r3 = OK" using r(4) 4 by (auto simp: Finish_index_def split: if_splits)
  have 2: "tb_status r2 = OK" using r(3) 3 by (auto simp: Finish_metaindex_def split: if_splits)
  have "tb_status r1 = OK" using r(2) 2 by (auto simp: Finish_filter_def split: if_splits option.splits)
  from that [OF r(1) this r(2) 2 r(3) 3 r(4) 4 r(5,6)] show ?thesis .
qed

lemma Finish_filter_writes:
  assumes "Finish_filter extend opt append r = Some (fh, r')" "tb_status r' = OK" "tb_status r = OK" "fvalid (tb_file r)"
    and "tb_filter_block r = Some fb" "opt_filter_policy opt \<noteq> None"
  shows "writes (r\<lparr>tb_filter_block := Some (snd (FilterBlock_Finish policy fb))\<rparr>) fh (fst (FilterBlock_Finish policy fb)) r'"
    "length (fst (FilterBlock_Finish policy fb)) \<le> length (file_view r')"
  using assms opt_policy WriteRawBlock_writes [of "fst (FilterBlock_Finish policy fb)" kNoCompression
      "r\<lparr>tb_filter_block := Some (snd (FilterBlock_Finish policy fb))\<rparr>" fh r']
  by (auto simp: Finish_filter_def unpacks_def stored_as_parts(1) case_prod_beta)

lemma Finish_filter_view:
  assumes "Finish_filter extend opt append r = Some (fh, r')" "tb_status r' = OK" "tb_status r = OK" "fvalid (tb_file r)"
  shows "fvalid (tb_file r') \<and> (\<exists>x. file_view r' = file_view r @ x)"
proof (cases "opt_filter_policy opt = None \<or> tb_filter_block r = None")
  case True
  then show ?thesis using assms by (auto simp: Finish_filter_def split: option.splits)
next
  case False
  then obtain fb where "tb_filter_block r = Some fb" by auto
  from Finish_filter_writes(1) [OF assms this] False show ?thesis by (auto simp: writes_def)
qed

lemma Finish_index_writes:
  assumes "Finish_index extend lib opt append r = Some (ih, r')" "tb_status r' = OK" "tb_status r = OK" "fvalid (tb_file r)"
  obtains r1 where "writes (index_entry (FindShortSuccessor c) r) ih
      (fst (BlockBuilder_Finish (tb_index_block (index_entry (FindShortSuccessor c) r)))) r1"
    "tb_file r' = tb_file r1" "tb_offset r' = tb_offset r1"
proof -
  let ?r = "index_entry (FindShortSuccessor c) r"
  obtain r1 where W: "WriteBlock extend lib opt append (tb_index_block ?r) ?r = Some (ih, r1)"
    and r': "r' = r1\<lparr>tb_index_block := BlockBuilder_Reset (tb_index_block r1)\<rparr>"
    using assms(1,3) by (auto simp: Finish_index_def Let_def opt_comparator bind_eq_Some_conv)
  have "tb_status r1 = OK" using assms(2) r' by simp
  from WriteBlock_writes [OF W this] assms(4) r' that show ?thesis by (simp add: index_entry_frame)
qed

lemma Finish_footer_view:
  assumes "Finish_footer append mh ih r = Some r'" "tb_status r' = OK" "tb_status r = OK" "fvalid (tb_file r)"
  shows "fvalid (tb_file r') \<and> (\<exists>x. file_view r' = file_view r @ x)"
  using assms append_OK [OF assms(4)] by (auto simp: Finish_footer_def Let_def bind_eq_Some_conv)

lemma Finish_footer_writes:
  assumes "Finish_footer append mh ih r = Some r'" "tb_status r' = OK" "tb_status r = OK" "fvalid (tb_file r)"
    and "unat (tb_offset r) = length (file_view r)" "length (file_view r') < 2 ^ 64"
  shows "fvalid (tb_file r')" "unat (tb_offset r') = length (file_view r')"
    "file_view r' = file_view r @ Footer_EncodeTo \<lparr>ft_metaindex_handle = mh, ft_index_handle = ih\<rparr> []"
proof -
  let ?e = "Footer_EncodeTo \<lparr>ft_metaindex_handle = mh, ft_index_handle = ih\<rparr> []"
  obtain s f where f: "append (tb_file r) ?e = Some (s, f)" "r' = r\<lparr>tb_file := f, tb_status := s,
      tb_offset := (if s = OK then tb_offset r + of_nat (length ?e) else tb_offset r)\<rparr>"
    using assms(1,3) by (auto simp: Finish_footer_def Let_def bind_eq_Some_conv)
  have "s = OK" using f(2) assms(2) by simp
  then have v: "fvalid f" "view f = file_view r @ ?e" using append_OK [OF assms(4)] f(1) by simp_all
  then show "fvalid (tb_file r')" "file_view r' = file_view r @ ?e" using f(2) by simp_all
  then have "length (file_view r) + 48 < 2 ^ 64"
    using assms(6) by (simp add: footer_roundtrip(1) kEncodedLength_def kMaxEncodedLength_def)
  then show "unat (tb_offset r') = length (file_view r')"
    using f(2) v(2) \<open>s = OK\<close> assms(5)
    by (simp add: footer_roundtrip(1) kEncodedLength_def kMaxEncodedLength_def unat_word_ariths)
qed

lemma Finish_metaindex_writes:
  assumes "Finish_metaindex extend lib opt append fh r = Some (mh, r')" "tb_status r' = OK" "tb_status r = OK" "fvalid (tb_file r)"
  shows "\<exists>raw. writes r mh raw r' \<and> (opt_filter_policy opt \<noteq> None \<longrightarrow> tb_filter_block r \<noteq> None \<longrightarrow>
    raw = block_of [(filter_key policy, BlockHandle_EncodeTo fh [])])"
proof -
  let ?b = "case (opt_filter_policy opt, tb_filter_block r) of
      (Some p, Some fb) \<Rightarrow> BlockBuilder_Add (opt_restart_interval opt) (filter_key p) (BlockHandle_EncodeTo fh []) new_BlockBuilder
    | _ \<Rightarrow> new_BlockBuilder"
  have "writes r mh (fst (BlockBuilder_Finish ?b)) r'"
    using assms WriteBlock_writes [of ?b r mh r'] by (simp add: Finish_metaindex_def)
  moreover have "?b = build (opt_restart_interval opt) [(filter_key policy, BlockHandle_EncodeTo fh [])]"
    if "opt_filter_policy opt \<noteq> None" "tb_filter_block r \<noteq> None"
    using that opt_policy by (auto simp: build_def)
  ultimately show ?thesis by auto
qed

lemma writes_frame:
  assumes "writes r h raw r'"
  shows "fvalid (tb_file r')" "\<exists>x. file_view r' = file_view r @ x" "tb_filter_block r' = tb_filter_block r"
    "tb_pending_index_entry r' = tb_pending_index_entry r" "tb_pending_handle r' = tb_pending_handle r"
    "tb_last_key r' = tb_last_key r" "tb_index_block r' = tb_index_block r"
  using assms by (auto simp: writes_def)

text \<open>The filter block, if there is one; the fields the index needs stay as they are.\<close>

lemma filter_stage:
  assumes inv: "tinv r bs pend []" and ff: "Finish_filter extend opt append (r\<lparr>tb_closed := True\<rparr>) = Some (fh, r')"
    and ok: "tb_status r' = OK" "tb_status r = OK" and small: "length (file_view r') < 2 ^ 32"
  shows "fvalid (tb_file r') \<and> (\<exists>x. file_view r' = file_view r @ x) \<and> unat (tb_offset r') = length (file_view r')
    \<and> (tb_filter_block r' = None \<longleftrightarrow> tb_filter_block r = None) \<and> tb_pending_index_entry r' = tb_pending_index_entry r
    \<and> tb_pending_handle r' = tb_pending_handle r \<and> tb_last_key r' = tb_last_key r \<and> tb_index_block r' = tb_index_block r
    \<and> (opt_filter_policy opt \<noteq> None \<longrightarrow> tb_filter_block r \<noteq> None \<and>
         (\<exists>F. stored extend lib (file_view r') fh F \<and> filter_covers F (blocks_of bs pend)))"
proof (cases "opt_filter_policy opt")
  case None
  then show ?thesis using ff inv by (auto simp: Finish_filter_def tinv_def)
next
  case (Some p)
  obtain fb where fb: "tb_filter_block r = Some fb"
    "fb_inv fb (tb_offset r) (\<Union>(h, p) \<in> blocks_of bs pend. Pair (bh_offset h) ` fst ` set p)"
    using inv Some by (auto simp: tinv_def filtered_def)
  let ?F = "fst (FilterBlock_Finish policy fb)"
  let ?r = "r\<lparr>tb_closed := True, tb_filter_block := Some (snd (FilterBlock_Finish policy fb))\<rparr>"
  have wr: "writes ?r fh ?F r'" and lF: "length ?F \<le> length (file_view r')"
    using Finish_filter_writes [OF ff ok(1)] ok(2) fb(1) Some inv by (simp_all add: tinv_def)
  have o: "unat (tb_offset ?r) = length (file_view ?r)"
    using inv by (simp add: tinv_def)
  have "length (file_view r') < 2 ^ 64" using small by simp
  note st = writes_stored [OF wr o this]
  have sF: "length ?F < 2 ^ 32" using lF small by linarith
  have "FilterBlock_KeyMayMatch policy (new_FilterBlockReader ?F) (bh_offset h) key"
    if "(h, p) \<in> blocks_of bs pend" "e \<in> set p" "same (fst e) key" for h p e key
  proof -
    have "(bh_offset h, fst e) \<in> (\<Union>(h, p) \<in> blocks_of bs pend. Pair (bh_offset h) ` fst ` set p)"
      using that(1,2) by force
    from fb_inv_Finish [OF fb(2) this that(3) sF] show ?thesis .
  qed
  then have "filter_covers ?F (blocks_of bs pend)" unfolding filter_covers_def by blast
  then show ?thesis using writes_frame [OF wr] st fb(1) by auto
qed

lemma Finish_ok: "TableBuilder_Finish extend lib opt append flush r = Some (OK, r') \<Longrightarrow> tb_status r = OK"
  by (rule ccontr) (auto simp: TableBuilder_Finish_def TableBuilder_Flush_def Finish_filter_def Finish_metaindex_def
      Finish_index_def Finish_footer_def split: option.splits)

text \<open>The writes of \<^verbatim>\<open>Finish\<close>, each of which extends the file.\<close>

lemma Finish_writes:
  assumes fin: "TableBuilder_Finish extend lib opt append flush r = Some (OK, r')" and fv: "fvalid (tb_file r)"
  obtains r1 fh r2 mh raw r3 ih r4 r4' where
    "tb_status r = OK" "TableBuilder_Flush extend lib opt append flush r = Some r1" "tb_status r1 = OK"
    "Finish_filter extend opt append (r1\<lparr>tb_closed := True\<rparr>) = Some (fh, r2)" "tb_status r2 = OK"
    "writes r2 mh raw r3" "opt_filter_policy opt \<noteq> None \<longrightarrow> tb_filter_block r2 \<noteq> None \<longrightarrow>
      raw = block_of [(filter_key policy, BlockHandle_EncodeTo fh [])]"
    "writes (index_entry (FindShortSuccessor c) r3) ih
      (fst (BlockBuilder_Finish (tb_index_block (index_entry (FindShortSuccessor c) r3)))) r4'"
    "tb_file r4 = tb_file r4'" "tb_offset r4 = tb_offset r4'" "tb_status r4 = OK" "fvalid (tb_file r4)"
    "Finish_footer append mh ih r4 = Some r'" "tb_status r' = OK"
    "\<exists>x0 x1 x2 x3 x4. file_view r1 = file_view r @ x0 \<and> file_view r2 = file_view r1 @ x1 \<and> file_view r3 = file_view r2 @ x2
      \<and> file_view r4 = file_view r3 @ x3 \<and> file_view r' = file_view r4 @ x4"
proof -
  obtain r1 fh r2 mh r3 ih r4 where r1: "TableBuilder_Flush extend lib opt append flush r = Some r1" "tb_status r1 = OK"
    and r2: "Finish_filter extend opt append (r1\<lparr>tb_closed := True\<rparr>) = Some (fh, r2)" "tb_status r2 = OK"
    and r3: "Finish_metaindex extend lib opt append fh r2 = Some (mh, r3)" "tb_status r3 = OK"
    and r4: "Finish_index extend lib opt append r3 = Some (ih, r4)" "tb_status r4 = OK"
    and r5: "Finish_footer append mh ih r4 = Some r'" "tb_status r' = OK" by (rule Finish_steps [OF fin])
  note v1 = Flush_view [OF r1 fv]
  have v2: "fvalid (tb_file r2) \<and> (\<exists>x. file_view r2 = file_view r1 @ x)"
    using Finish_filter_view [OF r2] r1(2) v1 by simp
  obtain raw where w3: "writes r2 mh raw r3"
    and meta: "opt_filter_policy opt \<noteq> None \<longrightarrow> tb_filter_block r2 \<noteq> None \<longrightarrow>
      raw = block_of [(filter_key policy, BlockHandle_EncodeTo fh [])]"
    using Finish_metaindex_writes [OF r3 r2(2)] v2 by blast
  obtain r4' where w4: "writes (index_entry (FindShortSuccessor c) r3) ih
      (fst (BlockBuilder_Finish (tb_index_block (index_entry (FindShortSuccessor c) r3)))) r4'"
    and r4': "tb_file r4 = tb_file r4'" "tb_offset r4 = tb_offset r4'"
    using Finish_index_writes [OF r4 r3(2) writes_frame(1) [OF w3]] by blast
  have fv4: "fvalid (tb_file r4)" using writes_frame(1) [OF w4] r4' by simp
  have "\<exists>x0 x1 x2 x3 x4. file_view r1 = file_view r @ x0 \<and> file_view r2 = file_view r1 @ x1 \<and> file_view r3 = file_view r2 @ x2
      \<and> file_view r4 = file_view r3 @ x3 \<and> file_view r' = file_view r4 @ x4"
    using v1 v2 writes_frame(2) [OF w3] writes_frame(2) [OF w4] Finish_footer_view [OF r5 r4(2) fv4] r4'(1)
    by (auto simp: index_entry_frame)
  then show ?thesis using that v1 r1 r2 w3 meta w4 r4' r4(2) fv4 r5 by blast
qed

lemma tinv_Finish:
  assumes inv: "tinv r bs pend cur" and ord: "ordered (all_entries bs pend cur)"
    and fin: "TableBuilder_Finish extend lib opt append flush r = Some (OK, r')" and small: "length (file_view r') < 2 ^ 32"
  shows "fvalid (tb_file r') \<and> unat (tb_offset r') = length (file_view r')
    \<and> (\<exists>bs'. table_file (file_view r') bs' \<and> entries_of bs' = all_entries bs pend cur)"
proof -
  have fv: "fvalid (tb_file r)" using inv by (simp add: tinv_def)
  obtain r1 fh r2 mh raw r3 ih r4 r4' where r1: "TableBuilder_Flush extend lib opt append flush r = Some r1" "tb_status r1 = OK"
    and r2: "Finish_filter extend opt append (r1\<lparr>tb_closed := True\<rparr>) = Some (fh, r2)" "tb_status r2 = OK"
    and w3: "writes r2 mh raw r3" and meta: "opt_filter_policy opt \<noteq> None \<longrightarrow> tb_filter_block r2 \<noteq> None \<longrightarrow>
      raw = block_of [(filter_key policy, BlockHandle_EncodeTo fh [])]"
    and w4: "writes (index_entry (FindShortSuccessor c) r3) ih
      (fst (BlockBuilder_Finish (tb_index_block (index_entry (FindShortSuccessor c) r3)))) r4'"
    and r4': "tb_file r4 = tb_file r4'" "tb_offset r4 = tb_offset r4'" and r4: "tb_status r4 = OK" and fv4: "fvalid (tb_file r4)"
    and r5: "Finish_footer append mh ih r4 = Some r'" "tb_status r' = OK"
    and vs: "\<exists>x0 x1 x2 x3 x4. file_view r1 = file_view r @ x0 \<and> file_view r2 = file_view r1 @ x1 \<and> file_view r3 = file_view r2 @ x2
      \<and> file_view r4 = file_view r3 @ x3 \<and> file_view r' = file_view r4 @ x4"
    by (rule Finish_writes [OF fin fv])
  obtain x1 x2 x3 x4 where x: "file_view r2 = file_view r1 @ x1" "file_view r3 = file_view r2 @ x2"
    "file_view r4 = file_view r3 @ x3" "file_view r' = file_view r4 @ x4" using vs by blast
  have b: "length (file_view r1) < 2 ^ 64" "length (file_view r2) < 2 ^ 32" "length (file_view r3) < 2 ^ 64"
    "length (file_view r4) < 2 ^ 64" "length (file_view r') < 2 ^ 64"
    using small by (simp_all add: x)
  obtain pend1 where t1: "tinv r1 bs pend1 []" "pend_entries pend1 = pend_entries pend @ cur"
    using tinv_Flush [OF inv r1 b(1)] by blast
  note F = filter_stage [OF t1(1) r2 r1(2) b(2)]
  note s3 = writes_stored [OF w3 _ b(3)]
  have o3: "unat (tb_offset r3) = length (file_view r3)" using s3(2) F by blast
  have s4: "stored extend lib (file_view r4) ih (fst (BlockBuilder_Finish (tb_index_block (index_entry (FindShortSuccessor c) r3))))"
    "unat (tb_offset r4) = length (file_view r4)"
    using writes_stored(1,2) [OF w4] o3 b(4) r4' by (simp_all add: index_entry_frame)
  note ft = Finish_footer_writes [OF r5 r4 fv4 s4(2) b(5)]
  have ord1: "ordered (all_entries bs pend1 [])" using ord t1(2) by simp
  obtain bs' where bs': "entries_of bs' = all_entries bs pend1 []" "seps bs' []" "blocks_of bs' None = blocks_of bs pend1"
    "tb_index_block (index_entry (FindShortSuccessor c) r3) = build 1 (index_of bs')"
    using last_index_entry [OF t1(1) ord1, of r3] F writes_frame [OF w3] by auto
  have grow: "stored extend lib (file_view r') h raw'" if "stored extend lib v h raw'" "\<exists>y. file_view r' = v @ y" for v h raw'
    using stored_grows that by blast
  have "\<forall>(h, p) \<in> blocks_of bs' None. stored extend lib (file_view r') h (block_of p)"
    using t1(1) grow [of "file_view r1"] by (fastforce simp: bs'(3) tinv_def x)
  moreover have "opt_filter_policy opt \<noteq> None \<longrightarrow> (\<exists>fh F. stored extend lib (file_view r') fh F \<and> filter_covers F (blocks_of bs' None)
      \<and> stored extend lib (file_view r') mh (block_of [(filter_key policy, BlockHandle_EncodeTo fh [])]))"
    using F meta s3(1) grow [of "file_view r2"] grow [of "file_view r3"] unfolding bs'(3) by (fastforce simp: x)
  moreover have "stored extend lib (file_view r') ih (fst (BlockBuilder_Finish (build 1 (index_of bs'))))"
    using s4(1) grow [of "file_view r4"] x(4) unfolding bs'(4) by blast
  ultimately have "table_file (file_view r') bs'"
    unfolding table_file_def using ft(3) bs'(2) by blast
  then show ?thesis using ft(1,2) bs'(1) t1(2) by auto
qed

subsection \<open>Reading\<close>

lemma entry_bytes_append: "entry_bytes (xs @ ys) = entry_bytes xs + entry_bytes ys"
  by (simp add: entry_bytes_def)

lemma block_bytes_le: "block_bytes p \<le> entry_bytes p"
  unfolding entry_bytes_def by (rule sum_list_mono) auto

lemma entry_bytes_last: "p \<noteq> [] \<Longrightarrow> length (fst (last p)) + 39 \<le> entry_bytes p"
  by (cases p rule: rev_cases) (auto simp: entry_bytes_def)

lemma index_bytes: "seps bs ys \<Longrightarrow> block_bytes (index_of bs) \<le> entry_bytes (entries_of bs)"
proof (induction bs)
  case (Cons x bs)
  obtain s h p where x: "x = ((s, h), p)" by (metis surj_pair)
  show ?case using Cons handle_length [of h] entry_bytes_last [of p]
    by (auto simp: x index_of_def entry_bytes_append)
qed (simp add: index_of_def entry_bytes_def)

lemma part_bytes: "x \<in> set bs \<Longrightarrow> entry_bytes (snd x) \<le> entry_bytes (entries_of bs)"
  by (induction bs) (auto simp: entry_bytes_append)

lemma first_ge_mem: "first_ge c k es = Some e \<Longrightarrow> e \<in> set es"
  by (induction es) (auto split: if_splits)

lemma ReadMeta_filter:
  assumes tf: "stored extend lib content fh F" "stored extend lib content mh (block_of [(filter_key policy, BlockHandle_EncodeTo fh [])])"
    and rd: "reads_file read bytes" "length content < 2 ^ 64" "bytes f = content" and pol: "opt_filter_policy opt = Some policy"
  shows "\<exists>f'. ReadMeta extend lib read opt \<lparr>ft_metaindex_handle = mh, ft_index_handle = ih\<rparr> f = Some (Some (new_FilterBlockReader F), f')
    \<and> bytes f' = content"
proof -
  let ?es = "[(filter_key policy, BlockHandle_EncodeTo fh [])]"
  obtain f1 where f1: "ReadBlock extend lib read (opt_paranoid_checks opt) mh f = Some (Inr (block_of ?es), f1)" "bytes f1 = content"
    using ReadBlock_stored [OF rd(1), of extend lib f] tf(2) rd(2,3) by metis
  have "length (filter_key policy) < 2 ^ 31 + 7" using policy_name by (simp add: filter_key_def char_bytes_def)
  then have "CurrentSizeEstimate (build (opt_restart_interval opt) ?es) < 2 ^ 32"
    using build_size [of "opt_restart_interval opt" ?es] handle_length [of fh] by simp
  from bytewise.block_seek [OF opt_interval _ _ this, of "filter_key policy"] obtain iter where
    it: "Block_Seek BytewiseComparator (filter_key policy) (NewIterator (block_of ?es)) = Some iter"
    "iterator_entry iter = first_ge BytewiseComparator (filter_key policy) ?es" by auto
  have e: "iterator_entry iter = Some (filter_key policy, BlockHandle_EncodeTo fh [])"
    using it(2) bytewise.compare_refl by simp
  obtain f2 where "ReadBlock extend lib read (opt_paranoid_checks opt) fh f1 = Some (Inr F, f2)" "bytes f2 = content"
    using ReadBlock_stored [OF rd(1), of extend lib f1] tf(1) rd(2) f1(2) by metis
  then show ?thesis using f1 it(1) e pol handle_roundtrip [of fh "[]"]
    by (simp add: ReadMeta_def ReadFilter_def)
qed

lemma Table_Open_file:
  assumes tf: "table_file content bs" and rd: "reads_file read bytes" "length content < 2 ^ 64" "bytes f = content"
  shows "\<exists>t f'. Table_Open extend lib read opt (length content) f = Some (Inr t, f') \<and> bytes f' = content \<and> tbl_options t = opt
    \<and> tbl_index_block t = fst (BlockBuilder_Finish (build 1 (index_of bs)))
    \<and> (opt_filter_policy opt \<noteq> None \<longrightarrow> (\<exists>F. tbl_filter t = Some (new_FilterBlockReader F) \<and> filter_covers F (blocks_of bs None)))"
proof -
  obtain pre mh ih where c: "content = pre @ Footer_EncodeTo \<lparr>ft_metaindex_handle = mh, ft_index_handle = ih\<rparr> []"
    and ix: "stored extend lib content ih (fst (BlockBuilder_Finish (build 1 (index_of bs))))"
    and fl: "opt_filter_policy opt \<noteq> None \<longrightarrow> (\<exists>fh F. stored extend lib content fh F \<and> filter_covers F (blocks_of bs None)
          \<and> stored extend lib content mh (block_of [(filter_key policy, BlockHandle_EncodeTo fh [])]))"
    using tf unfolding table_file_def by blast
  let ?ft = "\<lparr>ft_metaindex_handle = mh, ft_index_handle = ih\<rparr>"
  have len: "length content = length pre + kEncodedLength" by (simp add: c footer_roundtrip(1))
  then have "unat (of_nat (length pre) :: uint64) = length pre" using rd(2) by (simp add: unat_of_nat take_bit_nat_eq_self)
  then obtain f1 where f1: "read (of_nat (length pre)) kEncodedLength f = Some (OK, Footer_EncodeTo ?ft [], f1)" "bytes f1 = content"
    using rd(1) [unfolded reads_file_def, rule_format, of "of_nat (length pre)" kEncodedLength f]
    by (auto simp: rd(3) len) (metis c append_eq_conv_conj)
  obtain rest where dec: "Footer_DecodeFrom (Footer_EncodeTo ?ft []) = Inr (?ft, rest)" using footer_roundtrip(2) by blast
  obtain f2 where f2: "ReadBlock extend lib read (opt_paranoid_checks opt) ih f1 = Some (Inr (fst (BlockBuilder_Finish (build 1 (index_of bs)))), f2)" "bytes f2 = content"
    using ReadBlock_stored [OF rd(1), of extend lib f1] ix rd(2) f1(2) by metis
  obtain flt f3 where f3: "ReadMeta extend lib read opt ?ft f2 = Some (flt, f3)" "bytes f3 = content"
    "opt_filter_policy opt \<noteq> None \<longrightarrow> (\<exists>F. flt = Some (new_FilterBlockReader F) \<and> filter_covers F (blocks_of bs None))"
  proof (cases "opt_filter_policy opt")
    case None
    then show ?thesis using that f2(2) by (simp add: ReadMeta_def)
  next
    case (Some p)
    then have "opt_filter_policy opt = Some policy" using opt_policy by simp
    with fl ReadMeta_filter [OF _ _ rd(1,2) f2(2)] that show ?thesis by blast
  qed
  have "Table_Open extend lib read opt (length content) f = Some (Inr \<lparr>tbl_options = opt, tbl_metaindex_handle = mh,
      tbl_index_block = fst (BlockBuilder_Finish (build 1 (index_of bs))), tbl_filter = flt\<rparr>, f3)"
    using f1 f2 f3(1) dec by (simp add: Table_Open_def len footer_roundtrip(1))
  then show ?thesis using f3(2,3) by simp
qed

lemma BlockReader_stored:
  assumes "reads_file read bytes" "stored extend lib (bytes f) h (block_of p)" "length (bytes f) < 2 ^ 64"
    and "ordered p" "entry_bytes p + 8 < 2 ^ 32" "kvalid k"
  shows "\<exists>iter iter' f'. BlockReader extend lib read verify (BlockHandle_EncodeTo h []) f = Some (iter, f')
    \<and> Block_Seek c k iter = Some iter' \<and> iterator_status iter' = OK \<and> iterator_entry iter' = first_ge c k p"
proof -
  obtain f' where "ReadBlock extend lib read verify h f = Some (Inr (block_of p), f')"
    using ReadBlock_stored [OF assms(1-3)] by blast
  moreover have "CurrentSizeEstimate (build (opt_restart_interval opt) p) < 2 ^ 32"
    using build_size [of "opt_restart_interval opt" p] block_bytes_le [of p] assms(5) by linarith
  ultimately show ?thesis
    using block_seek [OF opt_interval _ _ _ assms(6), of p] assms(4) handle_roundtrip [of h "[]"]
    by (auto simp: BlockReader_def)
qed

lemma index_seek:
  assumes "seps bs []" "ordered (entries_of bs)" "entry_bytes (entries_of bs) + 8 < 2 ^ 32" "kvalid k"
  shows "\<exists>iter. Block_Seek c k (NewIterator (fst (BlockBuilder_Finish (build 1 (index_of bs))))) = Some iter
    \<and> iterator_status iter = OK \<and> iterator_entry iter = map_option (\<lambda>x. (fst (fst x), BlockHandle_EncodeTo (snd (fst x)) []))
        (List.find (\<lambda>x. \<not> Compare c (fst (fst x)) k < 0) bs)"
proof -
  have "sorted_wrt (\<lambda>d e. Compare c (fst d) (fst e) < 0) (index_of bs)" "\<forall>e \<in> set (index_of bs). kvalid (fst e)"
    using index_ordered [OF assms(1,2)] by (auto simp: index_of_def sorted_wrt_map)
  moreover have "CurrentSizeEstimate (build 1 (index_of bs)) < 2 ^ 32"
    using build_size [of 1 "index_of bs"] index_bytes [OF assms(1)] assms(3) by linarith
  ultimately show ?thesis
    using block_seek [of 1 "index_of bs" k] assms(4) by (auto simp: index_of_def first_ge_map)
qed

lemma InternalGet_file:
  assumes tf: "table_file content bs" and rd: "reads_file read bytes" "length content < 2 ^ 64" "bytes f = content"
    and ord: "ordered (entries_of bs)" "entry_bytes (entries_of bs) + 8 < 2 ^ 32" and k: "kvalid k"
    and t: "tbl_options t = opt" "tbl_index_block t = fst (BlockBuilder_Finish (build 1 (index_of bs)))"
    "opt_filter_policy opt \<noteq> None \<longrightarrow> (\<exists>F. tbl_filter t = Some (new_FilterBlockReader F) \<and> filter_covers F (blocks_of bs None))"
  shows "\<exists>res f'. InternalGet extend lib read verify t k f = Some (OK, res, f')
    \<and> (\<forall>e. res = Some e \<longrightarrow> first_ge c k (entries_of bs) = Some e)
    \<and> (\<forall>e. first_ge c k (entries_of bs) = Some e \<and> same (fst e) k \<longrightarrow> res = Some e)"
proof -
  have sp: "seps bs []" and st: "\<forall>(h, p) \<in> blocks_of bs None. stored extend lib content h (block_of p)"
    using tf by (auto simp: table_file_def)
  obtain iiter where ii: "Block_Seek c k (NewIterator (tbl_index_block t)) = Some iiter" "iterator_status iiter = OK"
    "iterator_entry iiter = map_option (\<lambda>x. (fst (fst x), BlockHandle_EncodeTo (snd (fst x)) []))
        (List.find (\<lambda>x. \<not> Compare c (fst (fst x)) k < 0) bs)"
    using index_seek [OF sp ord k] t(2) by auto
  note search = index_search [OF sp ord(1) k]
  show ?thesis
  proof (cases "List.find (\<lambda>x. \<not> Compare c (fst (fst x)) k < 0) bs")
    case None
    then show ?thesis using search ii t(1) by (simp add: InternalGet_def opt_comparator)
  next
    case (Some x)
    obtain s h p where x: "x = ((s, h), p)" by (metis surj_pair)
    have fx: "x \<in> set bs" "finds k (first_ge c k (entries_of bs)) x" using search Some by simp_all
    have hp: "(h, p) \<in> blocks_of bs None" using fx(1) by (force simp: x blocks_of_def)
    let ?skip = "case (opt_filter_policy opt, tbl_filter t, BlockHandle_DecodeFrom (BlockHandle_EncodeTo h [])) of
        (Some p, Some flt, Inr (handle, _)) \<Rightarrow> \<not> FilterBlock_KeyMayMatch p flt (bh_offset handle) k | _ \<Rightarrow> False"
    have ie: "iterator_entry iiter = Some (s, BlockHandle_EncodeTo h [])" using ii(3) Some by (simp add: x)
    show ?thesis
    proof (cases ?skip)
      case True
      then obtain F where "filter_covers F (blocks_of bs None)" "\<not> FilterBlock_KeyMayMatch policy (new_FilterBlockReader F) (bh_offset h) k"
        using t(3) opt_policy handle_roundtrip [of h "[]"] by (auto split: option.splits)
      then have none: "\<not> same (fst e) k" if "e \<in> set p" for e using hp that by (auto simp: filter_covers_def)
      have "\<not> same (fst e) k" if "first_ge c k (entries_of bs) = Some e" for e
        using fx(2) that first_ge_mem [of k p e] none [of e] unfolding finds_def x snd_conv by blast
      moreover have "InternalGet extend lib read verify t k f = Some (OK, None, f)"
        using ii(1,2) ie True t(1) by (simp add: InternalGet_def opt_comparator)
      ultimately show ?thesis by blast
    next
      case False
      have op: "ordered p" using ord(1) fx(1) by (auto simp: x sorted_wrt_append dest!: split_list)
      have "entry_bytes p + 8 < 2 ^ 32" using part_bytes [OF fx(1)] ord(2) by (simp add: x)
      have "stored extend lib (bytes f) h (block_of p)" "length (bytes f) < 2 ^ 64" using st hp rd(2,3) by auto
      from BlockReader_stored [OF rd(1) this op \<open>entry_bytes p + 8 < 2 ^ 32\<close> k] obtain iter iter' f'
        where "BlockReader extend lib read verify (BlockHandle_EncodeTo h []) f = Some (iter, f')"
          "Block_Seek c k iter = Some iter'" "iterator_status iter' = OK" "iterator_entry iter' = first_ge c k p" by blast
      then have "InternalGet extend lib read verify t k f = Some (OK, first_ge c k p, f')"
        using ii(1,2) ie False t(1) by (simp add: InternalGet_def opt_comparator)
      then show ?thesis using fx(2) unfolding finds_def x snd_conv by blast
    qed
  qed
qed

lemma build_valid:
  assumes "fvalid file" "add_entries extend lib opt append flush es (new_TableBuilder opt file) = Some r"
    and fin: "TableBuilder_Finish extend lib opt append flush r = Some (OK, r')"
  shows "fvalid (tb_file r')"
proof -
  have "fvalid (tb_file (new_TableBuilder opt file))" using assms(1) by (simp add: new_TableBuilder_def)
  with add_entries_view [OF assms(2) Finish_ok [OF fin]] have "fvalid (tb_file r)" by blast
  then show ?thesis by (rule Finish_writes [OF fin]) (use Finish_footer_view in blast)
qed

text \<open>Building a table, opening the file and looking up a key.\<close>

lemma table_lookup:
  assumes "fvalid file" "view file = []" "ordered es" "entry_bytes es + 8 < 2 ^ 32"
    and add: "add_entries extend lib opt append flush es (new_TableBuilder opt file) = Some r"
    and fin: "TableBuilder_Finish extend lib opt append flush r = Some (OK, r')"
    and small: "length (file_view r') < 2 ^ 32" and rd: "reads_file read bytes" "bytes f = file_view r'" and k: "kvalid k"
  shows "unat (tb_offset r') = length (file_view r') \<and> (\<exists>t f1. Table_Open extend lib read opt (unat (tb_offset r')) f = Some (Inr t, f1)
    \<and> (\<exists>res f2. InternalGet extend lib read verify t k f1 = Some (OK, res, f2)
      \<and> (\<forall>e. res = Some e \<longrightarrow> first_ge c k es = Some e)
      \<and> (\<forall>e. first_ge c k es = Some e \<and> same (fst e) k \<longrightarrow> res = Some e)))"
proof -
  let ?r0 = "new_TableBuilder opt file"
  have i0: "tinv ?r0 [] None []" by (rule tinv_new [OF assms(1,2)])
  have fv0: "fvalid (tb_file ?r0)" using i0 by (simp add: tinv_def)
  have small': "length (file_view r') < 2 ^ 64" using small by simp
  note ok = Finish_ok [OF fin]
  note V = add_entries_view [OF add ok fv0]
  from V have "fvalid (tb_file r)" by blast
  then have "\<exists>x. file_view r' = file_view r @ x" by (rule Finish_writes [OF fin]) auto
  then have "length (file_view r) < 2 ^ 64" using small' by auto
  from tinv_add_entries [OF i0 _ add ok this] assms(3) obtain bs pend cur
    where inv: "tinv r bs pend cur" "all_entries bs pend cur = es" by auto
  from tinv_Finish [OF inv(1) _ fin small] assms(3) obtain bs' where
    bs': "unat (tb_offset r') = length (file_view r')" "table_file (file_view r') bs'" "entries_of bs' = es"
    by (auto simp: inv(2))
  from Table_Open_file [OF bs'(2) rd(1) small' rd(2)] obtain t f1 where
    t: "Table_Open extend lib read opt (length (file_view r')) f = Some (Inr t, f1)" "tbl_options t = opt"
    "tbl_index_block t = fst (BlockBuilder_Finish (build 1 (index_of bs')))"
    "opt_filter_policy opt \<noteq> None \<longrightarrow> (\<exists>F. tbl_filter t = Some (new_FilterBlockReader F) \<and> filter_covers F (blocks_of bs' None))" "bytes f1 = file_view r'"
    by blast
  from InternalGet_file [OF bs'(2) rd(1) small' t(5) _ _ k t(2-4)] assms(3,4)
  show ?thesis using t(1) unfolding bs'(1,3) by blast
qed

end

section \<open>Internal keys in tables of files\<close>

lemma internal_less:
  assumes "8 \<le> length a" "8 \<le> length b"
  shows "Compare (InternalKeyComparator BytewiseComparator) a b < 0 \<longleftrightarrow>
    Slice_compare (ExtractUserKey a) (ExtractUserKey b) < 0 \<or> ExtractUserKey a = ExtractUserKey b \<and> tag a > tag b"
  using Slice_compare_0 [of "ExtractUserKey a" "ExtractUserKey b"]
  by (auto simp: InternalKeyComparator_def internal_Compare_def BytewiseComparator_def Let_def)

lemma internal_gap:
  assumes v: "8 \<le> length a" "8 \<le> length b" "8 \<le> length k"
    and ab: "Compare (InternalKeyComparator BytewiseComparator) a b < 0"
    and ak: "Compare (InternalKeyComparator BytewiseComparator) a k < 0"
    and ks: "Compare (InternalKeyComparator BytewiseComparator) k (FindShortestSeparator (InternalKeyComparator BytewiseComparator) a b) \<le> 0"
  shows "ExtractUserKey b \<noteq> ExtractUserKey k"
proof -
  let ?c = "InternalKeyComparator BytewiseComparator" and ?u = ExtractUserKey
  let ?tmp = "bytewise_FindShortestSeparator (?u a) (?u b)"
  let ?sep = "PutFixed64 ?tmp (PackSequenceAndType kMaxSequenceNumber kValueTypeForSeek)"
  have "FindShortestSeparator ?c a b \<noteq> a"
    using ks ak internal.compare_swap [OF v(1,3)] by auto
  then have sep: "FindShortestSeparator ?c a b = ?sep" "length ?tmp < length (?u a)"
    by (auto simp: InternalKeyComparator_def internal_FindShortestSeparator_def BytewiseComparator_def Let_def split: if_splits)
  have "?u a \<noteq> ?u b" using sep(2) bytewise_separator_same [of "?u b"] by auto
  then have "Slice_compare (?u a) (?u b) < 0" using ab internal_less [OF v(1,2)] by simp
  then have tb: "Slice_compare ?tmp (?u b) < 0"
    using bytewise.separator [of "?u a" "?u b"] by (simp add: BytewiseComparator_def)
  have vs: "8 \<le> length ?sep" by simp
  have "k = ?sep \<or> Compare ?c k ?sep < 0" using ks internal.compare_0 [OF v(3) vs] unfolding sep(1) by force
  then have "?u k = ?tmp \<or> Slice_compare (?u k) ?tmp < 0"
    using internal_less [OF v(3) vs] by auto
  then have "Slice_compare (?u k) (?u b) < 0" using tb Slice_compare_trans by auto
  then show ?thesis by (metis Slice_compare_refl less_irrefl)
qed

lemma separator_lengths:
  "length (FindShortestSeparator (InternalKeyComparator BytewiseComparator) a b) \<le> length a"
  "length (FindShortSuccessor (InternalKeyComparator BytewiseComparator) a) \<le> length a"
  by (auto simp: InternalKeyComparator_def internal_FindShortestSeparator_def internal_FindShortSuccessor_def
      BytewiseComparator_def Let_def ExtractUserKey_def)

lemma table_env_posix:
  assumes "accel_ok accel" "write_appends os fd content" "snappy_ok lib"
    and "opt_comparator opt = InternalKeyComparator BytewiseComparator" "1 \<le> opt_restart_interval opt"
    and "opt_filter_policy opt \<in> {None, Some (InternalFilterPolicy (NewBloomFilterPolicy n))}"
  shows "table_env (crc32c_Extend accel addr) (posix_append libcfs os t) (posix_flush os t) (posix_valid fd t)
    (posix_view content t) (posix_pending t) (\<lambda>k. 8 \<le> length k) (InternalKeyComparator BytewiseComparator)
    (InternalFilterPolicy (NewBloomFilterPolicy n)) (\<lambda>k key. ExtractUserKey k = ExtractUserKey key) lib opt"
proof -
  have "table_keys (\<lambda>k. 8 \<le> length k) (InternalKeyComparator BytewiseComparator)
    (InternalFilterPolicy (NewBloomFilterPolicy n)) (\<lambda>k key. ExtractUserKey k = ExtractUserKey key)"
    using internal_gap separator_lengths
    by (intro table_keys.intro table_keys_axioms.intro internal.key_order_axioms internal_bloom.filter_contract_axioms)
  moreover have "length (policy_Name (InternalFilterPolicy (NewBloomFilterPolicy n))) < 2 ^ 31"
    by (simp add: InternalFilterPolicy_def NewBloomFilterPolicy_def)
  ultimately show ?thesis
    using assms by (intro table_env.intro table_env_axioms.intro log_file_posix)
qed

definition default_options :: table_options where
  "default_options = \<lparr>opt_comparator = InternalKeyComparator BytewiseComparator, opt_paranoid_checks = False,
     opt_block_size = 4096, opt_restart_interval = 16, opt_compression = kNoCompression,
     opt_filter_policy = Some (InternalFilterPolicy (NewBloomFilterPolicy 10))\<rparr>"

interpretation posix_table: table_env "crc32c_Extend AcceleratedCRC32C addr" "posix_append libcfs plain_os t"
    "posix_flush plain_os t" "posix_valid fd t" "posix_view (\<lambda>w. w) t" "posix_pending t" "\<lambda>k. 8 \<le> length k"
    "InternalKeyComparator BytewiseComparator" "InternalFilterPolicy (NewBloomFilterPolicy 10)"
    "\<lambda>k key. ExtractUserKey k = ExtractUserKey key" None default_options for addr libcfs t fd
  by (rule table_env_posix [OF accel_ok_none plain_os_appends]) (simp_all add: snappy_ok_def default_options_def)

text \<open>On a file system that writes everything it is asked to, building a table of one entry without a
  filter runs to its end.\<close>

lemma plain_append:
  "length (buf_of t f) + length d \<le> kWritableFileBufferSize \<Longrightarrow>
     Append libcfs plain_os t f d w = Some (OK, f\<lparr>pw_bufs := (pw_bufs f)(t \<mapsto> buf_of t f @ d)\<rparr>, w)"
  by (cases "pw_bufs f t") (auto simp: Append_def GetCurThreadBuf_def buf_of_def Let_def)

lemma plain_flush:
  "Flush plain_os t f w = Some (OK, f\<lparr>pw_bufs := (pw_bufs f)(t \<mapsto> [])\<rparr>, w @ buf_of t f)"
  by (cases "pw_bufs f t") (simp_all add: Flush_def FlushBuffer_def GetCurThreadBuf_def buf_of_def WriteUnbuffered.simps plain_os_def Let_def)

lemma plain_reads_file:
  "reads_file (PosixRandomAccessFile_Read plain_os (Some 3) filename) (\<lambda>w. w)"
  by (auto simp: reads_file_def PosixRandomAccessFile_Read_def plain_os_def)

abbreviation witness_key :: slice where
  "witness_key \<equiv> [1, 0, 0, 0, 0, 0, 0, 0, 0]"

definition plain_options :: table_options where
  "plain_options = default_options\<lparr>opt_filter_policy := None\<rparr>"

lemma plain_option_simps:
  "opt_comparator plain_options = InternalKeyComparator BytewiseComparator" "opt_restart_interval plain_options = 16"
  "opt_filter_policy plain_options = None" "opt_compression plain_options = kNoCompression" "opt_block_size plain_options = 4096"
  by (simp_all add: plain_options_def default_options_def)

lemma plain_WriteBlock:
  assumes "tb_file r = (f, w)" "length (buf_of 1 f) + (CurrentSizeEstimate blk + 5) \<le> kWritableFileBufferSize"
  shows "\<exists>h f'. WriteBlock chk None plain_options (posix_append False plain_os 1) blk r
      = Some (h, r\<lparr>tb_file := (f', w), tb_status := OK, tb_offset := tb_offset r + of_nat (CurrentSizeEstimate blk + 5)\<rparr>)
    \<and> length (buf_of 1 f') = length (buf_of 1 f) + (CurrentSizeEstimate blk + 5)"
proof -
  let ?raw = "fst (BlockBuilder_Finish blk)"
  let ?b = "buf_of 1 f @ ?raw @ compression_code kNoCompression
    # EncodeFixed32 (crc32c_Mask (chk (chk 0 ?raw) [compression_code kNoCompression]))"
  show ?thesis using assms
    by (intro exI [of _ "\<lparr>bh_offset = tb_offset r, bh_size = of_nat (length ?raw)\<rparr>"] exI [of _ "f\<lparr>pw_bufs := (pw_bufs f)(1 \<mapsto> ?b)\<rparr>"])
      (simp add: WriteBlock_def plain_option_simps WriteRawBlock_def plain_append CurrentSizeEstimate_exact kBlockTrailerSize_def Let_def)
qed

lemma plain_finish_tail:
  fixes r2 :: "(posix_wfile \<times> slice) table_builder"
  assumes fl: "TableBuilder_Flush chk None plain_options (posix_append False plain_os 1) (posix_flush plain_os 1) r = Some r1"
    and r2: "r2 = r1\<lparr>tb_closed := True\<rparr>" "tb_file r2 = (f2, w2)" "length (buf_of 1 f2) = 0" "tb_status r2 = OK" "tb_filter_block r2 = None"
    and ix: "tb_index_block r2 = build 1 []" "tb_last_key r2 = witness_key" "tb_pending_index_entry r2"
  shows "\<exists>r' f5. TableBuilder_Finish chk None plain_options (posix_append False plain_os 1) (posix_flush plain_os 1) r = Some (OK, r')
    \<and> tb_file r' = (f5, w2) \<and> length (buf_of 1 f5) \<le> 122"
proof -
  let ?app = "posix_append False plain_os 1" and ?succ = "FindShortSuccessor (InternalKeyComparator BytewiseComparator)"
  have room: "n \<le> 400 \<Longrightarrow> n \<le> kWritableFileBufferSize" for n by (simp add: kWritableFileBufferSize_def)
  have ff: "Finish_filter chk plain_options ?app r2 = Some (new_BlockHandle, r2)"
    by (simp add: Finish_filter_def plain_option_simps)
  have "CurrentSizeEstimate new_BlockBuilder = 8" by (simp add: CurrentSizeEstimate_def new_BlockBuilder_def)
  then obtain mh f3 o3 where W3: "Finish_metaindex chk None plain_options ?app new_BlockHandle r2
      = Some (mh, r2\<lparr>tb_file := (f3, w2), tb_status := OK, tb_offset := o3\<rparr>)" "length (buf_of 1 f3) \<le> 13"
    using plain_WriteBlock [OF r2(2), of new_BlockBuilder chk] r2(3,4) room [of 13]
    by (auto simp: Finish_metaindex_def plain_option_simps)
  define r3 where "r3 = index_entry (?succ)
    (r2\<lparr>tb_file := (f3, w2), tb_status := OK, tb_offset := o3\<rparr>)"
  have ib: "tb_index_block r3 = build 1 [(?succ witness_key, BlockHandle_EncodeTo (tb_pending_handle r2) [])]"
    using ix by (simp add: r3_def index_entry_def build_def Let_def)
  have si: "CurrentSizeEstimate (tb_index_block r3) \<le> 56"
    using build_size [of 1 "[(?succ witness_key, BlockHandle_EncodeTo (tb_pending_handle r2) [])]"]
      separator_lengths(2) [of witness_key] handle_length [of "tb_pending_handle r2"] unfolding ib by simp
  have fw3: "tb_file r3 = (f3, w2)" by (simp add: r3_def index_entry_def Let_def)
  obtain ih f4 o4 where W4: "WriteBlock chk None plain_options ?app (tb_index_block r3) r3
      = Some (ih, r3\<lparr>tb_file := (f4, w2), tb_status := OK, tb_offset := o4\<rparr>)" "length (buf_of 1 f4) \<le> 74"
    using plain_WriteBlock [OF fw3, of "tb_index_block r3" chk] si W3(2) room [of "length (buf_of 1 f3) + (CurrentSizeEstimate (tb_index_block r3) + 5)"]
    by auto
  let ?e = "Footer_EncodeTo \<lparr>ft_metaindex_handle = mh, ft_index_handle = ih\<rparr> []"
  have le: "length ?e = 48" by (simp add: footer_roundtrip(1) kEncodedLength_def kMaxEncodedLength_def)
  then show ?thesis
    using fl ff r2(2-) ix(3) W3 W4 room [of "length (buf_of 1 f4) + 48"]
    by (simp add: TableBuilder_Finish_def Finish_index_def Finish_footer_def plain_append plain_option_simps Let_def
        flip: r2(1) r3_def)
qed

lemma plain_table:
  "\<exists>r r' f2 w2. add_entries chk None plain_options (posix_append False plain_os 1) (posix_flush plain_os 1) [(witness_key, [5])]
      (new_TableBuilder plain_options (new_PosixWritableFile ''000005.ldb'' 3, [])) = Some r
    \<and> TableBuilder_Finish chk None plain_options (posix_append False plain_os 1) (posix_flush plain_os 1) r = Some (OK, r')
    \<and> Flush plain_os 1 (fst (tb_file r')) (snd (tb_file r')) = Some (OK, f2, w2) \<and> length w2 < 2 ^ 32"
proof -
  let ?app = "posix_append False plain_os 1" and ?flush = "posix_flush plain_os 1"
  let ?f0 = "new_PosixWritableFile ''000005.ldb'' 3"
  let ?d = "build 16 [(witness_key, [5])]"
  have sd: "CurrentSizeEstimate ?d \<le> 37" using build_size [of 16 "[(witness_key, [5])]"] by simp
  define r :: "(posix_wfile \<times> slice) table_builder" where "r = (new_TableBuilder plain_options (?f0, []))\<lparr>tb_last_key := witness_key, tb_num_entries := 1, tb_data_block := ?d\<rparr>"
  have "TableBuilder_Add chk None plain_options ?app ?flush witness_key [5] (new_TableBuilder plain_options (?f0, [])) = Some r"
    using sd by (simp add: TableBuilder_Add_def index_entry_def new_TableBuilder_def plain_option_simps r_def build_def)
  then have add: "add_entries chk None plain_options ?app ?flush [(witness_key, [5])] (new_TableBuilder plain_options (?f0, [])) = Some r"
    by simp
  have fw: "tb_file r = (?f0, [])" "buf_of 1 ?f0 = []" "tb_status r = OK" "tb_filter_block r = None" "tb_index_block r = build 1 []"
    "tb_data_block r = ?d" "tb_last_key r = witness_key"
    by (simp_all add: r_def new_TableBuilder_def new_PosixWritableFile_def buf_of_def plain_option_simps build_def)
  have room: "n \<le> 400 \<Longrightarrow> n \<le> kWritableFileBufferSize" for n by (simp add: kWritableFileBufferSize_def)
  obtain h1 f1 where W1: "WriteBlock chk None plain_options ?app ?d r
      = Some (h1, r\<lparr>tb_file := (f1, []), tb_status := OK, tb_offset := tb_offset r + of_nat (CurrentSizeEstimate ?d + 5)\<rparr>)"
    "length (buf_of 1 f1) \<le> 42"
    using plain_WriteBlock [OF fw(1), of ?d chk] fw(2) sd room by auto
  define o2 where "o2 = tb_offset r + of_nat (CurrentSizeEstimate ?d + 5)"
  define f2 w2 where "f2 = f1\<lparr>pw_bufs := (pw_bufs f1)(1 \<mapsto> [])\<rparr>" and "w2 = buf_of 1 f1"
  have fl: "TableBuilder_Flush chk None plain_options ?app ?flush r = Some (r\<lparr>tb_file := (f2, w2), tb_status := OK,
      tb_offset := o2, tb_data_block := BlockBuilder_Reset ?d, tb_pending_handle := h1, tb_pending_index_entry := True\<rparr>)"
    using W1(1) fw(3,6) by (simp add: TableBuilder_Flush_def Let_def plain_flush plain_option_simps build_buffer_empty f2_def w2_def o2_def)
  define r2 :: "(posix_wfile \<times> slice) table_builder" where "r2 = r\<lparr>tb_file := (f2, w2), tb_status := OK, tb_offset := o2, tb_data_block := BlockBuilder_Reset ?d,
      tb_pending_handle := h1, tb_pending_index_entry := True, tb_closed := True\<rparr>"
  have fw2: "tb_file r2 = (f2, w2)" "length (buf_of 1 f2) = 0" "tb_status r2 = OK" "tb_filter_block r2 = None" "length w2 \<le> 42"
    using W1(2) fw by (simp_all add: r2_def f2_def w2_def)
  have "\<exists>r' f5. TableBuilder_Finish chk None plain_options ?app ?flush r = Some (OK, r') \<and> tb_file r' = (f5, w2)
      \<and> length (buf_of 1 f5) \<le> 122"
    using fw(5,7) by (intro plain_finish_tail [OF fl _ fw2(1-4)]) (simp_all add: r2_def)
  then obtain r' f5 where fin: "TableBuilder_Finish chk None plain_options ?app ?flush r = Some (OK, r')" "tb_file r' = (f5, w2)"
      "length (buf_of 1 f5) \<le> 122"
    by blast
  then show ?thesis using add fw2(5) by (auto simp: plain_flush)
qed



end
