(* ===== verification/Spec2Isabelle.thy ===== *)
theory Spec2Isabelle
  imports FB_Avl_Props FB_Ipc FB_Fileset_Props FB_Create_Props LDB_Table_Props
begin

text \<open>
  A verification library for the file system benchmarks of this repository: the workload generator
  under \<^verbatim>\<open>src/filebench\<close> and the key-value store under \<^verbatim>\<open>src/leveldb-1.22\<close>, which are run on uFS and on
  kernel file systems.  Pure functions of the code are functions here; code with state takes and
  returns it, as a record of the fields of the struct or class; failing calls return a status; and
  what the C or C++ standard leaves undefined, a null or wild pointer, a read outside of an array, is
  the value \<^const>\<open>None\<close>, so that a lemma that a call returns \<^const>\<open>Some\<close> also shows that it stays inside of
  its memory.

  \<^bold>\<open>filebench.\<close>  A run keeps its objects in one shared-memory segment (\<^verbatim>\<open>ipc.c\<close>).  A fileset
  (\<^verbatim>\<open>fileset.c\<close>) sorts its entries into seven AVL trees (\<^verbatim>\<open>fb_avl.c\<close>) by type and state; worker threads
  pick entries from the trees and give them back; before a run the files are created through the file
  system plug-in (\<^verbatim>\<open>fsplug.h\<close>).

  \<^item> \<^verbatim>\<open>FB_Prelude\<close>: addresses, status codes, the shared rewrite collections.
  \<^item> \<^verbatim>\<open>FB_Avl\<close>: every operation of \<^verbatim>\<open>fb_avl.c\<close> on a heap of node records.  \<^verbatim>\<open>FB_Avl_Tree\<close> has the abstract
    trees and zippers, \<^verbatim>\<open>FB_Avl_Heap\<close> the representation predicates and the pointer steps, \<^verbatim>\<open>FB_Avl_Ops\<close>,
    \<^verbatim>\<open>FB_Avl_Exchange\<close>, \<^verbatim>\<open>FB_Avl_Remove\<close> and \<^verbatim>\<open>FB_Avl_Walk\<close> the operations over them, \<^verbatim>\<open>FB_Avl_Packed\<close> the
    packed node word of 64-bit machines.  \<^verbatim>\<open>FB_Container\<close> is the interface to the clients: the locale
    \<^verbatim>\<open>ordered_container\<close>, interpreted on the AVL operations.  \<^verbatim>\<open>FB_Avl_Props\<close>: each operation returns,
    keeps the balance and the order and refines the operation on sorted lists; search is logarithmic.
  \<^item> \<^verbatim>\<open>FB_Ipc\<close>: the object pools with their allocation maps, the string, path and custom-variable memory,
    the semaphore table and the ISM region of \<^verbatim>\<open>ipc.c\<close>.  The locale \<^verbatim>\<open>slot_allocator\<close> is the contract of a
    pool.  What the code reports as exhaustion is stated exactly, including where it is wrong.
  \<^item> \<^verbatim>\<open>FB_Utils\<close>: the bounded string copies of \<^verbatim>\<open>utils.c\<close> with their unsigned counters.
  \<^item> \<^verbatim>\<open>FB_Fileset\<close>: entries, flags, the seven trees, \<^verbatim>\<open>fileset_pick\<close>, \<^verbatim>\<open>fileset_unbusy\<close>, \<^verbatim>\<open>fileset_pickreset\<close>;
    \<^verbatim>\<open>FB_Fileset_Inv\<close> the invariant, \<^verbatim>\<open>FB_Fileset_Ops\<close> and \<^verbatim>\<open>FB_Fileset_Props\<close> what the operations do to it,
    and \<^verbatim>\<open>FB_Workers\<close> the interleavings of the worker threads, as a step relation over the locale
    \<^verbatim>\<open>entry_pool\<close>: no two threads hold one entry.
  \<^item> \<^verbatim>\<open>FB_Path\<close>, \<^verbatim>\<open>FB_Path_Props\<close>: the path of an entry, \<^verbatim>\<open>trunc_dirname\<close>, \<^verbatim>\<open>fileset_mkdir\<close>.  \<^verbatim>\<open>FB_Create\<close>,
    \<^verbatim>\<open>FB_Create_Props\<close>: \<^verbatim>\<open>fileset_alloc_file\<close>, \<^verbatim>\<open>fileset_openfile\<close>, \<^verbatim>\<open>fileset_create\<close> and
    \<^verbatim>\<open>fileset_delete_storage\<close> over a plug-in whose functions are arguments.

  \<^bold>\<open>leveldb.\<close>  Records reach the disk through a write-ahead log (\<^verbatim>\<open>db/log_*.cc\<close>) and sorted tables
  (\<^verbatim>\<open>table/*.cc\<close>), both on the buffered files of \<^verbatim>\<open>util/env_posix.cc\<close>, with checksums (\<^verbatim>\<open>util/crc32c.cc\<close>)
  and the encodings of \<^verbatim>\<open>util/coding.cc\<close>.

  \<^item> \<^verbatim>\<open>LDB_Coding\<close>: fixed and variable-length integers, length-prefixed strings, and their round trips.
  \<^item> \<^verbatim>\<open>LDB_Crc32c\<close>: the five tables and the strided loop of \<^verbatim>\<open>Extend\<close>, equal to the bitwise CRC-32C.  The
    locale \<^verbatim>\<open>checksum\<close> is what the log and the tables rely on.
  \<^item> \<^verbatim>\<open>LDB_Env\<close>: \<^verbatim>\<open>PosixWritableFile\<close> with its buffer per thread and the read operations, over the system
    calls as arguments; the locale \<^verbatim>\<open>writable_file\<close> is the contract of a file that is appended to.
  \<^item> \<^verbatim>\<open>LDB_Log\<close>, \<^verbatim>\<open>LDB_Log_Props\<close>: \<^verbatim>\<open>log::Writer\<close> and \<^verbatim>\<open>log::Reader\<close>; the locale \<^verbatim>\<open>log_file\<close> joins the two
    contracts above.  What is written is read back, and a file cut off at any byte gives a prefix.
  \<^item> \<^verbatim>\<open>LDB_Comparator\<close>: the bytewise order, internal keys and their order; the locale \<^verbatim>\<open>key_order\<close> is what
    the tables rely on.
  \<^item> \<^verbatim>\<open>LDB_Block\<close>, \<^verbatim>\<open>LDB_Block_Props\<close>: \<^verbatim>\<open>BlockBuilder\<close> and the iterator of \<^verbatim>\<open>Block\<close>, shown to be a cursor in
    the list of entries.
  \<^item> \<^verbatim>\<open>LDB_Filter\<close>: the hash, Bloom filters, the filter block; the locale \<^verbatim>\<open>filter_contract\<close> is that a filter
    has no false negatives.
  \<^item> \<^verbatim>\<open>LDB_Table\<close>, \<^verbatim>\<open>LDB_Table_Props\<close>: \<^verbatim>\<open>TableBuilder\<close>, \<^verbatim>\<open>Table::Open\<close> and \<^verbatim>\<open>InternalGet\<close>; the locales
    \<^verbatim>\<open>table_keys\<close> and \<^verbatim>\<open>table_env\<close> join the contracts, and a table built through \<^verbatim>\<open>PosixWritableFile\<close> is
    shown to give back its entries.

  \<^bold>\<open>Bounds and fuel.\<close>  Loops that end by the structure of their data are recursive functions.  The
  loops of the AVL code over pointers, the loops over system calls that may be interrupted forever and
  the walks of \<^verbatim>\<open>fileset.c\<close> are partial functions into \<^typ>\<open>'a option\<close>, and the properties show that they
  return \<^const>\<open>Some\<close>.  No definition runs on fuel.  Machine integers are words where the code can wrap
  (the counters of \<^verbatim>\<open>utils.c\<close>, checksums, encodings, table offsets); sizes that are bounded by memory are
  natural numbers.

  \<^bold>\<open>Arguments.\<close>  System calls, the file system plug-in, random numbers, the accelerated CRC and the
  Snappy library are not code of this repository.  They are arguments, and what is relied on is a
  hypothesis: a write that succeeds has appended a prefix, a read returns the bytes of the file,
  uncompressing undoes compressing.

  \<^bold>\<open>Not modelled.\<close>  The parser and the command interpreter of filebench (\<^verbatim>\<open>parser_gram.y\<close>,
  \<^verbatim>\<open>parser_lex.l\<close>) are yacc and lex input.  The flowops (\<^verbatim>\<open>flowop.c\<close>, \<^verbatim>\<open>flowop_library.c\<close>), the process
  and thread control (\<^verbatim>\<open>procflow.c\<close>, \<^verbatim>\<open>threadflow.c\<close>), statistics, timing and the event generator are
  mainly system calls and wall-clock time.  Variables and random distributions (\<^verbatim>\<open>vars.c\<close>, \<^verbatim>\<open>fb_cvar.c\<close>,
  \<^verbatim>\<open>fb_random.c\<close>, \<^verbatim>\<open>gamma_dist.c\<close>, \<^verbatim>\<open>cvars/\<close>) compute in floating point.  Of leveldb, the database itself
  (\<^verbatim>\<open>db_impl.cc\<close>, \<^verbatim>\<open>version_set.cc\<close>, compaction and recovery), the block and table caches, merging
  iterators, the C interface and the other environments are left out; so are the tests, \<^verbatim>\<open>db_bench\<close>,
  and the programs of \<^verbatim>\<open>scalefs_bench\<close>, which are sequences of system calls.
\<close>

end
